(* ===== verification/Prelude.thy ===== *)
theory Prelude
  imports Main "HOL-Library.Word" "HOL-Library.Char_ord"
begin

text \<open>
  Shared vocabulary of the development: the machine types of the firmware, the
  pieces of the C string library the sources call, and generic lemmas on lists
  and words.  Buffers that the C++ keeps as NUL-terminated arrays are lists of
  characters here, without the terminator; raw memory is a list of bytes.
\<close>

unbundle bit_operations_syntax

type_synonym u8 = "8 word"
type_synonym u16 = "16 word"
type_synonym u32 = "32 word"
type_synonym bytes = "u8 list"

named_theorems word_nat \<open>rewriting of word operations to natural numbers\<close>

section \<open>Words as bounded natural numbers\<close>

lemma unat_u32_less [simp]: "unat (x :: u32) < 4294967296"
  using unsigned_less [of x] by simp

lemma unat_of_nat_u32 [word_nat]: "n < 4294967296 \<Longrightarrow> unat (of_nat n :: u32) = n"
  by (simp add: unat_of_nat take_bit_eq_mod)

lemma of_nat_u32_inj:
  "m < 4294967296 \<Longrightarrow> n < 4294967296 \<Longrightarrow> (of_nat m :: u32) = of_nat n \<longleftrightarrow> m = n"
  by (metis unat_of_nat_u32)

lemma u32_less_iff [word_nat]: "(x :: u32) < y \<longleftrightarrow> unat x < unat y"
  by (rule word_less_nat_alt)

lemma u32_le_iff [word_nat]: "(x :: u32) \<le> y \<longleftrightarrow> unat x \<le> unat y"
  by (rule word_le_nat_alt)

lemma unat_u32_add: "unat (x + y :: u32) = (unat x + unat y) mod 4294967296"
  by (simp add: unat_word_ariths)

lemma unat_u32_add_small:
  "unat x + unat y < 4294967296 \<Longrightarrow> unat (x + y :: u32) = unat x + unat y"
  by (simp add: unat_u32_add)

lemma unat_u32_sub_small:
  "unat y \<le> unat x \<Longrightarrow> unat (x - y :: u32) = unat x - unat y"
  by (rule unat_sub) (simp add: word_le_nat_alt)

lemma unat_take_bit_u32: "unat (take_bit k x :: u32) = unat x mod 2 ^ k"
  unfolding unsigned_take_bit_eq by (rule take_bit_eq_mod)

lemma unat_and_not_mask: "unat (x AND NOT (mask k) :: u32) = unat x div 2 ^ k * 2 ^ k"
proof -
  have "(x AND NOT (mask k)) + take_bit k x = (x AND NOT (mask k)) OR take_bit k x"
    by (rule disjunctive_add_eq_or) (rule bit_word_eqI, auto simp: bit_simps)
  also have "\<dots> = x" by (rule bit_word_eqI) (auto simp: bit_simps)
  finally have e: "x AND NOT (mask k) = x - take_bit k x" by (simp add: algebra_simps)
  have "unat (take_bit k x) \<le> unat x" by (simp add: unat_take_bit_u32)
  then have "unat (x - take_bit k x) = unat x - unat x mod 2 ^ k" by (simp add: unat_u32_sub_small unat_take_bit_u32)
  then show ?thesis unfolding e by (simp add: minus_mod_eq_div_mult)
qed

text \<open>Rounding down to a multiple of eight by masking, as the sources write it.\<close>

lemma unat_and_not7: "unat (x AND NOT 7 :: u32) = 8 * (unat x div 8)"
proof -
  have "x AND NOT 7 = x AND NOT (mask 3)" by (simp add: mask_eq_exp_minus_1)
  also have "\<dots> = push_bit 3 (drop_bit 3 x)"
    by (rule bit_word_eqI) (auto simp: bit_simps)
  finally have e: "x AND NOT 7 = push_bit 3 (drop_bit 3 x)" .
  have "unat x div 8 < 536870912" using unat_u32_less [of x] by linarith
  moreover have "unat x mod 4294967296 = unat x" using unat_u32_less [of x] by simp
  moreover have "unat (push_bit 3 (drop_bit 3 x)) =
      take_bit 32 (push_bit 3 (drop_bit 3 (take_bit 32 (unat x))))"
    by (simp only: unsigned_push_bit_eq unsigned_drop_bit_eq) simp
  ultimately show ?thesis unfolding e
    by (simp add: take_bit_eq_mod drop_bit_eq_div push_bit_eq_mult)
qed

lemmas unat_and_m8 = unat_and_not7 [simplified]

end
