(* ===== verification/Arena.thy ===== *)
theory Arena
  imports Prelude
begin

text \<open>
  The heap of one sandboxed package, \<open>os/core/arena.cpp\<close>: a first-fit allocator
  over an implicit list of blocks.  The block headers live in the arena itself, so
  the model has an explicit store of aligned 32-bit words and the operations walk
  it by address, with the wrap-around of 32-bit pointers.  A walk over headers that
  hold a zero size does not end, so the loops are \<open>partial_function (option)\<close>; the
  invariant below is what makes them return.
\<close>

section \<open>State and operations\<close>

type_synonym wordstore = "u32 \<Rightarrow> u32"

record arena =
  a_base :: u32
  a_size :: u32

definition HDR :: u32 where
  "HDR = 8"

definition blk_size :: "wordstore \<Rightarrow> u32 \<Rightarrow> u32" where
  "blk_size m b = m b"

definition blk_free :: "wordstore \<Rightarrow> u32 \<Rightarrow> bool" where
  "blk_free m b = (m (b + 4) \<noteq> 0)"

definition set_size :: "wordstore \<Rightarrow> u32 \<Rightarrow> u32 \<Rightarrow> wordstore" where
  "set_size m b v = m(b := v)"

definition set_free :: "wordstore \<Rightarrow> u32 \<Rightarrow> u32 \<Rightarrow> wordstore" where
  "set_free m b v = m(b + 4 := v)"

definition arena_next :: "arena \<Rightarrow> wordstore \<Rightarrow> u32 \<Rightarrow> u32 option" where
  "arena_next a m b =
     (let n = b + blk_size m b
      in if n < a_base a + a_size a then Some n else None)"

definition arena_init :: "u32 \<Rightarrow> u32 \<Rightarrow> wordstore \<Rightarrow> arena \<times> wordstore" where
  "arena_init base len m =
     (if base = 0 \<or> len < HDR + 8 then (\<lparr>a_base = base, a_size = 0\<rparr>, m)
      else let sz = len AND NOT 7
           in (\<lparr>a_base = base, a_size = sz\<rparr>, set_free (set_size m base sz) base 1))"

definition take_block :: "wordstore \<Rightarrow> u32 \<Rightarrow> u32 \<Rightarrow> wordstore" where
  "take_block m b want =
     (let m1 = (if want + HDR + 8 \<le> blk_size m b
                then set_size (set_free (set_size m (b + want) (blk_size m b - want))
                       (b + want) 1) b want
                else m)
      in set_free m1 b 0)"

partial_function (option) alloc_loop ::
  "arena \<Rightarrow> wordstore \<Rightarrow> u32 \<Rightarrow> u32 \<Rightarrow> (wordstore \<times> u32) option" where
  "alloc_loop a m want b =
     (if \<not> blk_free m b \<or> blk_size m b < want then
        (case arena_next a m b of
           None \<Rightarrow> Some (m, 0)
         | Some n \<Rightarrow> alloc_loop a m want n)
      else Some (take_block m b want, b + HDR))"

definition want_of :: "u32 \<Rightarrow> u32" where
  "want_of n = (n + HDR + 7) AND NOT 7"

text \<open>A null \<open>Arena *\<close> is \<open>None\<close>; a null result pointer is 0.\<close>

definition arena_alloc ::
  "arena option \<Rightarrow> wordstore \<Rightarrow> u32 \<Rightarrow> (wordstore \<times> u32) option" where
  "arena_alloc ao m n =
     (case ao of None \<Rightarrow> Some (m, 0) | Some a \<Rightarrow>
        if a_size a = 0 \<or> n = 0 then Some (m, 0)
        else let want = want_of n
             in if want < n then Some (m, 0) else alloc_loop a m want (a_base a))"

partial_function (option) merge_loop ::
  "arena \<Rightarrow> wordstore \<Rightarrow> u32 \<Rightarrow> wordstore option" where
  "merge_loop a m b =
     (case arena_next a m b of
        None \<Rightarrow> Some m
      | Some n \<Rightarrow>
          if blk_free m n then merge_loop a (set_size m b (blk_size m b + blk_size m n)) b
          else Some m)"

partial_function (option) free_loop ::
  "arena \<Rightarrow> wordstore \<Rightarrow> u32 \<Rightarrow> u32 \<Rightarrow> wordstore option" where
  "free_loop a m q b =
     (if b \<noteq> q then
        (case arena_next a m b of None \<Rightarrow> Some m | Some n \<Rightarrow> free_loop a m q n)
      else if blk_free m b then Some m
      else merge_loop a (set_free m b 1) b)"

definition arena_free :: "arena option \<Rightarrow> wordstore \<Rightarrow> u32 \<Rightarrow> wordstore option" where
  "arena_free ao m p =
     (case ao of None \<Rightarrow> Some m | Some a \<Rightarrow>
        if p = 0 \<or> a_size a = 0 then Some m
        else let q = p - HDR
             in if q < a_base a \<or> q \<ge> a_base a + a_size a then Some m
                else free_loop a m q (a_base a))"

definition arena_size :: "arena option \<Rightarrow> u32" where
  "arena_size ao = (case ao of None \<Rightarrow> 0 | Some a \<Rightarrow> a_size a)"

partial_function (option) used_loop ::
  "arena \<Rightarrow> wordstore \<Rightarrow> u32 \<Rightarrow> u32 \<Rightarrow> u32 option" where
  "used_loop a m used b =
     (let used' = (if blk_free m b then used else used + blk_size m b)
      in case arena_next a m b of None \<Rightarrow> Some used' | Some n \<Rightarrow> used_loop a m used' n)"

definition arena_used :: "arena option \<Rightarrow> wordstore \<Rightarrow> u32 option" where
  "arena_used ao m =
     (case ao of None \<Rightarrow> Some 0 | Some a \<Rightarrow>
        if a_size a = 0 then Some 0 else used_loop a m 0 (a_base a))"

partial_function (option) largest_loop ::
  "arena \<Rightarrow> wordstore \<Rightarrow> u32 \<Rightarrow> u32 \<Rightarrow> u32 option" where
  "largest_loop a m best b =
     (let best' = (if blk_free m b \<and> best < blk_size m b then blk_size m b else best)
      in case arena_next a m b of None \<Rightarrow> Some best' | Some n \<Rightarrow> largest_loop a m best' n)"

definition arena_largest :: "arena option \<Rightarrow> wordstore \<Rightarrow> u32 option" where
  "arena_largest ao m =
     (case ao of None \<Rightarrow> Some 0 | Some a \<Rightarrow>
        if a_size a = 0 then Some 0
        else map_option (\<lambda>best. if HDR < best then best - HDR else 0)
               (largest_loop a m 0 (a_base a)))"

section \<open>The abstract allocator: a list of blocks\<close>

type_synonym block_list = "(nat \<times> bool) list"

fun total :: "block_list \<Rightarrow> nat" where
  "total [] = 0"
| "total ((s, f) # bs) = s + total bs"

fun spec_alloc :: "nat \<Rightarrow> nat \<Rightarrow> block_list \<Rightarrow> (block_list \<times> nat) option" where
  "spec_alloc addr want [] = None"
| "spec_alloc addr want ((s, f) # bs) =
     (if f \<and> want \<le> s then
        Some (if want + 16 \<le> s then (want, False) # (s - want, True) # bs
              else (s, False) # bs, addr + 8)
      else map_option (\<lambda>(bs', p). ((s, f) # bs', p)) (spec_alloc (addr + s) want bs))"

fun spec_merge :: "nat \<Rightarrow> block_list \<Rightarrow> block_list" where
  "spec_merge s ((s', True) # bs) = spec_merge (s + s') bs"
| "spec_merge s bs = (s, True) # bs"

fun spec_free :: "nat \<Rightarrow> nat \<Rightarrow> block_list \<Rightarrow> block_list" where
  "spec_free addr q [] = []"
| "spec_free addr q ((s, f) # bs) =
     (if addr \<noteq> q then (s, f) # spec_free (addr + s) q bs
      else if f then (s, f) # bs
      else spec_merge s bs)"

text \<open>The payloads in use, each as its address and its capacity.\<close>

fun payloads :: "nat \<Rightarrow> block_list \<Rightarrow> (nat \<times> nat) list" where
  "payloads addr [] = []"
| "payloads addr ((s, f) # bs) =
     (if f then payloads (addr + s) bs else (addr + 8, s - 8) # payloads (addr + s) bs)"

text \<open>What the store holds when it represents a list of blocks from \<open>addr\<close> on.\<close>

fun blocks :: "wordstore \<Rightarrow> nat \<Rightarrow> block_list \<Rightarrow> bool" where
  "blocks m addr [] = True"
| "blocks m addr ((s, f) # bs) =
     (unat (m (of_nat addr)) = s \<and> (m (of_nat (addr + 4)) \<noteq> 0) = f \<and> 16 \<le> s \<and> 8 dvd s
      \<and> blocks m (addr + s) bs)"

definition arena_inv :: "arena \<Rightarrow> wordstore \<Rightarrow> block_list \<Rightarrow> bool" where
  "arena_inv a m bs \<longleftrightarrow>
     bs \<noteq> [] \<and> 16 \<le> unat (a_base a) \<and> 8 dvd unat (a_base a)
     \<and> unat (a_base a) + total bs < 4294967296
     \<and> unat (a_size a) = total bs \<and> blocks m (unat (a_base a)) bs"


section \<open>Representation lemmas\<close>

lemma HDR_unat [simp]: "unat HDR = 8"
  by (simp add: HDR_def)

lemma total_append [simp]: "total (xs @ ys) = total xs + total ys"
  by (induction xs rule: total.induct) auto

lemma blocks_append:
  "blocks m addr (xs @ ys) \<longleftrightarrow> blocks m addr xs \<and> blocks m (addr + total xs) ys"
  by (induction m addr xs rule: blocks.induct) (auto simp: add.assoc)

lemma blocks_frame:
  assumes "\<And>x. addr \<le> x \<Longrightarrow> x < addr + total bs \<Longrightarrow> m' (of_nat x) = m (of_nat x)"
  shows "blocks m' addr bs = blocks m addr bs"
  using assms
proof (induction m addr bs rule: blocks.induct)
  case (2 m addr s f bs)
  show ?case
  proof (cases "16 \<le> s")
    case True
    then have "m' (of_nat addr) = m (of_nat addr)"
      and "m' (of_nat (addr + 4)) = m (of_nat (addr + 4))"
      by (rule_tac "2.prems"; simp)+
    moreover have "blocks m' (addr + s) bs = blocks m (addr + s) bs"
      by (rule "2.IH") (rule "2.prems"; simp)
    ultimately show ?thesis by simp
  qed simp
qed simp

text \<open>Store updates at an address of a number, read at an address of a number.\<close>

lemma upd_other:
  "x < 4294967296 \<Longrightarrow> y < 4294967296 \<Longrightarrow> x \<noteq> y \<Longrightarrow>
   (m(of_nat x := v)) (of_nat y) = (m :: wordstore) (of_nat y)"
  by (simp add: of_nat_u32_inj)

lemma blk_free_of_nat: "blk_free m (of_nat x) = (m (of_nat (x + 4)) \<noteq> 0)"
  by (simp add: blk_free_def)

lemma arena_next_repr:
  assumes "unat (a_base a) + unat (a_size a) = addr + (s + t)" "addr + (s + t) < 4294967296"
    and "unat (m (of_nat addr)) = s"
  shows "arena_next a m (of_nat addr) = (if 0 < t then Some (of_nat (addr + s)) else None)"
proof -
  have lim: "unat (a_base a + a_size a) = addr + (s + t)"
    using assms(1,2) by (simp add: unat_u32_add_small)
  have n: "of_nat addr + m (of_nat addr) = (of_nat (addr + s) :: u32)"
    by (simp flip: assms(3))
  have "unat (of_nat (addr + s) :: u32) = addr + s"
    using assms(2) by (simp add: unat_of_nat_u32 del: of_nat_add)
  with lim show ?thesis
    unfolding arena_next_def blk_size_def n Let_def word_less_nat_alt by simp
qed


section \<open>The operations refine the abstract allocator\<close>

lemma take_block_repr:
  assumes "blocks m addr ((s, True) # bs)" "addr + total ((s, True) # bs) < 4294967296"
    and "16 \<le> addr" "unat want \<le> s" "16 \<le> unat want" "8 dvd unat want"
  shows "blocks (take_block m (of_nat addr) want) addr
           (if unat want + 16 \<le> s then (unat want, False) # (s - unat want, True) # bs
            else (s, False) # bs)"
    and "\<And>x. x < addr \<or> addr + s \<le> x \<Longrightarrow> x < 4294967296 \<Longrightarrow>
           take_block m (of_nat addr) want (of_nat x) = m (of_nat x)"
proof -
  let ?w = "unat want"
  have sz: "unat (m (of_nat addr)) = s" and rest: "blocks m (addr + s) bs"
    and s8: "8 dvd s" "16 \<le> s" and lim: "addr + s + total bs < 4294967296"
    using assms(1,2) by auto
  have guard: "want + HDR + 8 \<le> m (of_nat addr) \<longleftrightarrow> ?w + 16 \<le> s"
    using sz lim assms(3,4)
    by (simp add: word_le_nat_alt unat_u32_add_small) linarith
  have sub: "m (of_nat addr) - want = of_nat (s - ?w)"
    by (rule word_unat_eq_iff [THEN iffD2])
      (use sz lim assms(4) in \<open>simp add: unat_u32_sub_small unat_of_nat_u32\<close>)
  have ad: "of_nat addr + want = (of_nat (addr + ?w) :: u32)" by simp
  define m' where "m' = take_block m (of_nat addr) want"
  have m': "m' = (if ?w + 16 \<le> s
      then m (of_nat (addr + ?w) := of_nat (s - ?w), of_nat (addr + ?w + 4) := 1,
              of_nat addr := want, of_nat (addr + 4) := 0)
      else m (of_nat (addr + 4) := 0))"
    unfolding m'_def take_block_def blk_size_def set_size_def set_free_def Let_def guard sub ad
    by (simp add: add.assoc)
  show out: "m' (of_nat x) = m (of_nat x)" if "x < addr \<or> addr + s \<le> x" "x < 4294967296" for x
    using that lim assms(3-5) s8 unfolding m' by (auto simp: of_nat_u32_inj simp del: of_nat_add)
  have tail: "blocks m' (addr + s) bs"
    using rest by (subst blocks_frame [where m = m]) (use lim in \<open>auto intro!: out\<close>)
  have split: "blocks m' addr ((?w, False) # (s - ?w, True) # bs)" if sp: "?w + 16 \<le> s"
  proof -
    have "m' (of_nat addr) = want" "m' (of_nat (addr + 4)) = 0"
      "m' (of_nat (addr + ?w)) = of_nat (s - ?w)" "m' (of_nat (addr + ?w + 4)) = 1"
      using sp lim assms(3-5) unfolding m' by (auto simp: of_nat_u32_inj simp del: of_nat_add)
    moreover have "8 dvd s - ?w" using s8 assms(6) by auto
    moreover have "unat (of_nat (s - ?w) :: u32) = s - ?w"
      using lim by (simp add: unat_of_nat_u32)
    ultimately show ?thesis using tail sp assms(5,6) by (simp del: of_nat_add)
  qed
  have whole: "blocks m' addr ((s, False) # bs)" if sp: "\<not> ?w + 16 \<le> s"
  proof -
    have "m' (of_nat addr) = m (of_nat addr)" "m' (of_nat (addr + 4)) = 0"
      using sp lim assms(3-5) unfolding m' by (auto simp: of_nat_u32_inj simp del: of_nat_add)
    then show ?thesis using tail sz s8 by (simp del: of_nat_add)
  qed
  show "blocks m' addr (if ?w + 16 \<le> s then (?w, False) # (s - ?w, True) # bs
            else (s, False) # bs)"
    using split whole by simp
qed


lemma alloc_loop_repr:
  assumes "blocks m addr bs" "bs \<noteq> []"
    and "unat (a_base a) + unat (a_size a) = addr + total bs" "addr + total bs < 4294967296"
    and "16 \<le> addr" "16 \<le> unat want" "8 dvd unat want"
  shows "case spec_alloc addr (unat want) bs of
           None \<Rightarrow> alloc_loop a m want (of_nat addr) = Some (m, 0)
         | Some (bs', p) \<Rightarrow> \<exists>m'. alloc_loop a m want (of_nat addr) = Some (m', of_nat p)
             \<and> blocks m' addr bs'
             \<and> (\<forall>x. x < addr \<or> addr + total bs \<le> x \<longrightarrow> x < 4294967296 \<longrightarrow>
                  m' (of_nat x) = m (of_nat x))"
  using assms
proof (induction addr "unat want" bs rule: spec_alloc.induct)
  case (2 addr s f bs)
  note prems = "2.prems"
  have sz: "unat (m (of_nat addr)) = s" and fr: "(m (of_nat (addr + 4)) \<noteq> 0) = f"
    and rest: "blocks m (addr + s) bs" and s16: "16 \<le> s"
    using prems(1) by auto
  have fr': "blk_free m (of_nat addr) = f" using fr by (simp only: blk_free_of_nat)
  have lt: "(blk_size m (of_nat addr) < want) = (s < unat want)"
    using sz by (simp add: blk_size_def word_less_nat_alt)
  show ?case
  proof (cases "f \<and> unat want \<le> s")
    case True
    then have "alloc_loop a m want (of_nat addr) =
        Some (take_block m (of_nat addr) want, of_nat (addr + 8))"
      using fr' lt by (subst alloc_loop.simps) (simp add: HDR_def)
    moreover note take_block_repr [of m addr s bs want] prems True
    ultimately show ?thesis by simp
  next
    case False
    have nx: "arena_next a m (of_nat addr) =
        (if 0 < total bs then Some (of_nat (addr + s)) else None)"
      by (rule arena_next_repr) (use prems(3,4) sz in simp_all)
    have tot0: "bs \<noteq> [] \<Longrightarrow> 0 < total bs" using rest by (cases bs) auto
    have unf: "alloc_loop a m want (of_nat addr) =
        (if bs = [] then Some (m, 0) else alloc_loop a m want (of_nat (addr + s)))"
      using False fr' lt nx tot0 by (subst alloc_loop.simps) auto
    show ?thesis
    proof (cases "bs = []")
      case True
      then show ?thesis using unf False by auto
    next
      case ne: False
      have IH: "case spec_alloc (addr + s) (unat want) bs of
           None \<Rightarrow> alloc_loop a m want (of_nat (addr + s)) = Some (m, 0)
         | Some (bs', p) \<Rightarrow> \<exists>m'. alloc_loop a m want (of_nat (addr + s)) = Some (m', of_nat p)
             \<and> blocks m' (addr + s) bs'
             \<and> (\<forall>x. x < addr + s \<or> addr + s + total bs \<le> x \<longrightarrow> x < 4294967296 \<longrightarrow>
                  m' (of_nat x) = m (of_nat x))"
        using "2.hyps" [OF False rest ne] prems by (simp add: add.assoc)
      show ?thesis
      proof (cases "spec_alloc (addr + s) (unat want) bs")
        case None
        then show ?thesis using IH unf False ne by auto
      next
        case (Some r)
        obtain bs' p where r: "r = (bs', p)" by (cases r)
        from IH Some r obtain m' where
          m': "alloc_loop a m want (of_nat (addr + s)) = Some (m', of_nat p)"
              "blocks m' (addr + s) bs'" and
          out: "\<And>x. x < addr + s \<or> addr + s + total bs \<le> x \<Longrightarrow> x < 4294967296 \<Longrightarrow>
                  m' (of_nat x) = m (of_nat x)"
          by auto
        have "m' (of_nat addr) = m (of_nat addr)"
             "m' (of_nat (addr + 4)) = m (of_nat (addr + 4))"
          using out [of addr] out [of "addr + 4"] s16 prems(4) by simp_all
        then have "blocks m' addr ((s, f) # bs')"
          using m' prems(1) by simp
        moreover have "spec_alloc addr (unat want) ((s, f) # bs) = Some ((s, f) # bs', p)"
          using False Some r by auto
        moreover have "alloc_loop a m want (of_nat addr) = Some (m', of_nat p)"
          using unf ne m' by simp
        ultimately show ?thesis using out by (simp add: add.assoc)
      qed
    qed
  qed
qed simp

lemma merge_loop_repr:
  assumes "blocks m addr ((s, True) # bs)"
    and "unat (a_base a) + unat (a_size a) = addr + (s + total bs)"
    and "addr + (s + total bs) < 4294967296"
  shows "\<exists>m'. merge_loop a m (of_nat addr) = Some m' \<and> blocks m' addr (spec_merge s bs)
    \<and> (\<forall>x. x \<noteq> addr \<longrightarrow> x < 4294967296 \<longrightarrow> m' (of_nat x) = m (of_nat x))"
  using assms
proof (induction s bs arbitrary: m rule: spec_merge.induct [case_names merge none used])
  case (merge s s' bs)
  have sz: "unat (m (of_nat addr)) = s" "unat (m (of_nat (addr + s))) = s'"
    and fr: "m (of_nat (addr + s + 4)) \<noteq> 0" and s16: "16 \<le> s" "16 \<le> s'"
    and rest: "blocks m (addr + s + s') bs" and s8: "8 dvd s" "8 dvd s'"
    and fr1: "m (of_nat (addr + 4)) \<noteq> 0"
    using merge.prems(1) by auto
  define m1 where "m1 = m (of_nat addr := of_nat (s + s'))"
  have sum: "m (of_nat addr) + m (of_nat (addr + s)) = of_nat (s + s')"
    by (simp flip: sz)
  have nx: "arena_next a m (of_nat addr) = Some (of_nat (addr + s))"
    using arena_next_repr [of a addr s "s' + total bs" m] sz merge.prems s16 by simp
  have unf: "merge_loop a m (of_nat addr) = merge_loop a m1 (of_nat addr)"
    using fr
    by (subst merge_loop.simps)
      (simp add: nx blk_free_of_nat blk_size_def set_size_def sum m1_def del: of_nat_add)
  have ot: "\<And>x. x \<noteq> addr \<Longrightarrow> x < 4294967296 \<Longrightarrow> m1 (of_nat x) = m (of_nat x)"
    using merge.prems(3) unfolding m1_def by (simp add: of_nat_u32_inj)
  have "blocks m1 (addr + s + s') bs"
    using rest by (subst blocks_frame [where m = m]) (use merge.prems(3) s16 in \<open>auto intro!: ot\<close>)
  then have "blocks m1 addr ((s + s', True) # bs)"
    using s16 s8 fr1 ot [of "addr + 4"] merge.prems(3)
    by (simp add: m1_def unat_of_nat_u32 add.assoc del: of_nat_add)
  from merge.IH [OF this] merge.prems(2,3) ot show ?case
    unfolding unf by (auto simp: add.assoc)
next
  case (none s)
  then have "arena_next a m (of_nat addr) = None"
    using arena_next_repr [of a addr s 0 m] by simp
  then show ?case using none(1) by (subst merge_loop.simps) auto
next
  case (used s v bs)
  have "arena_next a m (of_nat addr) = Some (of_nat (addr + s))"
    using arena_next_repr [of a addr s "v + total bs" m] used by simp
  moreover have "\<not> blk_free m (of_nat (addr + s))"
    using used(1) by (simp add: blk_free_of_nat del: of_nat_add)
  ultimately show ?case using used(1) by (subst merge_loop.simps) auto
qed


lemma total_spec_merge [simp]: "total (spec_merge s bs) = s + total bs"
  by (induction s bs rule: spec_merge.induct) auto

lemma total_spec_free [simp]: "total (spec_free addr q bs) = total bs"
  by (induction addr q bs rule: spec_free.induct) auto

lemma total_spec_alloc: "spec_alloc addr want bs = Some (bs', p) \<Longrightarrow> total bs' = total bs"
  by (induction addr want bs arbitrary: bs' p rule: spec_alloc.induct)
    (auto split: if_splits)

lemma free_loop_repr:
  assumes "blocks m addr bs" "bs \<noteq> []"
    and "unat (a_base a) + unat (a_size a) = addr + total bs" "addr + total bs < 4294967296"
    and "q < 4294967296"
  shows "\<exists>m'. free_loop a m (of_nat q) (of_nat addr) = Some m'
     \<and> blocks m' addr (spec_free addr q bs)
     \<and> (\<forall>x. x < addr \<or> addr + total bs \<le> x \<longrightarrow> x < 4294967296 \<longrightarrow>
           m' (of_nat x) = m (of_nat x))"
  using assms
proof (induction addr q bs rule: spec_free.induct)
  case (2 addr q s f bs)
  note prems = "2.prems"
  have s16: "16 \<le> s" "8 dvd s" and rest: "blocks m (addr + s) bs"
    and sz: "unat (m (of_nat addr)) = s" and fr: "(m (of_nat (addr + 4)) \<noteq> 0) = f"
    using prems(1) by auto
  have eq: "((of_nat addr :: u32) \<noteq> of_nat q) = (addr \<noteq> q)"
    using prems(4,5) by (simp add: of_nat_u32_inj)
  show ?case
  proof (cases "addr = q")
    case False
    have nx: "arena_next a m (of_nat addr) =
        (if 0 < total bs then Some (of_nat (addr + s)) else None)"
      by (rule arena_next_repr) (use prems(3,4) sz in simp_all)
    show ?thesis
    proof (cases "bs = []")
      case True
      then show ?thesis using False eq nx prems(1) by (subst free_loop.simps) auto
    next
      case ne: False
      then have "0 < total bs" using rest by (cases bs) auto
      with False eq nx have unf: "free_loop a m (of_nat q) (of_nat addr) =
          free_loop a m (of_nat q) (of_nat (addr + s))"
        by (subst free_loop.simps) simp
      from "2.IH" [OF False rest ne] prems obtain m' where
        m': "free_loop a m (of_nat q) (of_nat (addr + s)) = Some m'"
            "blocks m' (addr + s) (spec_free (addr + s) q bs)" and
        out: "\<And>x. x < addr + s \<or> addr + s + total bs \<le> x \<Longrightarrow> x < 4294967296 \<Longrightarrow>
                m' (of_nat x) = m (of_nat x)"
        by (auto simp: add.assoc)
      have "m' (of_nat addr) = m (of_nat addr)"
           "m' (of_nat (addr + 4)) = m (of_nat (addr + 4))"
        using out [of addr] out [of "addr + 4"] s16 prems(4) by simp_all
      then have "blocks m' addr (spec_free addr q ((s, f) # bs))"
        using m' prems(1) False by simp
      then show ?thesis using m' out unf by (auto simp: add.assoc)
    qed
  next
    case q: True
    show ?thesis
    proof (cases f)
      case True
      then show ?thesis using q fr prems(1)
        by (subst free_loop.simps) (simp add: blk_free_of_nat del: of_nat_add)
    next
      case False
      define m1 where "m1 = m (of_nat (addr + 4) := 1)"
      have ot: "\<And>x. x \<noteq> addr + 4 \<Longrightarrow> x < 4294967296 \<Longrightarrow> m1 (of_nat x) = m (of_nat x)"
        using prems(4) s16 unfolding m1_def by (simp add: of_nat_u32_inj del: of_nat_add)
      have unf: "free_loop a m (of_nat q) (of_nat addr) = merge_loop a m1 (of_nat addr)"
        using False q fr by (subst free_loop.simps)
          (simp add: blk_free_of_nat m1_def set_free_def del: of_nat_add, simp)
      have "blocks m1 (addr + s) bs"
        using rest by (subst blocks_frame [where m = m])
          (use prems(4) s16 in \<open>auto intro!: ot\<close>)
      then have "blocks m1 addr ((s, True) # bs)"
        using sz s16 ot [of addr] prems(4) by (simp add: m1_def del: of_nat_add)
      from merge_loop_repr [OF this, of a] prems(3,4) obtain m' where
        "merge_loop a m1 (of_nat addr) = Some m'" "blocks m' addr (spec_merge s bs)"
        "\<And>x. x \<noteq> addr \<Longrightarrow> x < 4294967296 \<Longrightarrow> m' (of_nat x) = m1 (of_nat x)"
        by auto
      then show ?thesis unfolding unf using False q ot s16 by auto
    qed
  qed
qed simp


section \<open>Facts about the abstract allocator\<close>

abbreviation big_blocks :: "block_list \<Rightarrow> bool" where
  "big_blocks bs \<equiv> (\<forall>(s, f) \<in> set bs. 16 \<le> s \<and> 8 dvd s)"

lemma blocks_big: "blocks m addr bs \<Longrightarrow> big_blocks bs"
  by (induction m addr bs rule: blocks.induct) auto

lemma payload_range:
  "big_blocks bs \<Longrightarrow> (p, c) \<in> set (payloads addr bs) \<Longrightarrow>
   addr + 8 \<le> p \<and> p + c \<le> addr + total bs \<and> 8 \<le> c"
  by (induction addr bs rule: payloads.induct) (fastforce split: if_splits)+

lemma payload_aligned:
  "big_blocks bs \<Longrightarrow> 8 dvd addr \<Longrightarrow> (p, c) \<in> set (payloads addr bs) \<Longrightarrow> 8 dvd p"
proof (induction addr bs rule: payloads.induct)
  case (2 addr s f bs)
  then show ?case by (cases f) (auto simp: dvd_add)
qed simp

lemma payloads_sorted:
  "big_blocks bs \<Longrightarrow> sorted_wrt (\<lambda>x y. fst x + snd x + 8 \<le> fst y) (payloads addr bs)"
proof (induction addr bs rule: payloads.induct)
  case (2 addr s f bs)
  then have "\<forall>y \<in> set (payloads (addr + s) bs). addr + s + 8 \<le> fst y"
    using payload_range [of bs _ _ "addr + s"] by fastforce
  with 2 show ?case by (auto simp: add.assoc)
qed simp

lemma sorted_wrt_disjoint:
  assumes "sorted_wrt (\<lambda>x y. fst x + snd x + (8::nat) \<le> fst y) xs"
    and "x \<in> set xs" "y \<in> set xs" "x \<noteq> y"
  shows "fst x + snd x \<le> fst y \<or> fst y + snd y \<le> fst x"
  using assms by (induction xs) force+

lemma payloads_fun:
  assumes "big_blocks bs" "(p, c) \<in> set (payloads addr bs)" "(p, d) \<in> set (payloads addr bs)"
  shows "c = d"
  using sorted_wrt_disjoint [OF payloads_sorted [OF assms(1)] assms(2,3)]
    payload_range [OF assms(1,2)] payload_range [OF assms(1,3)] by fastforce

lemma spec_alloc_None:
  "spec_alloc addr want bs = None \<longleftrightarrow> (\<forall>s. (s, True) \<in> set bs \<longrightarrow> s < want)"
  by (induction addr want bs rule: spec_alloc.induct) (auto simp: not_le)

lemma spec_alloc_range:
  "spec_alloc addr want bs = Some (bs', p) \<Longrightarrow> big_blocks bs \<Longrightarrow>
   addr + 8 \<le> p \<and> p \<le> addr + total bs"
  by (induction addr want bs arbitrary: bs' p rule: spec_alloc.induct)
    (fastforce split: if_splits)+

lemma spec_alloc_payloads:
  assumes "spec_alloc addr want bs = Some (bs', p)" "big_blocks bs"
  shows "\<exists>c. want - 8 \<le> c \<and> set (payloads addr bs') = insert (p, c) (set (payloads addr bs))
           \<and> (\<forall>d. (p, d) \<notin> set (payloads addr bs))"
  using assms
proof (induction addr want bs arbitrary: bs' p rule: spec_alloc.induct)
  case (2 addr want s f bs)
  show ?case
  proof (cases "f \<and> want \<le> s")
    case True
    have "(addr + 8, d) \<notin> set (payloads (addr + s) bs)" for d
      using payload_range [of bs "addr + 8" d "addr + s"] "2.prems"(2) by fastforce
    with True "2.prems" show ?thesis
      by (intro exI [of _ "if want + 16 \<le> s then want - 8 else s - 8"]) (auto split: if_splits)
  next
    case False
    then obtain bs1 where bs1: "spec_alloc (addr + s) want bs = Some (bs1, p)" "bs' = (s, f) # bs1"
      using "2.prems"(1) by (auto split: if_splits)
    from "2.IH" [OF False bs1(1)] "2.prems"(2) obtain c where c: "want - 8 \<le> c"
      "set (payloads (addr + s) bs1) = insert (p, c) (set (payloads (addr + s) bs))"
      "\<forall>d. (p, d) \<notin> set (payloads (addr + s) bs)" by auto
    have "addr + s + 8 \<le> p"
      using spec_alloc_range [OF bs1(1)] "2.prems"(2) by auto
    with c bs1(2) "2.prems"(2) show ?thesis by auto
  qed
qed simp

lemma payloads_spec_merge: "payloads addr (spec_merge s bs) = payloads (addr + s) bs"
  by (induction s bs arbitrary: addr rule: spec_merge.induct) (auto simp: add.assoc)

lemma payloads_spec_free:
  "big_blocks bs \<Longrightarrow> payloads addr (spec_free addr q bs) =
     filter (\<lambda>(p, c). p \<noteq> q + 8) (payloads addr bs)"
proof (induction addr q bs rule: spec_free.induct)
  case (2 addr q s f bs)
  have gt: "\<forall>x \<in> set (payloads (addr + s) bs). fst x \<noteq> addr + 8"
    using payload_range [of bs _ _ "addr + s"] "2.prems" by fastforce
  then have "filter (\<lambda>(p, c). p \<noteq> addr + 8) (payloads (addr + s) bs) = payloads (addr + s) bs"
    by (intro filter_True) auto
  with 2 show ?case by (auto simp: payloads_spec_merge)
qed simp

lemma free_loop_foreign:
  assumes "blocks m addr bs" "bs \<noteq> []"
    and "unat (a_base a) + unat (a_size a) = addr + total bs" "addr + total bs < 4294967296"
    and "q < 4294967296" "\<And>c. (q + 8, c) \<notin> set (payloads addr bs)"
  shows "free_loop a m (of_nat q) (of_nat addr) = Some m"
  using assms
proof (induction m addr bs rule: blocks.induct)
  case (2 m addr s f bs)
  note prems = "2.prems"
  have sz: "unat (m (of_nat addr)) = s" and fr: "blk_free m (of_nat addr) = f"
    and rest: "blocks m (addr + s) bs"
    using prems(1) by (auto simp: blk_free_of_nat simp del: of_nat_add)
  have eq: "((of_nat addr :: u32) \<noteq> of_nat q) = (addr \<noteq> q)"
    using prems(4,5) by (simp add: of_nat_u32_inj)
  have nx: "arena_next a m (of_nat addr) =
      (if 0 < total bs then Some (of_nat (addr + s)) else None)"
    by (rule arena_next_repr) (use prems(3,4) sz in simp_all)
  have "addr = q \<Longrightarrow> f" using prems(6) [of "s - 8"] by (auto split: if_splits)
  moreover have "bs \<noteq> [] \<Longrightarrow> free_loop a m (of_nat q) (of_nat (addr + s)) = Some m"
    using "2.IH" [OF rest] prems by (auto simp: add.assoc split: if_splits)
  moreover have "0 < total bs \<longleftrightarrow> bs \<noteq> []" using rest by (cases bs) auto
  ultimately show ?case using eq fr nx by (subst free_loop.simps) auto
qed simp


section \<open>The allocator interface and its implementation\<close>

text \<open>
  What the firmware's heap calls rely on.  \<open>live\<close> is the set of payloads handed out
  (address and capacity); an operation that does not return is \<open>None\<close>.
\<close>

locale allocator =
  fixes alloc :: "'h \<Rightarrow> u32 \<Rightarrow> ('h \<times> u32) option"
    and release :: "'h \<Rightarrow> u32 \<Rightarrow> 'h option"
    and live :: "'h \<Rightarrow> (nat \<times> nat) set"
    and invar :: "'h \<Rightarrow> bool"
  assumes alloc_law: "invar h \<Longrightarrow> \<exists>h' p. alloc h n = Some (h', p) \<and> invar h' \<and>
      (if p = 0 then live h' = live h
       else \<exists>c. unat n \<le> c \<and> live h' = insert (unat p, c) (live h)
              \<and> (\<forall>d. (unat p, d) \<notin> live h))"
    and release_law: "invar h \<Longrightarrow> \<exists>h'. release h p = Some h' \<and> invar h' \<and>
      live h' = {x \<in> live h. fst x \<noteq> unat p}"
    and live_disjoint: "invar h \<Longrightarrow> x \<in> live h \<Longrightarrow> y \<in> live h \<Longrightarrow> x \<noteq> y \<Longrightarrow>
      fst x + snd x \<le> fst y \<or> fst y + snd y \<le> fst x"
begin

lemma alloc_release:
  assumes "invar h" "alloc h n = Some (h', p)" "p \<noteq> 0"
  shows "\<exists>h''. release h' p = Some h'' \<and> invar h'' \<and> live h'' = live h"
proof -
  from alloc_law [OF assms(1), of n] assms(2,3) obtain c where
    h': "invar h'" "live h' = insert (unat p, c) (live h)" "\<forall>d. (unat p, d) \<notin> live h"
    by auto
  from release_law [OF h'(1), of p] h'(2,3) show ?thesis by fastforce
qed

lemma double_release:
  assumes "invar h" "release h p = Some h'"
  shows "\<exists>h''. release h' p = Some h'' \<and> live h'' = live h'"
  using release_law [OF assms(1), of p] assms(2) release_law [of h' p] by fastforce

end

datatype heap_op = Malloc u32 | Free u32

fun run_heap :: "('h \<Rightarrow> u32 \<Rightarrow> ('h \<times> u32) option) \<Rightarrow> ('h \<Rightarrow> u32 \<Rightarrow> 'h option) \<Rightarrow>
    'h \<Rightarrow> heap_op list \<Rightarrow> 'h option" where
  "run_heap alloc release h [] = Some h"
| "run_heap alloc release h (Malloc n # ops) =
     (case alloc h n of None \<Rightarrow> None | Some (h', p) \<Rightarrow> run_heap alloc release h' ops)"
| "run_heap alloc release h (Free p # ops) =
     (case release h p of None \<Rightarrow> None | Some h' \<Rightarrow> run_heap alloc release h' ops)"

context allocator begin

lemma run_returns:
  "invar h \<Longrightarrow> \<exists>h'. run_heap alloc release h ops = Some h' \<and> invar h'"
proof (induction ops arbitrary: h)
  case (Cons op ops)
  then show ?case
    using alloc_law [OF Cons.prems] release_law [OF Cons.prems]
    by (cases op) (metis (no_types, lifting) option.case prod.case run_heap.simps)+
qed simp

end


lemma blocks_unique:
  "blocks m addr bs \<Longrightarrow> blocks m addr bs' \<Longrightarrow> total bs = total bs' \<Longrightarrow> bs = bs'"
proof (induction m addr bs arbitrary: bs' rule: blocks.induct)
  case (1 m addr)
  then show ?case by (cases bs') auto
next
  case (2 m addr s f bs)
  then obtain s' f' bs2 where bs': "bs' = (s', f') # bs2" by (cases bs') auto
  then have "s' = s" "f' = f" using "2.prems"(1,2) by simp_all
  with 2 bs' show ?case by simp
qed

lemma arena_inv_unique: "arena_inv a m bs \<Longrightarrow> arena_inv a m bs' \<Longrightarrow> bs = bs'"
  unfolding arena_inv_def by (auto intro: blocks_unique)

definition round_want :: "nat \<Rightarrow> nat" where
  "round_want n = 8 * ((n + 15) div 8)"

lemma want_unat:
  assumes "unat n + 15 < 4294967296"
  shows "unat (want_of n) = round_want (unat n)"
proof -
  have "unat (n + HDR + 7) = unat n + 15"
    using assms by (simp add: unat_u32_add_small)
  then show ?thesis by (simp add: unat_and_m8 round_want_def want_of_def)
qed

lemma want_wraps:
  assumes "4294967296 \<le> unat n + 15"
  shows "want_of n < n"
proof -
  have w: "want_of n = (n + 15) AND NOT 7" by (simp add: want_of_def HDR_def add.commute)
  have "(unat n + 15) mod 4294967296 = unat n + 15 - 4294967296"
    using assms by (subst le_mod_geq) (auto intro!: mod_less less_imp_diff_less)
  then have "unat (n + 15) = unat n + 15 - 4294967296"
    by (simp add: unat_u32_add)
  then show ?thesis using assms unat_u32_less [of n] unfolding w
    by (simp add: word_less_nat_alt unat_and_m8)
qed

lemma want_bounds:
  assumes "n \<noteq> 0" "unat n + 15 < 4294967296"
  shows "16 \<le> unat (want_of n)" "8 dvd unat (want_of n)" "unat n \<le> unat (want_of n)"
proof -
  have "unat n \<noteq> 0" using assms(1) by (simp add: unat_eq_0)
  then show "16 \<le> unat (want_of n)" "8 dvd unat (want_of n)" "unat n \<le> unat (want_of n)"
    using assms(2) by (auto simp: want_unat round_want_def)
qed

lemma arena_invD:
  assumes "arena_inv a m bs"
  shows "blocks m (unat (a_base a)) bs" "bs \<noteq> []"
    "unat (a_base a) + unat (a_size a) = unat (a_base a) + total bs"
    "unat (a_base a) + total bs < 4294967296" "16 \<le> unat (a_base a)" "a_size a \<noteq> 0"
proof -
  show b: "blocks m (unat (a_base a)) bs" "bs \<noteq> []"
    "unat (a_base a) + unat (a_size a) = unat (a_base a) + total bs"
    "unat (a_base a) + total bs < 4294967296" "16 \<le> unat (a_base a)"
    using assms by (auto simp: arena_inv_def)
  have "0 < total bs" using b(1,2) by (cases bs) auto
  then show "a_size a \<noteq> 0" using b(3) by auto
qed

lemma arena_inv_step:
  "arena_inv a m bs \<Longrightarrow> blocks m' (unat (a_base a)) bs' \<Longrightarrow> total bs' = total bs \<Longrightarrow>
   arena_inv a m' bs'"
  using arena_invD(6) [of a m bs] by (cases bs') (auto simp: arena_inv_def unat_eq_0)

lemma arena_alloc_loop:
  assumes "arena_inv a m bs" "n \<noteq> 0" "unat n + 15 < 4294967296"
  shows "arena_alloc (Some a) m n = alloc_loop a m (want_of n) (of_nat (unat (a_base a)))"
  using assms arena_invD(6) [OF assms(1)] want_bounds(3) [OF assms(2,3)]
  by (simp add: arena_alloc_def Let_def not_less word_less_nat_alt)

lemma arena_alloc_fails:
  assumes "arena_inv a m bs"
    and "n = 0 \<or> 4294967296 \<le> unat n + 15 \<or>
      spec_alloc (unat (a_base a)) (round_want (unat n)) bs = None"
  shows "arena_alloc (Some a) m n = Some (m, 0)"
proof (cases "n = 0 \<or> 4294967296 \<le> unat n + 15")
  case True
  then show ?thesis using want_wraps [of n] by (auto simp: arena_alloc_def Let_def)
next
  case False
  then have f: "n \<noteq> 0" "unat n + 15 < 4294967296" by simp_all
  note d = arena_invD [OF assms(1)] and w = want_bounds [OF f]
  show ?thesis
    using alloc_loop_repr [OF d(1-5) w(1,2)] assms(2) f
    unfolding arena_alloc_loop [OF assms(1) f] want_unat [OF f(2)] by simp
qed

lemma arena_alloc_succeeds:
  assumes "arena_inv a m bs" "n \<noteq> 0" "unat n + 15 < 4294967296"
    and "spec_alloc (unat (a_base a)) (round_want (unat n)) bs = Some (bs', p)"
  shows "\<exists>m'. arena_alloc (Some a) m n = Some (m', of_nat p) \<and> arena_inv a m' bs'"
    and "unat (of_nat p :: u32) = p" "of_nat p \<noteq> (0 :: u32)"
proof -
  note d = arena_invD [OF assms(1)] and w = want_bounds [OF assms(2,3)]
  have "unat (a_base a) + 8 \<le> p \<and> p \<le> unat (a_base a) + total bs"
    using spec_alloc_range [OF assms(4) blocks_big [OF d(1)]] by simp
  then have "p < 4294967296" "0 < p" using d(4) by auto
  then show "unat (of_nat p :: u32) = p" "of_nat p \<noteq> (0 :: u32)"
    by (auto simp: unat_of_nat_u32 of_nat_u32_inj [of p 0, simplified])
  from alloc_loop_repr [OF d(1-5) w(1,2)] assms(4) obtain m' where
    "alloc_loop a m (want_of n) (of_nat (unat (a_base a))) = Some (m', of_nat p)"
    "blocks m' (unat (a_base a)) bs'"
    unfolding want_unat [OF assms(3)] by auto
  then show "\<exists>m'. arena_alloc (Some a) m n = Some (m', of_nat p) \<and> arena_inv a m' bs'"
    unfolding arena_alloc_loop [OF assms(1-3)]
    using arena_inv_step [OF assms(1)] total_spec_alloc [OF assms(4)] by blast
qed

lemma arena_free_repr:
  assumes "arena_inv a m bs"
  shows "\<exists>m' bs'. arena_free (Some a) m p = Some m' \<and> arena_inv a m' bs'
     \<and> payloads (unat (a_base a)) bs' = filter (\<lambda>(q, c). q \<noteq> unat p) (payloads (unat (a_base a)) bs)
     \<and> ((\<forall>c. (unat p, c) \<notin> set (payloads (unat (a_base a)) bs)) \<longrightarrow> m' = m)"
proof -
  let ?B = "unat (a_base a)"
  note bl = arena_invD(1,2) [OF assms] and tot = arena_invD(3) [OF assms]
    and lim = arena_invD(4) [OF assms] and B = arena_invD(5) [OF assms]
  have big: "big_blocks bs" using bl(1) by (rule blocks_big)
  have keep: "filter (\<lambda>(q, c). q \<noteq> unat p) (payloads ?B bs) = payloads ?B bs"
    if "\<And>c. (unat p, c) \<notin> set (payloads ?B bs)"
    using that by (intro filter_True) auto
  show ?thesis
  proof (cases "p = 0 \<or> p - HDR < a_base a \<or> p - HDR \<ge> a_base a + a_size a")
    case True
    have "(unat p, c) \<notin> set (payloads ?B bs)" for c
    proof
      assume "(unat p, c) \<in> set (payloads ?B bs)"
      then have "?B + 8 \<le> unat p" "unat p + c \<le> ?B + total bs" "8 \<le> c"
        using payload_range [OF big] by blast+
      then show False using True lim tot B
        by (auto simp: word_less_nat_alt word_le_nat_alt unat_u32_sub_small unat_u32_add_small)
    qed
    then show ?thesis using True assms keep
      by (intro exI [of _ m] exI [of _ bs]) (auto simp: arena_free_def Let_def)
  next
    case False
    let ?q = "unat (p - HDR)"
    have q: "?q + 8 = unat p"
    proof -
      have "?q < ?B + total bs"
        using False lim tot by (auto simp: word_less_nat_alt word_le_nat_alt unat_u32_add_small)
      moreover have "8 dvd ?B + total bs"
      proof -
        have "blocks m x ys \<Longrightarrow> 8 dvd total ys" for x ys
          by (induction m x ys rule: blocks.induct) auto
        then show ?thesis using bl(1) assms by (simp add: arena_inv_def)
      qed
      then have "?B + total bs + 8 \<le> 4294967296" using lim by presburger
      ultimately have "unat (p - HDR + HDR) = ?q + 8"
        by (subst unat_u32_add_small) auto
      then show ?thesis by simp
    qed
    have ql: "?q < 4294967296" by simp
    have unf: "arena_free (Some a) m p = free_loop a m (of_nat ?q) (of_nat ?B)"
      using False arena_invD(6) [OF assms] by (simp add: arena_free_def Let_def)
    from free_loop_repr [OF bl tot lim ql] obtain m' where
      m': "arena_free (Some a) m p = Some m'" "blocks m' ?B (spec_free ?B ?q bs)"
      unfolding unf by blast
    have "(\<forall>c. (unat p, c) \<notin> set (payloads ?B bs)) \<longrightarrow> m' = m"
      using free_loop_foreign [OF bl tot lim ql] m'(1) q unfolding unf by auto
    moreover have "arena_inv a m' (spec_free ?B ?q bs)"
      using arena_inv_step [OF assms m'(2)] by simp
    ultimately show ?thesis
      using m'(1) payloads_spec_free [OF big, of ?B ?q] unfolding q by blast
  qed
qed


section \<open>The package heap implements the allocator interface\<close>

type_synonym heap = "arena \<times> wordstore"

definition heap_alloc :: "heap \<Rightarrow> u32 \<Rightarrow> (heap \<times> u32) option" where
  "heap_alloc h n = map_option (\<lambda>(m, p). ((fst h, m), p)) (arena_alloc (Some (fst h)) (snd h) n)"

definition heap_free :: "heap \<Rightarrow> u32 \<Rightarrow> heap option" where
  "heap_free h p = map_option (\<lambda>m. (fst h, m)) (arena_free (Some (fst h)) (snd h) p)"

definition heap_inv :: "heap \<Rightarrow> bool" where
  "heap_inv h = (\<exists>bs. arena_inv (fst h) (snd h) bs)"

definition heap_live :: "heap \<Rightarrow> (nat \<times> nat) set" where
  "heap_live h =
     {x. \<exists>bs. arena_inv (fst h) (snd h) bs \<and> x \<in> set (payloads (unat (a_base (fst h))) bs)}"

lemma heap_live_eq:
  "arena_inv a m bs \<Longrightarrow> heap_live (a, m) = set (payloads (unat (a_base a)) bs)"
  by (auto simp: heap_live_def dest: arena_inv_unique)

lemma heap_alloc_law:
  assumes "heap_inv h"
  shows "\<exists>h' p. heap_alloc h n = Some (h', p) \<and> heap_inv h' \<and>
      (if p = 0 then heap_live h' = heap_live h
       else \<exists>c. unat n \<le> c \<and> heap_live h' = insert (unat p, c) (heap_live h)
              \<and> (\<forall>d. (unat p, d) \<notin> heap_live h))"
proof -
  obtain a m where h: "h = (a, m)" by (cases h)
  from assms h obtain bs where inv: "arena_inv a m bs" by (auto simp: heap_inv_def)
  let ?r = "spec_alloc (unat (a_base a)) (round_want (unat n)) bs"
  show ?thesis
  proof (cases "n = 0 \<or> 4294967296 \<le> unat n + 15 \<or> ?r = None")
    case True
    from arena_alloc_fails [OF inv True] assms show ?thesis
      by (simp add: h heap_alloc_def)
  next
    case False
    then obtain bs' p where r: "?r = Some (bs', p)" and n: "n \<noteq> 0" "unat n + 15 < 4294967296"
      by auto
    from arena_alloc_succeeds [OF inv n r] obtain m' where
      m': "arena_alloc (Some a) m n = Some (m', of_nat p)" "arena_inv a m' bs'" by blast
    from spec_alloc_payloads [OF r blocks_big [OF arena_invD(1) [OF inv]]] obtain c where
      c: "round_want (unat n) - 8 \<le> c" "set (payloads (unat (a_base a)) bs') =
        insert (p, c) (set (payloads (unat (a_base a)) bs))"
        "\<forall>d. (p, d) \<notin> set (payloads (unat (a_base a)) bs)" by blast
    have "unat n \<le> c" using c(1) by (auto simp: round_want_def)
    moreover note arena_alloc_succeeds(2,3) [OF inv n r]
    ultimately show ?thesis
      using m' c(2,3) inv
      by (auto simp: h heap_alloc_def heap_inv_def heap_live_eq)
  qed
qed

lemma heap_free_law:
  assumes "heap_inv h"
  shows "\<exists>h'. heap_free h p = Some h' \<and> heap_inv h' \<and>
      heap_live h' = {x \<in> heap_live h. fst x \<noteq> unat p}"
proof -
  obtain a m where h: "h = (a, m)" by (cases h)
  from assms h obtain bs where inv: "arena_inv a m bs" by (auto simp: heap_inv_def)
  from arena_free_repr [OF inv, of p] obtain m' bs' where
    "arena_free (Some a) m p = Some m'" "arena_inv a m' bs'"
    "payloads (unat (a_base a)) bs' =
       filter (\<lambda>(q, c). q \<noteq> unat p) (payloads (unat (a_base a)) bs)" by blast
  then show ?thesis using inv by (auto simp: h heap_free_def heap_inv_def heap_live_eq)
qed

lemma heap_live_disjoint:
  assumes "heap_inv h" "x \<in> heap_live h" "y \<in> heap_live h" "x \<noteq> y"
  shows "fst x + snd x \<le> fst y \<or> fst y + snd y \<le> fst x"
proof -
  obtain a m where h: "h = (a, m)" by (cases h)
  from assms h obtain bs where inv: "arena_inv a m bs" by (auto simp: heap_inv_def)
  show ?thesis
    using sorted_wrt_disjoint [OF payloads_sorted [OF blocks_big [OF arena_invD(1) [OF inv]]]]
      assms unfolding h heap_live_eq [OF inv] by blast
qed

interpretation pkg_heap: allocator heap_alloc heap_free heap_live heap_inv
  by unfold_locales (fact heap_alloc_law heap_free_law heap_live_disjoint)+


section \<open>Initialisation, accounting and the largest free block\<close>

lemma arena_init_inv:
  assumes "16 \<le> unat base" "8 dvd unat base" "16 \<le> unat len"
    and "unat base + unat len < 4294967296"
  shows "\<exists>a m'. arena_init base len m = (a, m') \<and> a_base a = base \<and>
     arena_inv a m' [(8 * (unat len div 8), True)]"
proof -
  define sz where "sz = len AND NOT 7"
  let ?n = "8 * (unat len div 8)" and ?m = "m(base := sz, base + 4 := 1)"
  have s: "unat sz = ?n" unfolding sz_def by (rule unat_and_not7)
  have guard: "\<not> (base = 0 \<or> len < HDR + 8)"
    using assms(1,3) by (auto simp: word_less_nat_alt HDR_def)
  have "16 \<le> ?n" "?n \<le> unat len" using assms(3) by auto
  then have "arena_inv \<lparr>a_base = base, a_size = sz\<rparr> ?m [(?n, True)]"
    using assms s by (simp add: arena_inv_def)
  moreover have "arena_init base len m = (\<lparr>a_base = base, a_size = sz\<rparr>, ?m)"
    unfolding arena_init_def Let_def sz_def [symmetric] using guard
    by (simp add: set_size_def set_free_def)
  ultimately show ?thesis by auto
qed

fun used_total :: "block_list \<Rightarrow> nat" where
  "used_total [] = 0"
| "used_total ((s, f) # bs) = (if f then 0 else s) + used_total bs"

fun max_free :: "nat \<Rightarrow> block_list \<Rightarrow> nat" where
  "max_free best [] = best"
| "max_free best ((s, f) # bs) = max_free (if f \<and> best < s then s else best) bs"

lemma used_total_le: "used_total bs \<le> total bs"
  by (induction bs rule: used_total.induct) auto

lemma max_free_ge_iff: "w \<le> max_free b bs \<longleftrightarrow> w \<le> b \<or> (\<exists>s. (s, True) \<in> set bs \<and> w \<le> s)"
proof (induction bs arbitrary: b)
  case (Cons x bs)
  obtain s f where x: "x = (s, f)" by (cases x)
  have "w \<le> max_free b (x # bs) \<longleftrightarrow>
      w \<le> (if f \<and> b < s then s else b) \<or> (\<exists>s. (s, True) \<in> set bs \<and> w \<le> s)"
    unfolding x max_free.simps by (rule Cons.IH)
  also have "\<dots> \<longleftrightarrow> w \<le> b \<or> (f \<and> w \<le> s) \<or> (\<exists>s. (s, True) \<in> set bs \<and> w \<le> s)"
    by auto
  also have "\<dots> \<longleftrightarrow> w \<le> b \<or> (\<exists>s. (s, True) \<in> set (x # bs) \<and> w \<le> s)"
    unfolding x by auto
  finally show ?case .
qed simp

lemma used_loop_repr:
  assumes "blocks m addr bs" "bs \<noteq> []"
    and "unat (a_base a) + unat (a_size a) = addr + total bs" "addr + total bs < 4294967296"
    and "unat used + total bs < 4294967296"
  shows "\<exists>r. used_loop a m used (of_nat addr) = Some r \<and> unat r = unat used + used_total bs"
  using assms
proof (induction m addr bs arbitrary: used rule: blocks.induct)
  case (2 m addr s f bs)
  note prems = "2.prems"
  have sz: "unat (m (of_nat addr)) = s" and fr: "blk_free m (of_nat addr) = f"
    and rest: "blocks m (addr + s) bs"
    using prems(1) by (auto simp: blk_free_of_nat simp del: of_nat_add)
  have nx: "arena_next a m (of_nat addr) =
      (if 0 < total bs then Some (of_nat (addr + s)) else None)"
    by (rule arena_next_repr) (use prems(3,4) sz in simp_all)
  have ne: "0 < total bs \<longleftrightarrow> bs \<noteq> []" using rest by (cases bs) auto
  define u where "u = (if f then used else used + blk_size m (of_nat addr))"
  have u: "unat u = unat used + (if f then 0 else s)"
    using prems(5) sz by (auto simp: u_def blk_size_def unat_u32_add_small)
  have unf: "used_loop a m used (of_nat addr) =
      (if bs = [] then Some u else used_loop a m u (of_nat (addr + s)))"
    using ne by (subst used_loop.simps) (simp add: nx fr u_def del: of_nat_add)
  show ?case
  proof (cases "bs = []")
    case False
    from "2.IH" [OF rest False, of u] prems u show ?thesis
      unfolding unf using False by (auto simp: add.assoc)
  qed (use unf u in simp)
qed simp

lemma largest_loop_repr:
  assumes "blocks m addr bs" "bs \<noteq> []"
    and "unat (a_base a) + unat (a_size a) = addr + total bs" "addr + total bs < 4294967296"
  shows "\<exists>r. largest_loop a m best (of_nat addr) = Some r \<and> unat r = max_free (unat best) bs"
  using assms
proof (induction m addr bs arbitrary: best rule: blocks.induct)
  case (2 m addr s f bs)
  note prems = "2.prems"
  have sz: "unat (m (of_nat addr)) = s" and fr: "blk_free m (of_nat addr) = f"
    and rest: "blocks m (addr + s) bs"
    using prems(1) by (auto simp: blk_free_of_nat simp del: of_nat_add)
  have nx: "arena_next a m (of_nat addr) =
      (if 0 < total bs then Some (of_nat (addr + s)) else None)"
    by (rule arena_next_repr) (use prems(3,4) sz in simp_all)
  have ne: "0 < total bs \<longleftrightarrow> bs \<noteq> []" using rest by (cases bs) auto
  define u where "u = (if f \<and> best < blk_size m (of_nat addr) then blk_size m (of_nat addr) else best)"
  have u: "unat u = (if f \<and> unat best < s then s else unat best)"
    using sz by (auto simp: u_def blk_size_def word_less_nat_alt)
  have unf: "largest_loop a m best (of_nat addr) =
      (if bs = [] then Some u else largest_loop a m u (of_nat (addr + s)))"
    using ne by (subst largest_loop.simps) (simp add: nx fr u_def del: of_nat_add)
  show ?case
  proof (cases "bs = []")
    case False
    from "2.IH" [OF rest False, of u] prems u show ?thesis
      unfolding unf using False by (auto simp: add.assoc)
  qed (use unf u in simp)
qed simp

lemma arena_largest_repr:
  assumes "arena_inv a m bs"
  shows "\<exists>r. arena_largest (Some a) m = Some r \<and> unat r = max_free 0 bs - 8"
proof -
  note d = arena_invD [OF assms]
  from largest_loop_repr [OF d(1-4), of 0] obtain r where
    "largest_loop a m 0 (a_base a) = Some r" "unat r = max_free 0 bs" by auto
  then show ?thesis using d(6)
    by (auto simp: arena_largest_def word_less_nat_alt unat_u32_sub_small)
qed


text \<open>A header of size zero is its own successor, and the walk stays on it.\<close>

lemma alloc_loop_zero:
  assumes "blk_size m b = 0" "b < a_base a + a_size a" "0 < want"
  shows "alloc_loop a m want b = None"
proof (rule ccontr)
  assume "alloc_loop a m want b \<noteq> None"
  then obtain r where r: "alloc_loop a m want b = Some r" by blast
  have "\<not> (blk_size m b = 0 \<and> b < a_base a + a_size a \<and> 0 < want)"
    by (rule alloc_loop.raw_induct
        [where P = "\<lambda>a m want b r. \<not> (blk_size m b = 0 \<and> b < a_base a + a_size a \<and> 0 < want)",
          OF _ r])
      (auto simp: arena_next_def Let_def split: if_splits option.splits)
  with assms show False by blast
qed

section \<open>Properties\<close>



text \<open>
  C2.  \<open>arena_largest\<close> is exact: a request succeeds precisely when it asks for at least
  one byte and at most what \<open>arena_largest\<close> reports.
\<close>

theorem arena_largest_exact:
  assumes "arena_inv a m bs"
  shows "\<exists>r m' p. arena_largest (Some a) m = Some r \<and> arena_alloc (Some a) m n = Some (m', p)
     \<and> (p \<noteq> 0 \<longleftrightarrow> n \<noteq> 0 \<and> n \<le> r)"
proof -
  let ?sp = "spec_alloc (unat (a_base a)) (round_want (unat n)) bs"
  from arena_largest_repr [OF assms] obtain r where
    r: "arena_largest (Some a) m = Some r" "unat r = max_free 0 bs - 8" by blast
  have "heap_inv (a, m)" using assms by (auto simp: heap_inv_def)
  from heap_alloc_law [OF this, of n] obtain m' p where
    al: "arena_alloc (Some a) m n = Some (m', p)"
    by (auto simp: heap_alloc_def)
  have dv: "8 dvd max_free 0 bs"
  proof -
    have "\<forall>(s, f) \<in> set ys. 8 dvd s \<Longrightarrow> 8 dvd b \<Longrightarrow> 8 dvd max_free b ys" for b ys
      by (induction b ys rule: max_free.induct) auto
    then show ?thesis using blocks_big [OF arena_invD(1) [OF assms]] by fastforce
  qed
  have fits: "?sp \<noteq> None \<longleftrightarrow> round_want (unat n) \<le> max_free 0 bs"
    unfolding spec_alloc_None max_free_ge_iff by (auto simp: round_want_def not_less)
  have rw: "round_want (unat n) \<le> max_free 0 bs \<longleftrightarrow> unat n + 8 \<le> max_free 0 bs"
    using dv by (auto simp: round_want_def elim!: dvdE)
  have lim: "max_free 0 bs \<le> total bs"
  proof -
    have "(s, f) \<in> set ys \<Longrightarrow> s \<le> total ys" for s f ys
      by (induction ys rule: total.induct) auto
    then show ?thesis using max_free_ge_iff [of "max_free 0 bs" 0 bs] by fastforce
  qed
  have "p \<noteq> 0 \<longleftrightarrow> n \<noteq> 0 \<and> n \<le> r"
  proof (cases "n = 0 \<or> 4294967296 \<le> unat n + 15 \<or> ?sp = None")
    case True
    then have "p = 0" using arena_alloc_fails [OF assms True] al by simp
    moreover have "n \<noteq> 0 \<Longrightarrow> 0 < unat n" by (simp add: unat_gt_0)
    then have "\<not> (n \<noteq> 0 \<and> n \<le> r)"
      using True fits rw r(2) lim arena_invD(4,5) [OF assms] by (auto simp: word_le_nat_alt unat_eq_0)
    ultimately show ?thesis by blast
  next
    case False
    then have "p \<noteq> 0" using arena_alloc_succeeds [OF assms, of n] al by fastforce
    moreover have "n \<le> r" using False fits rw r(2) by (auto simp: word_le_nat_alt)
    ultimately show ?thesis using False by blast
  qed
  with r al show ?thesis by blast
qed


theorem arena_largest_exact_witness:
  "\<exists>r m' p. arena_largest (Some \<lparr>a_base = 32, a_size = 64\<rparr>) ((\<lambda>_. 0)(32 := 64, 36 := 1)) = Some r
     \<and> arena_alloc (Some \<lparr>a_base = 32, a_size = 64\<rparr>) ((\<lambda>_. 0)(32 := 64, 36 := 1)) 56 = Some (m', p)
     \<and> (p \<noteq> 0 \<longleftrightarrow> (56 :: u32) \<noteq> 0 \<and> 56 \<le> r)"
proof -
  have "arena_inv \<lparr>a_base = 32, a_size = 64\<rparr> ((\<lambda>_. 0)(32 := 64, 36 := 1)) [(64, True)]"
    by (simp add: arena_inv_def)
  from arena_largest_exact [OF this, of 56] show ?thesis .
qed



text \<open>
  From \<open>arena_init\<close> on any block of RAM, every sequence of allocations and frees with
  arbitrary sizes and arbitrary pointers runs to completion and leaves pairwise disjoint
  payloads inside the arena.
\<close>

theorem arena_any_sequence:
  assumes "16 \<le> unat base" "8 dvd unat base" "16 \<le> unat len"
    and "unat base + unat len < 4294967296"
  shows "\<exists>h. run_heap heap_alloc heap_free (arena_init base len m) ops = Some h \<and> heap_inv h
     \<and> (\<forall>x \<in> heap_live h. \<forall>y \<in> heap_live h.
          x = y \<or> fst x + snd x \<le> fst y \<or> fst y + snd y \<le> fst x)"
proof -
  have "heap_inv (arena_init base len m)"
    using arena_init_inv [OF assms, of m] by (auto simp: heap_inv_def)
  from pkg_heap.run_returns [OF this, of ops] show ?thesis
    using pkg_heap.live_disjoint by blast
qed

theorem arena_any_sequence_witness:
  "\<exists>h. run_heap heap_alloc heap_free (arena_init 64 128 (\<lambda>_. 0))
         [Malloc 10, Malloc 4294967290, Free 72, Free 72, Free 3, Malloc 100] = Some h \<and> heap_inv h"
  using arena_any_sequence [of 64 128 "\<lambda>_. 0"
      "[Malloc 10, Malloc 4294967290, Free 72, Free 72, Free 3, Malloc 100]"] by auto

text \<open>
  The block headers are inside the memory the package itself may write, and the walk
  checks a successor against the end of the arena only.  A header whose size wraps the
  pointer makes \<open>arena_alloc\<close> hand out, and write to, memory below the arena; a header
  of size zero makes it never return.
\<close>

theorem arena_trusts_headers:
  "(let a = \<lparr>a_base = 0x20001000, a_size = 64\<rparr>;
        m = (\<lambda>_. 0)(0x20001000 := 0xFFFFFFF0, 0x20000FF0 := 24, 0x20000FF4 := 7)
    in arena_alloc (Some a) m 16 = Some (m(0x20000FF4 := 0), 0x20000FF8))
   \<and> arena_alloc (Some \<lparr>a_base = 0x20001000, a_size = 64\<rparr>) (\<lambda>_. 0) 16 = None"
proof
  have w: "want_of 16 = 24" by (simp add: want_of_def HDR_def)
  have wrap: "(4831842292 :: u32) = 0x20000FF4" by simp
  show "let a = \<lparr>a_base = 0x20001000, a_size = 64\<rparr>;
        m = (\<lambda>_. 0)(0x20001000 := 0xFFFFFFF0, 0x20000FF0 := 24, 0x20000FF4 := 7)
    in arena_alloc (Some a) m 16 = Some (m(0x20000FF4 := 0), 0x20000FF8)"
    by (simp add: arena_alloc_def w Let_def alloc_loop.simps blk_free_def blk_size_def
        arena_next_def take_block_def set_free_def HDR_def wrap)
  show "arena_alloc (Some \<lparr>a_base = 0x20001000, a_size = 64\<rparr>) (\<lambda>_. 0) 16 = None"
    using alloc_loop_zero [where m = "\<lambda>_. 0" and b = "0x20001000" and want = 24 and
        a = "\<lparr>a_base = 0x20001000, a_size = 64\<rparr>"]
    by (simp add: arena_alloc_def w blk_size_def blk_free_def)
qed

end
