(* ===== verification/PtrCheck.thy ===== *)
theory PtrCheck
  imports Prelude
begin

text \<open>
  The check on every pointer a package hands to the firmware,
  \<open>os/core/ptrcheck.cpp\<close>: a range test against the five regions the protection
  unit was programmed with.  Addresses are 32-bit words, so the model has the
  wrap-around the code is written to avoid; the refusal counter is the state.
\<close>

section \<open>Model\<close>

record task_app_mem =
  text_base :: u32
  text_size :: u32
  data_base :: u32
  data_size :: u32
  veneer_base :: u32
  veneer_size :: u32
  stack_base :: u32
  stack_size :: u32
  arena_base :: u32
  arena_bytes :: u32

datatype ptr_access = PTR_READ | PTR_WRITE

record span =
  sp_base :: u32
  sp_size :: u32
  sp_writable :: bool

definition ptr_refusals :: "u32 \<Rightarrow> u32" where
  "ptr_refusals g_refusals = g_refusals"

definition ptr_note_refusal :: "u32 \<Rightarrow> u32" where
  "ptr_note_refusal g_refusals = g_refusals + 1"

definition within :: "u32 \<Rightarrow> u32 \<Rightarrow> u32 \<Rightarrow> u32 \<Rightarrow> bool" where
  "within a len base sz =
     (if sz = 0 then False
      else if a < base then False
      else let off = a - base
           in if off > sz then False else len \<le> sz - off)"

definition spans_of :: "task_app_mem \<Rightarrow> span list" where
  "spans_of m =
     [\<lparr>sp_base = arena_base m, sp_size = arena_bytes m, sp_writable = True\<rparr>,
      \<lparr>sp_base = stack_base m, sp_size = stack_size m, sp_writable = True\<rparr>,
      \<lparr>sp_base = data_base m, sp_size = data_size m, sp_writable = True\<rparr>,
      \<lparr>sp_base = text_base m, sp_size = text_size m, sp_writable = False\<rparr>,
      \<lparr>sp_base = veneer_base m, sp_size = veneer_size m, sp_writable = False\<rparr>]"

fun ptr_ok_spans :: "span list \<Rightarrow> u32 \<Rightarrow> u32 \<Rightarrow> ptr_access \<Rightarrow> bool" where
  "ptr_ok_spans [] p len acc = False"
| "ptr_ok_spans (s # ss) p len acc =
     (if \<not> within p len (sp_base s) (sp_size s) then ptr_ok_spans ss p len acc
      else if acc = PTR_WRITE \<and> \<not> sp_writable s then False
      else True)"

definition ptr_ok :: "task_app_mem option \<Rightarrow> u32 \<Rightarrow> u32 \<Rightarrow> ptr_access \<Rightarrow> bool" where
  "ptr_ok mem p len acc =
     (case mem of None \<Rightarrow> True | Some m \<Rightarrow>
        if len = 0 then True
        else if p = 0 then False
        else ptr_ok_spans (spans_of m) p len acc)"

text \<open>
  \<open>scan_nul ld s k room\<close> is the loop over \<open>s[k]\<close> for at most \<open>room\<close> further bytes;
  \<open>ld\<close> is the memory it reads.
\<close>

fun scan_nul :: "(u32 \<Rightarrow> u8) \<Rightarrow> u32 \<Rightarrow> nat \<Rightarrow> nat \<Rightarrow> nat option" where
  "scan_nul ld s k 0 = None"
| "scan_nul ld s k (Suc room) =
     (if ld (s + of_nat k) = 0 then Some k else scan_nul ld s (Suc k) room)"

fun ptr_str_spans :: "(u32 \<Rightarrow> u8) \<Rightarrow> span list \<Rightarrow> u32 \<Rightarrow> nat option" where
  "ptr_str_spans ld [] s = None"
| "ptr_str_spans ld (x # xs) s =
     (if sp_size x = 0 then ptr_str_spans ld xs s
      else if s < sp_base x then ptr_str_spans ld xs s
      else let off = s - sp_base x
           in if off \<ge> sp_size x then ptr_str_spans ld xs s
              else scan_nul ld s 0 (unat (sp_size x - off)))"

text \<open>The answer and what \<open>len_out\<close> holds afterwards.\<close>

definition ptr_str_ok :: "(u32 \<Rightarrow> u8) \<Rightarrow> task_app_mem option \<Rightarrow> u32 \<Rightarrow> bool \<times> nat" where
  "ptr_str_ok ld mem s =
     (case mem of None \<Rightarrow> (s \<noteq> 0, 0) | Some m \<Rightarrow>
        if s = 0 then (False, 0)
        else (case ptr_str_spans ld (spans_of m) s of
                None \<Rightarrow> (False, 0) | Some k \<Rightarrow> (True, k)))"

section \<open>Range arithmetic without wrap-around\<close>

text \<open>The addresses a span covers, as numbers.\<close>

definition covers :: "span \<Rightarrow> nat \<Rightarrow> nat \<Rightarrow> bool" where
  "covers s lo n \<longleftrightarrow> 0 < unat (sp_size s) \<and> unat (sp_base s) \<le> lo
     \<and> lo + n \<le> unat (sp_base s) + unat (sp_size s)"

lemma within_iff:
  "within a len (sp_base s) (sp_size s) \<longleftrightarrow> covers s (unat a) (unat len)"
proof (cases "a < sp_base s \<or> sp_size s = 0")
  case True
  then show ?thesis by (auto simp: within_def covers_def word_less_nat_alt)
next
  case False
  then have le: "unat (sp_base s) \<le> unat a" and pos: "0 < unat (sp_size s)"
    by (auto simp: word_less_nat_alt unat_gt_0)
  then have off: "unat (a - sp_base s) = unat a - unat (sp_base s)"
    by (simp add: unat_u32_sub_small)
  show ?thesis
    using False le pos off
    by (auto simp: within_def covers_def Let_def word_less_nat_alt word_le_nat_alt
        unat_u32_sub_small)
qed

lemma ptr_ok_spans_read:
  "ptr_ok_spans ss p len PTR_READ \<longleftrightarrow> (\<exists>s \<in> set ss. covers s (unat p) (unat len))"
  by (induction ss) (auto simp: within_iff)

lemma ptr_ok_spans_write:
  "ptr_ok_spans ss p len PTR_WRITE \<Longrightarrow>
   \<exists>s \<in> set ss. sp_writable s \<and> covers s (unat p) (unat len)"
  by (induction ss) (auto simp: within_iff split: if_splits)

definition spans_disjoint :: "span list \<Rightarrow> bool" where
  "spans_disjoint ss \<longleftrightarrow> sorted_wrt (\<lambda>s t.
     unat (sp_base s) + unat (sp_size s) \<le> unat (sp_base t)
     \<or> unat (sp_base t) + unat (sp_size t) \<le> unat (sp_base s)) ss"

lemma ptr_ok_spans_write_complete:
  assumes "spans_disjoint ss" "0 < unat len" "s \<in> set ss" "sp_writable s"
    and "covers s (unat p) (unat len)"
  shows "ptr_ok_spans ss p len PTR_WRITE"
  using assms
proof (induction ss)
  case (Cons t ss)
  show ?case
  proof (cases "s = t")
    case False
    with Cons.prems have "s \<in> set ss" by simp
    moreover from this Cons.prems have "\<not> covers t (unat p) (unat len)"
      by (auto simp: spans_disjoint_def covers_def)
    ultimately show ?thesis using Cons by (auto simp: within_iff spans_disjoint_def)
  qed (use Cons.prems in \<open>simp add: within_iff\<close>)
qed simp

section \<open>String scanning\<close>

lemma scan_nul_Some:
  "scan_nul ld s k room = Some j \<Longrightarrow> k \<le> j \<and> j < k + room \<and> ld (s + of_nat j) = 0
     \<and> (\<forall>i. k \<le> i \<longrightarrow> i < j \<longrightarrow> ld (s + of_nat i) \<noteq> 0)"
proof (induction ld s k room rule: scan_nul.induct)
  case (2 ld s k room)
  then show ?case by (cases "ld (s + of_nat k) = 0") (auto, metis Suc_leI le_neq_implies_less)
qed simp

lemma scan_nul_None:
  "scan_nul ld s k room = None \<Longrightarrow> k \<le> i \<Longrightarrow> i < k + room \<Longrightarrow> ld (s + of_nat i) \<noteq> 0"
proof (induction ld s k room rule: scan_nul.induct)
  case (2 ld s k room)
  then show ?case by (cases "i = k") (auto split: if_splits)
qed simp

lemma ptr_str_spans_iff:
  assumes "spans_disjoint ss"
  shows "ptr_str_spans ld ss s = Some k \<longleftrightarrow>
     (\<exists>x \<in> set ss. covers x (unat s) (Suc k) \<and> ld (s + of_nat k) = 0
        \<and> (\<forall>i < k. ld (s + of_nat i) \<noteq> 0))"
  using assms
proof (induction ss)
  case (Cons x xs)
  have other: "covers x (unat s) 1 \<Longrightarrow> y \<in> set xs \<Longrightarrow> \<not> covers y (unat s) (Suc j)" for y j
    using Cons.prems by (auto simp: spans_disjoint_def covers_def)
  have tl: "spans_disjoint xs" using Cons.prems by (simp add: spans_disjoint_def)
  show ?case
  proof (cases "covers x (unat s) 1")
    case False
    then have "ptr_str_spans ld (x # xs) s = ptr_str_spans ld xs s"
      by (auto simp: covers_def Let_def word_less_nat_alt word_le_nat_alt unat_u32_sub_small
          unat_gt_0 not_less)
    moreover have "\<not> covers x (unat s) (Suc k)" using False by (auto simp: covers_def)
    ultimately show ?thesis using Cons.IH [OF tl] by simp
  next
    case True
    define room where "room = unat (sp_size x - (s - sp_base x))"
    have room: "unat s + room = unat (sp_base x) + unat (sp_size x)"
      using True unfolding room_def
      by (auto simp: covers_def unat_u32_sub_small)
    have "ptr_str_spans ld (x # xs) s = scan_nul ld s 0 room"
      using True unfolding room_def
      by (auto simp: covers_def Let_def word_less_nat_alt word_le_nat_alt unat_u32_sub_small)
    moreover have "covers x (unat s) (Suc j) \<longleftrightarrow> j < room" for j
      using True room by (auto simp: covers_def)
    ultimately show ?thesis
      using other [OF True] scan_nul_Some [of ld s 0 room] scan_nul_None [of ld s 0 room]
      by (cases "scan_nul ld s 0 room") (auto, (metis linorder_neqE_nat)+)
  qed
qed simp


section \<open>Properties\<close>

text \<open>A package laid out as the loader and the sandbox lay one out.\<close>

definition sample_mem :: task_app_mem where
  "sample_mem = \<lparr>text_base = 0x20010000, text_size = 0x1000, data_base = 0x20011000,
     data_size = 0x400, veneer_base = 0x20011400, veneer_size = 0x40,
     stack_base = 0x20020000, stack_size = 0x2000, arena_base = 0x20030000, arena_bytes = 0x4000\<rparr>"

lemma sample_mem_disjoint: "spans_disjoint (spans_of sample_mem)"
  by (simp add: spans_disjoint_def spans_of_def sample_mem_def)

text \<open>
  C4.  For a package whose regions do not overlap, \<open>ptr_ok\<close> grants a non-empty access
  exactly when the pointer is not null and the whole range, computed without wrap-around,
  lies inside one region, which must be writable when the firmware is going to write: a
  length chosen to wrap the address space is always refused.
\<close>

theorem ptr_ok_exact:
  assumes "spans_disjoint (spans_of m)" "len \<noteq> 0"
  shows "ptr_ok (Some m) p len acc \<longleftrightarrow> p \<noteq> 0 \<and>
     (\<exists>s \<in> set (spans_of m). (acc = PTR_WRITE \<longrightarrow> sp_writable s) \<and> covers s (unat p) (unat len))"
proof -
  have "0 < unat len" using assms(2) by (simp add: unat_gt_0)
  then have "ptr_ok_spans (spans_of m) p len acc \<longleftrightarrow>
      (\<exists>s \<in> set (spans_of m). (acc = PTR_WRITE \<longrightarrow> sp_writable s) \<and> covers s (unat p) (unat len))"
    using ptr_ok_spans_read ptr_ok_spans_write ptr_ok_spans_write_complete [OF assms(1)]
    by (cases acc) blast+
  then show ?thesis using assms(2) by (simp add: ptr_ok_def)
qed

theorem ptr_ok_exact_witness:
  "ptr_ok (Some sample_mem) 0x20033FF0 16 PTR_WRITE
   \<and> \<not> ptr_ok (Some sample_mem) 0x20033FF0 17 PTR_WRITE
   \<and> \<not> ptr_ok (Some sample_mem) 0x20010000 4 PTR_WRITE
   \<and> \<not> ptr_ok (Some sample_mem) 0x20030000 0xFFFFFFFF PTR_READ"
  using ptr_ok_exact [OF sample_mem_disjoint, of 16 "0x20033FF0" PTR_WRITE]
    ptr_ok_exact [OF sample_mem_disjoint, of 17 "0x20033FF0" PTR_WRITE]
    ptr_ok_exact [OF sample_mem_disjoint, of 4 "0x20010000" PTR_WRITE]
    ptr_ok_exact [OF sample_mem_disjoint, of "0xFFFFFFFF" "0x20030000" PTR_READ]
  by (simp add: spans_of_def sample_mem_def covers_def)

text \<open>
  C5.  \<open>ptr_str_ok\<close> accepts a string exactly when some region holds it up to and including
  its terminator, reports its length, and reads no byte outside that region: a string
  whose terminator does not arrive before the end of the region is refused.
\<close>

theorem ptr_str_ok_exact:
  assumes "spans_disjoint (spans_of m)"
  shows "ptr_str_ok ld (Some m) s = (True, k) \<longleftrightarrow> s \<noteq> 0 \<and>
     (\<exists>x \<in> set (spans_of m). covers x (unat s) (Suc k) \<and> ld (s + of_nat k) = 0
        \<and> (\<forall>i < k. ld (s + of_nat i) \<noteq> 0))"
  using ptr_str_spans_iff [OF assms, of ld s k]
  by (auto simp: ptr_str_ok_def split: option.splits if_splits)

theorem ptr_str_ok_exact_witness:
  "ptr_str_ok (\<lambda>x. if x = 0x20011002 then 0 else 65) (Some sample_mem) 0x20011000 = (True, 2)"
proof -
  let ?ld = "\<lambda>x :: u32. if x = 0x20011002 then 0 else (65 :: u8)"
  let ?x = "\<lparr>sp_base = 0x20011000, sp_size = 0x400, sp_writable = True\<rparr>"
  have "?x \<in> set (spans_of sample_mem)" by (simp add: spans_of_def sample_mem_def)
  moreover have "covers ?x (unat (0x20011000 :: u32)) (Suc 2)" by (simp add: covers_def)
  moreover have "?ld (0x20011000 + of_nat 2) = 0" by simp
  moreover have "\<forall>i < 2. ?ld (0x20011000 + of_nat i) \<noteq> 0"
    by (auto dest!: less_2_cases)
  ultimately show ?thesis
    using ptr_str_ok_exact [OF sample_mem_disjoint, of ?ld "0x20011000" 2] by auto
qed

end
