(* ===== verification/CLib.thy ===== *)
theory CLib
  imports Prelude "HOL-Library.Sublist" "HOL-Library.Char_ord"
begin

text \<open>
  The parts of the C library the core calls on text: NUL-terminated strings, \<open>strchr\<close>,
  \<open>snprintf\<close> into a bounded buffer, \<open>strtol\<close>, and the loop with which every loader of
  the core reads a text file line by line into a fixed line buffer.  A string without
  its terminator is a \<open>string\<close>; bytes are characters.
\<close>

section \<open>Strings\<close>

abbreviation NL :: char where "NL \<equiv> CHR 0x0A"
abbreviation CR :: char where "CR \<equiv> CHR 0x0D"
abbreviation NUL :: char where "NUL \<equiv> CHR 0x00"

definition cstr :: "string \<Rightarrow> string" where
  "cstr s = takeWhile (\<lambda>c. c \<noteq> NUL) s"

text \<open>What \<open>snprintf\<close> leaves in a buffer of \<open>cap > 0\<close> bytes.\<close>

definition snprintf :: "nat \<Rightarrow> string \<Rightarrow> string" where
  "snprintf cap s = take (cap - 1) s"

text \<open>\<open>strchr\<close> followed by cutting the string there: what is before and after the character.\<close>

definition strchr_split :: "char \<Rightarrow> string \<Rightarrow> (string \<times> string) option" where
  "strchr_split c s =
     (case dropWhile (\<lambda>x. x \<noteq> c) s of
        [] \<Rightarrow> None
      | _ # r \<Rightarrow> Some (takeWhile (\<lambda>x. x \<noteq> c) s, r))"

lemma takeWhile_upto: "c \<notin> set xs \<Longrightarrow> takeWhile (\<lambda>x. x \<noteq> c) (xs @ c # ys) = xs"
  by (induction xs) auto

lemma dropWhile_upto: "c \<notin> set xs \<Longrightarrow> dropWhile (\<lambda>x. x \<noteq> c) (xs @ c # ys) = c # ys"
  by (induction xs) auto

lemma strchr_split_append:
  "c \<notin> set xs \<Longrightarrow> strchr_split c (xs @ c # ys) = Some (xs, ys)"
  by (simp add: strchr_split_def takeWhile_upto dropWhile_upto)

lemma strchr_split_None: "strchr_split c s = None \<longleftrightarrow> c \<notin> set s"
proof -
  have "dropWhile (\<lambda>x. x \<noteq> c) s = [] \<longleftrightarrow> c \<notin> set s" by (induction s) auto
  then show ?thesis by (cases "dropWhile (\<lambda>x. x \<noteq> c) s") (simp_all add: strchr_split_def del: dropWhile_eq_Nil_conv)
qed

lemma strchr_split_SomeD:
  assumes "strchr_split c s = Some (xs, ys)"
  shows "s = xs @ c # ys \<and> c \<notin> set xs"
proof -
  from assms obtain d where d: "dropWhile (\<lambda>x. x \<noteq> c) s = d # ys"
    and xs: "xs = takeWhile (\<lambda>x. x \<noteq> c) s"
    by (auto simp: strchr_split_def split: list.splits)
  have "d = c" using hd_dropWhile [of "\<lambda>x. x \<noteq> c" s] d by simp
  then show ?thesis using d xs takeWhile_dropWhile_id [of "\<lambda>x. x \<noteq> c" s]
    by (auto dest: set_takeWhileD)
qed

lemma cstr_id: "NUL \<notin> set s \<Longrightarrow> cstr s = s"
  by (auto simp: cstr_def takeWhile_eq_all_conv)

lemma NUL_cstr [simp]: "NUL \<notin> set (cstr s)"
  by (auto simp: cstr_def dest: set_takeWhileD)

section \<open>Numbers\<close>

definition is_digit :: "char \<Rightarrow> bool" where
  "is_digit c \<longleftrightarrow> CHR ''0'' \<le> c \<and> c \<le> CHR ''9''"

definition digit_val :: "char \<Rightarrow> nat" where
  "digit_val c = of_char c - of_char CHR ''0''"

definition is_space :: "char \<Rightarrow> bool" where
  "is_space c \<longleftrightarrow> c = CHR '' '' \<or> (CHR 0x09 \<le> c \<and> c \<le> CHR 0x0D)"

definition dec_value :: "string \<Rightarrow> nat" where
  "dec_value ds = foldl (\<lambda>v d. v * 10 + digit_val d) 0 ds"

text \<open>
  \<open>strtol (v, &end, 10)\<close> on a 32-bit \<open>long\<close>: optional white space and sign, then
  digits, saturating at the limits.  \<open>None\<close> when no digit was consumed (\<open>end == v\<close>).
\<close>

definition strtol10 :: "string \<Rightarrow> int option" where
  "strtol10 s =
     (let s1 = dropWhile is_space s;
          neg = (s1 \<noteq> [] \<and> hd s1 = CHR ''-'');
          s2 = (if s1 \<noteq> [] \<and> (hd s1 = CHR ''-'' \<or> hd s1 = CHR ''+'') then tl s1 else s1);
          ds = takeWhile is_digit s2;
          v = (if neg then - int (dec_value ds) else int (dec_value ds))
      in if ds = [] then None else Some (max (-2147483648) (min 2147483647 v)))"

text \<open>
  \<open>strtoll (v, &end, base)\<close> for bases up to 16: white space, sign, for base 16 an optional
  \<open>0x\<close> when a digit follows it, then digits, saturating at the 64-bit limits.
\<close>

definition digit_of :: "char \<Rightarrow> nat" where
  "digit_of c =
     (if is_digit c then digit_val c
      else if CHR ''a'' \<le> c \<and> c \<le> CHR ''z'' then of_char c - of_char CHR ''a'' + 10
      else if CHR ''A'' \<le> c \<and> c \<le> CHR ''Z'' then of_char c - of_char CHR ''A'' + 10
      else 36)"

definition base_value :: "nat \<Rightarrow> string \<Rightarrow> nat" where
  "base_value b ds = foldl (\<lambda>v d. v * b + digit_of d) 0 ds"

definition skip_0x :: "nat \<Rightarrow> string \<Rightarrow> string" where
  "skip_0x b s =
     (case s of c0 # cx # cd # _ \<Rightarrow>
        if b = 16 \<and> c0 = CHR ''0'' \<and> (cx = CHR ''x'' \<or> cx = CHR ''X'') \<and> digit_of cd < 16
        then drop 2 s else s
      | _ \<Rightarrow> s)"

definition strtoll :: "nat \<Rightarrow> string \<Rightarrow> int option" where
  "strtoll b s =
     (let s1 = dropWhile is_space s;
          neg = (s1 \<noteq> [] \<and> hd s1 = CHR ''-'');
          s2 = (if s1 \<noteq> [] \<and> (hd s1 = CHR ''-'' \<or> hd s1 = CHR ''+'') then tl s1 else s1);
          ds = takeWhile (\<lambda>c. digit_of c < b) (skip_0x b s2);
          v = (if neg then - int (base_value b ds) else int (base_value b ds))
      in if ds = [] then None else Some (max (- (2 ^ 63)) (min (2 ^ 63 - 1) v)))"

text \<open>Numbers as text in a base up to sixteen.\<close>

definition hex_char :: "nat \<Rightarrow> char" where
  "hex_char d = (if d < 10 then char_of (48 + d) else char_of (87 + d))"

fun to_base :: "nat \<Rightarrow> nat \<Rightarrow> string" where
  "to_base b n =
     (if b < 2 \<or> n < b then [hex_char n] else to_base b (n div b) @ [hex_char (n mod b)])"

declare to_base.simps [simp del]

abbreviation to_hex :: "nat \<Rightarrow> string" where "to_hex \<equiv> to_base 16"
abbreviation to_dec :: "nat \<Rightarrow> string" where "to_dec \<equiv> to_base 10"

lemma hex_char_table:
  "\<forall>d \<in> set [0..<16]. digit_of (hex_char d) = d \<and> \<not> is_space (hex_char d)
     \<and> hex_char d \<notin> set [CHR ''-'', CHR ''+'', CHR ''x'', CHR ''X'', NUL, NL, CR]"
  by code_simp

lemma hex_char_props:
  assumes "d < 16"
  shows "digit_of (hex_char d) = d" "\<not> is_space (hex_char d)"
    "hex_char d \<notin> {CHR ''-'', CHR ''+'', CHR ''x'', CHR ''X'', NUL, NL, CR}"
  using hex_char_table assms by simp_all

lemma to_base_chars:
  assumes "c \<in> set (to_base b n)" "2 \<le> b"
  shows "\<exists>d < b. c = hex_char d"
  using assms
proof (induction b n rule: to_base.induct)
  case (1 b n)
  show ?case
  proof (cases "n < b")
    case True
    then show ?thesis using 1 by (auto simp: to_base.simps [of b n])
  next
    case False
    then have "c \<in> set (to_base b (n div b)) \<or> c = hex_char (n mod b)"
      using 1 by (auto simp: to_base.simps [of b n])
    moreover have "n mod b < b" using 1 by simp
    ultimately show ?thesis using False 1 by (metis not_less)
  qed
qed

lemma to_base_value: "2 \<le> b \<Longrightarrow> b \<le> 16 \<Longrightarrow> base_value b (to_base b n) = n"
proof (induction b n rule: to_base.induct)
  case (1 b n)
  show ?case
  proof (cases "n < b")
    case True
    then show ?thesis using 1 by (simp add: to_base.simps [of b n] base_value_def hex_char_props)
  next
    case False
    have "base_value b (xs @ [y]) = base_value b xs * b + digit_of y" for xs y
      by (simp add: base_value_def)
    moreover have "n mod b < 16" using 1 mod_less_divisor [of b n] by linarith
    ultimately show ?thesis using 1 False
      by (simp add: to_base.simps [of b n] hex_char_props)
  qed
qed

lemma to_base_length: "2 \<le> b \<Longrightarrow> n < b ^ Suc k \<Longrightarrow> length (to_base b n) \<le> Suc k"
proof (induction k arbitrary: n)
  case (Suc k)
  show ?case
  proof (cases "n < b")
    case False
    have "n div b < b ^ Suc k" using Suc.prems by (simp add: less_mult_imp_div_less mult.commute)
    with Suc False show ?thesis by (subst to_base.simps) simp
  qed (simp add: to_base.simps)
qed (simp add: to_base.simps)

lemma to_base_not_Nil: "to_base b n \<noteq> []"
  by (subst to_base.simps) simp

lemma to_base_plain:
  assumes "2 \<le> b" "b \<le> 16" "c \<in> set (to_base b n)"
  shows "digit_of c < b" "\<not> is_space c"
    "c \<notin> {CHR ''-'', CHR ''+'', CHR ''x'', CHR ''X'', NUL, NL, CR}"
proof -
  from to_base_chars [OF assms(3,1)] obtain d where d: "d < b" "c = hex_char d" by blast
  then have "d < 16" using assms(2) by simp
  from hex_char_props [OF this] d show "digit_of c < b" "\<not> is_space c"
    "c \<notin> {CHR ''-'', CHR ''+'', CHR ''x'', CHR ''X'', NUL, NL, CR}" by simp_all
qed

lemma strtoll_to_base:
  assumes "2 \<le> b" "b \<le> 16" "n < 2 ^ 63"
  shows "strtoll b (to_base b n) = Some (int n)"
proof -
  note chars = to_base_plain [OF assms(1,2)]
  obtain h t where ht: "to_base b n = h # t" using to_base_not_Nil by (cases "to_base b n") auto
  have dw: "dropWhile is_space (to_base b n) = to_base b n"
    using chars(2) [of h n] ht by simp
  have h: "h \<noteq> CHR ''-''" "h \<noteq> CHR ''+''" using chars(3) [of h n] ht by auto
  have "CHR ''x'' \<notin> set (to_base b n)" "CHR ''X'' \<notin> set (to_base b n)"
    using chars(3) [of "CHR ''x''" n] chars(3) [of "CHR ''X''" n] by auto
  then have "skip_0x b (to_base b n) = to_base b n"
    by (auto simp: skip_0x_def split: list.splits)
  moreover have tw: "takeWhile (\<lambda>c. digit_of c < b) (to_base b n) = to_base b n"
    using chars(1) by (auto simp: takeWhile_eq_all_conv)
  moreover have "hd (to_base b n) = h" by (simp add: ht)
  ultimately show ?thesis using dw h assms(3) to_base_not_Nil [of b n]
    by (simp add: strtoll_def Let_def to_base_value [OF assms(1,2)] tw)
qed

lemma cstr_to_base: "2 \<le> b \<Longrightarrow> b \<le> 16 \<Longrightarrow> cstr (to_base b n) = to_base b n"
  using to_base_plain(3) [of b NUL n] by (intro cstr_id) auto

lemma to_base_line:
  "2 \<le> b \<Longrightarrow> b \<le> 16 \<Longrightarrow> NL \<notin> set (to_base b n) \<and> CR \<notin> set (to_base b n)"
  using to_base_plain(3) [of b NL n] to_base_plain(3) [of b CR n] by auto

section \<open>Reading a file line by line\<close>

text \<open>
  The loaders copy a line into a buffer with room for \<open>cap\<close> characters, drop the rest of
  an over-long line, step past the newline and stop when the text ends or their own loop
  condition \<open>cont\<close> fails.
\<close>

definition line_of :: "nat \<Rightarrow> string \<Rightarrow> string" where
  "line_of cap text = cstr (take cap (takeWhile (\<lambda>c. c \<noteq> NL) text))"

definition after_line :: "string \<Rightarrow> string" where
  "after_line text = drop (Suc (length (takeWhile (\<lambda>c. c \<noteq> NL) text))) text"

function line_loop ::
  "nat \<Rightarrow> ('s \<Rightarrow> bool) \<Rightarrow> (string \<Rightarrow> 's \<Rightarrow> 's) \<Rightarrow> string \<Rightarrow> 's \<Rightarrow> 's" where
  "line_loop cap cont body text s =
     (if text = [] \<or> \<not> cont s then s
      else line_loop cap cont body (after_line text) (body (line_of cap text) s))"
  by pat_completeness auto
termination
  by (relation "measure (\<lambda>(cap, cont, body, text, s). length text)") (auto simp: after_line_def)

declare line_loop.simps [simp del]

lemma line_loop_Nil [simp]: "line_loop cap cont body [] s = s"
  by (simp add: line_loop.simps)

text \<open>A line a loader reads back as it was written.\<close>

definition plain_line :: "nat \<Rightarrow> string \<Rightarrow> bool" where
  "plain_line cap l \<longleftrightarrow> NL \<notin> set l \<and> NUL \<notin> set l \<and> length l \<le> cap"

lemma line_loop_line:
  assumes "plain_line cap l"
  shows "line_loop cap cont body (l @ NL # rest) s =
     (if cont s then line_loop cap cont body rest (body l s) else s)"
proof -
  have tw: "takeWhile (\<lambda>c. c \<noteq> NL) (l @ NL # rest) = l"
    using assms by (simp add: plain_line_def takeWhile_upto)
  have "line_of cap (l @ NL # rest) = l"
    unfolding line_of_def tw using assms by (simp add: plain_line_def cstr_id)
  moreover have "after_line (l @ NL # rest) = rest"
    unfolding after_line_def tw by simp
  ultimately show ?thesis
    by (subst line_loop.simps) simp
qed

lemma line_loop_inv:
  "P s \<Longrightarrow> (\<And>l s. P s \<Longrightarrow> P (body l s)) \<Longrightarrow> P (line_loop cap cont body inp s)"
proof (induction cap cont body inp s rule: line_loop.induct)
  case (1 cap cont body inp s)
  have "P (body (line_of cap inp) s)" using "1.prems" by blast
  with 1 show ?case by (subst line_loop.simps) simp
qed

lemma line_loop_hom:
  assumes "\<And>l s. h (body l s) = body' l (h s)" "\<And>s. cont s = cont' (h s)"
  shows "h (line_loop cap cont body inp s) = line_loop cap cont' body' inp (h s)"
proof (induction "length inp" arbitrary: inp s rule: less_induct)
  case less
  have "length (after_line inp) < length inp" if "inp \<noteq> []" using that by (simp add: after_line_def)
  with less show ?case
    by (subst (1 2) line_loop.simps) (simp add: assms)
qed

definition unlines_nl :: "string list \<Rightarrow> string" where
  "unlines_nl ls = concat (map (\<lambda>l. l @ [NL]) ls)"

lemma line_loop_unlines:
  assumes "\<forall>l \<in> set ls. plain_line cap l"
    and "\<And>s l. P s \<Longrightarrow> cont s"
    and "\<And>k. k < length ls \<Longrightarrow> P (fold body (take k ls) s)"
  shows "line_loop cap cont body (unlines_nl ls) s = fold body ls s"
  using assms(1,3)
proof (induction ls arbitrary: s)
  case (Cons l ls)
  have P: "P (fold body (take k ls) (body l s))" if "k < length ls" for k
    using Cons.prems(2) [of "Suc k"] that by simp
  have "cont s" using Cons.prems(2) [of 0] assms(2) by simp
  with Cons P show ?case by (simp add: unlines_nl_def line_loop_line)
qed (simp add: unlines_nl_def)

section \<open>A table written into a caller's buffer\<close>

text \<open>
  The serializers call \<open>snprintf (buf + need, cap - need, ...)\<close> for one record at a time,
  only when it fits, and always add its length to what they return.
\<close>

definition write_at :: "nat \<Rightarrow> string \<Rightarrow> string \<Rightarrow> string" where
  "write_at off s buf = take off buf @ s @ drop (off + length s) buf"

fun ser_loop :: "nat \<Rightarrow> string list \<Rightarrow> string \<Rightarrow> nat \<Rightarrow> string \<times> nat" where
  "ser_loop cap [] buf need = (buf, need)"
| "ser_loop cap (r # rs) buf need =
     ser_loop cap rs
       (if need + length r < cap then write_at need (r @ [NUL]) buf else buf)
       (need + length r)"

definition serialize_into :: "nat \<Rightarrow> string list \<Rightarrow> string \<Rightarrow> string \<times> nat" where
  "serialize_into cap rs buf =
     (let (b, need) = ser_loop cap rs buf 0
      in (if 0 < cap then b[(if need < cap then need else cap - 1) := NUL] else b, need))"

lemma ser_loop_need: "snd (ser_loop cap rs buf need) = need + length (concat rs)"
  by (induction cap rs buf need rule: ser_loop.induct) simp_all

lemma ser_loop_fits:
  assumes "need + length (concat rs) < cap" "length buf = cap"
  shows "length (fst (ser_loop cap rs buf need)) = cap \<and>
     take (need + length (concat rs)) (fst (ser_loop cap rs buf need)) = take need buf @ concat rs"
  using assms
proof (induction rs arbitrary: buf need)
  case (Cons r rs)
  let ?b = "write_at need (r @ [NUL]) buf"
  have len: "length ?b = cap" using Cons.prems by (simp add: write_at_def)
  have "take (need + length r) ?b = take need buf @ r"
    using Cons.prems by (simp add: write_at_def)
  with Cons.IH [of "need + length r" ?b] Cons.prems len show ?case by (simp add: add.assoc)
qed simp

lemma serialize_into_eq:
  assumes "length (concat rs) < cap" "length buf = cap"
  shows "\<exists>rest. serialize_into cap rs buf = (concat rs @ NUL # rest, length (concat rs))"
proof -
  obtain b n where bn: "ser_loop cap rs buf 0 = (b, n)" by fastforce
  then have n: "n = length (concat rs)" using ser_loop_need [of cap rs buf 0] by simp
  from ser_loop_fits [of 0 rs cap buf] assms bn n have
    b: "length b = cap" "take n b = concat rs" by simp_all
  then have "b[n := NUL] = concat rs @ NUL # drop (Suc n) b"
    using assms(1) n by (simp add: upd_conv_take_nth_drop)
  moreover have "serialize_into cap rs buf = (b[n := NUL], n)"
    using bn n assms(1) by (simp add: serialize_into_def)
  ultimately show ?thesis using n by auto
qed

lemma serialize_need: "snd (serialize_into cap rs buf) = length (concat rs)"
  by (simp add: serialize_into_def split_beta ser_loop_need)

lemma serialize_take:
  assumes "length (concat rs) < cap" "length buf = cap"
  shows "take (length (concat rs)) (fst (serialize_into cap rs buf)) = concat rs"
  using serialize_into_eq [OF assms] by (auto simp del: length_concat)

text \<open>With room for the terminator the buffer holds exactly the records, as one C string.\<close>

lemma serialize_fits:
  assumes "length (concat rs) < cap" "length buf = cap" "NUL \<notin> set (concat rs)"
  shows "cstr (fst (serialize_into cap rs buf)) = concat rs"
    and "snd (serialize_into cap rs buf) = length (concat rs)"
proof -
  from serialize_into_eq [OF assms(1,2)] obtain rest where
    "serialize_into cap rs buf = (concat rs @ NUL # rest, length (concat rs))" by blast
  moreover have "cstr (concat rs @ NUL # rest) = concat rs"
    using assms(3) unfolding cstr_def by (subst takeWhile_append2) auto
  ultimately show "cstr (fst (serialize_into cap rs buf)) = concat rs"
    and "snd (serialize_into cap rs buf) = length (concat rs)" by simp_all
qed

end
