(* ===== verification/Registry.thy ===== *)
theory Registry
  imports CLib
begin

text \<open>
  \<open>os/core/registry.cpp\<close>: the flat key=value store, with its device table and the
  signed-in user's table, the loaders and the serializers.  The state record holds the
  file's static variables; a table is the list of its first \<open>g_count\<close> entries.  Every
  operation of the source that changes a table runs under \<open>g_reg_lock\<close>, so an
  operation is one step of the model.
\<close>

section \<open>Model\<close>

type_synonym entry = "string \<times> string"

definition REG_MAX :: nat where "REG_MAX = 64"
definition REG_KEY_MAX :: nat where "REG_KEY_MAX = 40"
definition REG_VAL_MAX :: nat where "REG_VAL_MAX = 96"
definition REG_USER_MAX :: nat where "REG_USER_MAX = 24"
definition USR_SCOPE_MAX :: nat where "USR_SCOPE_MAX = 25"

lemmas reg_limits = REG_MAX_def REG_KEY_MAX_def REG_VAL_MAX_def REG_USER_MAX_def USR_SCOPE_MAX_def

record registry =
  g_reg :: "entry list"
  g_dirty :: bool
  g_user :: "entry list"
  g_user_dirty :: bool
  g_scope :: string

definition reg_is_user_key :: "string \<Rightarrow> bool" where
  "reg_is_user_key key = (take 5 key = ''User.'')"

definition reg_scope_user :: "registry \<Rightarrow> string" where
  "reg_scope_user r = g_scope r"

text \<open>\<open>find\<close> and \<open>find_user\<close>: the index of the first entry with the key.\<close>

fun find_entry :: "string \<Rightarrow> entry list \<Rightarrow> nat option" where
  "find_entry key [] = None"
| "find_entry key (e # es) =
     (if fst e = key then Some 0 else map_option Suc (find_entry key es))"

definition scoped :: "registry \<Rightarrow> string \<Rightarrow> string option" where
  "scoped r key =
     (if g_scope r = [] \<or> \<not> reg_is_user_key key then None
      else map_option (\<lambda>i. snd (g_user r ! i)) (find_entry key (g_user r)))"

definition reg_get :: "registry \<Rightarrow> string \<Rightarrow> string option \<Rightarrow> string option" where
  "reg_get r key def =
     (case scoped r key of
        Some v \<Rightarrow> Some v
      | None \<Rightarrow> (case find_entry key (g_reg r) of
                   Some i \<Rightarrow> Some (snd (g_reg r ! i))
                 | None \<Rightarrow> def))"

definition reg_get_int :: "registry \<Rightarrow> string \<Rightarrow> int \<Rightarrow> int" where
  "reg_get_int r key def =
     (case reg_get r key None of
        None \<Rightarrow> def
      | Some v \<Rightarrow> (case strtol10 v of None \<Rightarrow> def | Some n \<Rightarrow> n))"

text \<open>The table update of \<open>device_put\<close> and of the user branch of \<open>reg_set\<close>.\<close>

definition put_entry :: "nat \<Rightarrow> string \<Rightarrow> string \<Rightarrow> entry list \<Rightarrow> entry list option" where
  "put_entry cap key value es =
     (case find_entry key es of
        None \<Rightarrow> if length es \<ge> cap then None else Some (es @ [(key, value)])
      | Some i \<Rightarrow> Some (es[i := (fst (es ! i), value)]))"

definition device_put :: "string \<Rightarrow> string \<Rightarrow> registry \<Rightarrow> bool \<times> registry" where
  "device_put key value r =
     (case put_entry REG_MAX key value (g_reg r) of
        None \<Rightarrow> (False, r)
      | Some es \<Rightarrow> (True, r\<lparr>g_reg := es, g_dirty := True\<rparr>))"

definition reg_set :: "string option \<Rightarrow> string option \<Rightarrow> registry \<Rightarrow> bool \<times> registry" where
  "reg_set keyp valuep r =
     (case (keyp, valuep) of
        (Some key, Some value) \<Rightarrow>
          if length key \<ge> REG_KEY_MAX \<or> length value \<ge> REG_VAL_MAX then (False, r)
          else if reg_is_user_key key then
            if g_scope r = [] then (False, r)
            else (case put_entry REG_USER_MAX key value (g_user r) of
                    None \<Rightarrow> (False, r)
                  | Some es \<Rightarrow> (True, r\<lparr>g_user := es, g_user_dirty := True\<rparr>))
          else device_put key value r
      | _ \<Rightarrow> (False, r))"

definition reg_has :: "registry \<Rightarrow> string \<Rightarrow> bool" where
  "reg_has r key = (scoped r key \<noteq> None \<or> find_entry key (g_reg r) \<noteq> None)"

definition reg_count :: "registry \<Rightarrow> nat" where
  "reg_count r = length (g_reg r)"

definition reg_key_at :: "registry \<Rightarrow> nat \<Rightarrow> string option" where
  "reg_key_at r i = (if i < length (g_reg r) then Some (fst (g_reg r ! i)) else None)"

definition reg_clear :: "registry \<Rightarrow> registry" where
  "reg_clear r = r\<lparr>g_reg := [], g_dirty := True\<rparr>"

definition LINE_CAP :: nat where
  "LINE_CAP = REG_KEY_MAX + REG_VAL_MAX + 2 - 1"

definition load_line :: "string \<Rightarrow> registry \<Rightarrow> registry" where
  "load_line line r =
     (if line = [] \<or> hd line = CHR ''#'' then r
      else case strchr_split (CHR ''='') line of
        None \<Rightarrow> r
      | Some (key, value) \<Rightarrow>
          if length key \<ge> REG_KEY_MAX \<or> length value \<ge> REG_VAL_MAX then r
          else snd (device_put key value r))"

text \<open>A null \<open>text\<close> is \<open>None\<close>.\<close>

definition reg_load :: "string option \<Rightarrow> registry \<Rightarrow> registry" where
  "reg_load textp r =
     (let r0 = r\<lparr>g_reg := []\<rparr>
      in case textp of
           None \<Rightarrow> r0\<lparr>g_dirty := False\<rparr>
         | Some text \<Rightarrow>
             (line_loop LINE_CAP (\<lambda>_. True) load_line text r0)\<lparr>g_dirty := False\<rparr>)"

definition entry_line :: "entry \<Rightarrow> string" where
  "entry_line e = fst e @ ''='' @ snd e @ [NL]"

definition reg_serialize :: "registry \<Rightarrow> nat \<Rightarrow> string \<Rightarrow> string \<times> nat" where
  "reg_serialize r cap buf = serialize_into cap (map entry_line (g_reg r)) buf"

definition reg_dirty :: "registry \<Rightarrow> bool" where
  "reg_dirty r = g_dirty r"

definition reg_mark_clean :: "registry \<Rightarrow> registry" where
  "reg_mark_clean r = r\<lparr>g_dirty := False\<rparr>"

definition reg_scope_set :: "string option \<Rightarrow> registry \<Rightarrow> registry" where
  "reg_scope_set user r =
     r\<lparr>g_scope := snprintf USR_SCOPE_MAX (case user of None \<Rightarrow> [] | Some u \<Rightarrow> u)\<rparr>"

definition reg_scope_clear :: "registry \<Rightarrow> registry" where
  "reg_scope_clear r = r\<lparr>g_user := [], g_user_dirty := False, g_scope := []\<rparr>"

text \<open>The state of this loop carries whether \<open>break\<close> was reached.\<close>

definition scope_line :: "string \<Rightarrow> bool \<times> registry \<Rightarrow> bool \<times> registry" where
  "scope_line line br =
     (let (stop, r) = br in
      if line = [] \<or> hd line = CHR ''#'' then br
      else case strchr_split (CHR ''='') line of
        None \<Rightarrow> br
      | Some (key, value) \<Rightarrow>
          if \<not> reg_is_user_key key then br
          else if length (g_user r) \<ge> REG_USER_MAX then (True, r)
          else if length key \<ge> REG_KEY_MAX \<or> length value \<ge> REG_VAL_MAX then br
          else (stop, r\<lparr>g_user := (case find_entry key (g_user r) of
                  None \<Rightarrow> g_user r @ [(key, value)]
                | Some i \<Rightarrow> (g_user r)[i := (fst (g_user r ! i), value)])\<rparr>))"

definition reg_scope_load :: "string option \<Rightarrow> registry \<Rightarrow> registry" where
  "reg_scope_load textp r =
     (let r0 = r\<lparr>g_user := []\<rparr>
      in case textp of
           None \<Rightarrow> r0\<lparr>g_user_dirty := False\<rparr>
         | Some text \<Rightarrow>
             (snd (line_loop LINE_CAP (\<lambda>br. \<not> fst br) scope_line text (False, r0)))
               \<lparr>g_user_dirty := False\<rparr>)"

definition reg_scope_serialize :: "registry \<Rightarrow> nat \<Rightarrow> string \<Rightarrow> string \<times> nat" where
  "reg_scope_serialize r cap buf = serialize_into cap (map entry_line (g_user r)) buf"

definition reg_scope_dirty :: "registry \<Rightarrow> bool" where
  "reg_scope_dirty r = g_user_dirty r"

definition reg_scope_mark_clean :: "registry \<Rightarrow> registry" where
  "reg_scope_mark_clean r = r\<lparr>g_user_dirty := False\<rparr>"

definition reg_scope_count :: "registry \<Rightarrow> nat" where
  "reg_scope_count r = length (g_user r)"

definition reg_scope_key_at :: "registry \<Rightarrow> nat \<Rightarrow> string option" where
  "reg_scope_key_at r i = (if i < length (g_user r) then Some (fst (g_user r ! i)) else None)"

section \<open>One table: an association list that behaves as a bounded map\<close>

definition tab_get :: "entry list \<Rightarrow> string \<Rightarrow> string option" where
  "tab_get es key = map_option (\<lambda>i. snd (es ! i)) (find_entry key es)"

lemma find_entry_Some:
  "find_entry key es = Some i \<Longrightarrow> i < length es \<and> fst (es ! i) = key"
  by (induction es arbitrary: i) (auto split: if_splits)

lemma find_entry_None: "find_entry key es = None \<longleftrightarrow> key \<notin> fst ` set es"
  by (induction es) auto

lemma find_entry_cong: "map fst es = map fst fs \<Longrightarrow> find_entry key es = find_entry key fs"
proof (induction es arbitrary: fs)
  case (Cons e es)
  then obtain f fs' where "fs = f # fs'" by (cases fs) auto
  with Cons show ?case by auto
qed auto

lemma tab_get_map_of: "tab_get es = map_of es"
proof
  fix key show "tab_get es key = map_of es key"
    by (induction es) (auto simp: tab_get_def option.map_comp comp_def)
qed

lemma map_fst_update: "i < length es \<Longrightarrow> map fst (es[i := (fst (es ! i), v)]) = map fst es"
  by (simp add: map_update) (metis list_update_id nth_map)

lemma put_entry_cases:
  assumes "put_entry cap key v es = Some es'"
  obtains (new) "key \<notin> fst ` set es" "length es < cap" "es' = es @ [(key, v)]"
  | (old) i where "find_entry key es = Some i" "i < length es" "fst (es ! i) = key"
      "es' = es[i := (key, v)]"
  using assms find_entry_None [of key es] find_entry_Some [of key es]
  by (cases "find_entry key es") (auto simp: put_entry_def split: if_splits)

definition tab_wf :: "nat \<Rightarrow> entry list \<Rightarrow> bool" where
  "tab_wf cap es \<longleftrightarrow> distinct (map fst es) \<and> length es \<le> cap
     \<and> (\<forall>(k, v) \<in> set es. length k < REG_KEY_MAX \<and> length v < REG_VAL_MAX)"

lemma put_entry_keys:
  assumes "put_entry cap key v es = Some es'"
  shows "map fst es' = (if key \<in> fst ` set es then map fst es else map fst es @ [key])"
  using assms
proof (cases rule: put_entry_cases)
  case (old i)
  then have "map fst es' = map fst es" using map_fst_update [of i es v] by simp
  moreover have "key \<in> fst ` set es" using old by (metis image_eqI nth_mem)
  ultimately show ?thesis by simp
qed simp

lemma put_entry_get:
  assumes "put_entry cap key v es = Some es'"
  shows "tab_get es' = (tab_get es)(key \<mapsto> v)"
proof
  fix k
  show "tab_get es' k = ((tab_get es)(key \<mapsto> v)) k"
    using assms
  proof (cases rule: put_entry_cases)
    case new
    then have "map_of es key = None" by (simp add: map_of_eq_None_iff)
    with new show ?thesis by (auto simp: tab_get_map_of map_add_def split: option.splits)
  next
    case (old i)
    then have "map fst es' = map fst es" using map_fst_update [of i es v] by simp
    then have "find_entry k es' = find_entry k es" by (rule find_entry_cong)
    then show ?thesis
      using old find_entry_Some [of k es]
      by (cases "find_entry k es") (auto simp: tab_get_def nth_list_update)
  qed
qed

lemma put_entry_wf:
  assumes "tab_wf cap es" "put_entry cap key v es = Some es'"
    and "length key < REG_KEY_MAX" "length v < REG_VAL_MAX"
  shows "tab_wf cap es'"
proof -
  have "distinct (map fst es')"
    using put_entry_keys [OF assms(2)] assms(1)
    by (auto simp: tab_wf_def image_iff)
  moreover have "length es' \<le> cap"
    using assms(1,2) by (auto simp: put_entry_def tab_wf_def split: option.splits if_splits)
  moreover have "set es' \<subseteq> insert (key, v) (set es)"
    using assms(2) find_entry_Some [of key es]
    by (auto simp: put_entry_def split: option.splits if_splits dest: set_update_subset_insert [THEN subsetD])
  ultimately show ?thesis using assms by (auto simp: tab_wf_def)
qed


section \<open>The interface the two tables provide\<close>

locale bounded_map =
  fixes get :: "'t \<Rightarrow> 'k \<Rightarrow> 'v option"
    and put :: "'k \<Rightarrow> 'v \<Rightarrow> 't \<Rightarrow> 't option"
    and ok :: "'t \<Rightarrow> bool"
    and fits :: "'k \<Rightarrow> 'v \<Rightarrow> bool"
  assumes get_put: "put k v t = Some t' \<Longrightarrow> get t' = (get t)(k \<mapsto> v)"
    and ok_put: "ok t \<Longrightarrow> fits k v \<Longrightarrow> put k v t = Some t' \<Longrightarrow> ok t'"
    and put_present: "get t k \<noteq> None \<Longrightarrow> put k v t \<noteq> None"
begin

lemma put_again:
  assumes "put k v t = Some t'"
  shows "\<exists>t''. put k w t' = Some t'' \<and> get t'' = (get t)(k \<mapsto> w)"
proof -
  have "get t' k \<noteq> None" using get_put [OF assms] by simp
  then obtain t'' where "put k w t' = Some t''" using put_present by blast
  then show ?thesis using get_put [OF assms] get_put [of k w t' t''] by simp
qed

lemma put_other: "put k v t = Some t' \<Longrightarrow> k' \<noteq> k \<Longrightarrow> get t' k' = get t k'"
  by (simp add: get_put)

end

definition entry_fits :: "string \<Rightarrow> string \<Rightarrow> bool" where
  "entry_fits k v \<longleftrightarrow> length k < REG_KEY_MAX \<and> length v < REG_VAL_MAX"

lemma put_entry_present: "tab_get es k \<noteq> None \<Longrightarrow> put_entry cap k v es \<noteq> None"
  by (auto simp: tab_get_def put_entry_def split: option.splits)

interpretation device_table: bounded_map tab_get "put_entry REG_MAX" "tab_wf REG_MAX" entry_fits
  by unfold_locales
    (auto simp: entry_fits_def put_entry_get put_entry_present intro: put_entry_wf)

interpretation user_table: bounded_map tab_get "put_entry REG_USER_MAX" "tab_wf REG_USER_MAX"
  entry_fits
  by unfold_locales
    (auto simp: entry_fits_def put_entry_get put_entry_present intro: put_entry_wf)

section \<open>The registry as a whole\<close>

lemma scoped_alt:
  "scoped r key =
     (if g_scope r = [] \<or> \<not> reg_is_user_key key then None else tab_get (g_user r) key)"
  by (simp add: scoped_def tab_get_def)

definition reg_view :: "registry \<Rightarrow> string \<Rightarrow> string option" where
  "reg_view r key = reg_get r key None"

lemma reg_view_alt:
  "reg_view r key = (case scoped r key of Some v \<Rightarrow> Some v | None \<Rightarrow> tab_get (g_reg r) key)"
  by (simp add: reg_view_def reg_get_def tab_get_def split: option.splits)

lemma reg_get_view: "reg_get r key d = (case reg_view r key of None \<Rightarrow> d | Some v \<Rightarrow> Some v)"
  by (simp add: reg_view_def reg_get_def split: option.splits)

definition reg_wf :: "registry \<Rightarrow> bool" where
  "reg_wf r \<longleftrightarrow> tab_wf REG_MAX (g_reg r) \<and> tab_wf REG_USER_MAX (g_user r)
     \<and> (\<forall>(k, v) \<in> set (g_user r). reg_is_user_key k) \<and> length (g_scope r) < USR_SCOPE_MAX"

lemma tab_wf_Nil [simp]: "tab_wf cap []"
  by (simp add: tab_wf_def)

lemma device_put_wf:
  assumes "reg_wf r" "entry_fits k v"
  shows "reg_wf (snd (device_put k v r))"
  using assms device_table.ok_put [of "g_reg r" k v]
  by (auto simp: device_put_def reg_wf_def split: option.splits)

lemma put_entry_set: "put_entry cap k v es = Some es' \<Longrightarrow> set es' \<subseteq> insert (k, v) (set es)"
  by (erule put_entry_cases) (auto dest: set_update_subset_insert [THEN subsetD])

lemma reg_set_wf:
  assumes "reg_wf r"
  shows "reg_wf (snd (reg_set kp vp r))"
proof (cases kp; cases vp)
  fix k v assume kv: "kp = Some k" "vp = Some v"
  show ?thesis
  proof (cases "entry_fits k v \<and> reg_is_user_key k \<and> g_scope r \<noteq> []")
    case True
    then show ?thesis
      using kv assms user_table.ok_put [of "g_user r" k v] put_entry_set [of REG_USER_MAX k v "g_user r"]
      by (fastforce simp: reg_set_def reg_wf_def entry_fits_def not_le split: option.splits)
  next
    case False
    then show ?thesis using kv assms device_put_wf [OF assms, of k v]
      by (auto simp: reg_set_def entry_fits_def not_le)
  qed
qed (use assms in \<open>simp_all add: reg_set_def\<close>)

lemma load_line_wf: "reg_wf r \<Longrightarrow> reg_wf (load_line l r)"
  by (auto simp: load_line_def entry_fits_def not_le intro!: device_put_wf split: option.splits)

lemma put_entry_room:
  "length es < cap \<Longrightarrow> put_entry cap k v es =
     Some (case find_entry k es of None \<Rightarrow> es @ [(k, v)] | Some i \<Rightarrow> es[i := (fst (es ! i), v)])"
  by (simp add: put_entry_def split: option.splits)

lemma scope_line_wf:
  assumes "reg_wf (snd br)"
  shows "reg_wf (snd (scope_line l br))"
proof -
  obtain stop r where br: "br = (stop, r)" by (cases br)
  have "reg_wf (r\<lparr>g_user := es\<rparr>)"
    if "put_entry REG_USER_MAX k v (g_user r) = Some es" "entry_fits k v" "reg_is_user_key k"
    for k v es
    using that assms br user_table.ok_put [of "g_user r" k v es] put_entry_set [OF that(1)]
    by (fastforce simp: reg_wf_def)
  then show ?thesis using assms put_entry_room [of "g_user r" REG_USER_MAX]
    by (auto simp: scope_line_def br Let_def entry_fits_def not_le split: option.splits)
qed


lemma reg_load_wf: "reg_wf r \<Longrightarrow> reg_wf (reg_load tp r)"
proof -
  assume "reg_wf r"
  then have "reg_wf (r\<lparr>g_reg := []\<rparr>)" by (simp add: reg_wf_def)
  then have "reg_wf (line_loop LINE_CAP (\<lambda>_. True) load_line t (r\<lparr>g_reg := []\<rparr>))" for t
    by (rule line_loop_inv) (rule load_line_wf)
  with \<open>reg_wf (r\<lparr>g_reg := []\<rparr>)\<close> show ?thesis
    by (simp add: reg_load_def Let_def reg_wf_def split: option.splits)
qed

lemma reg_scope_load_wf: "reg_wf r \<Longrightarrow> reg_wf (reg_scope_load tp r)"
proof -
  assume "reg_wf r"
  then have "reg_wf (snd (False, r\<lparr>g_user := []\<rparr>))" by (simp add: reg_wf_def)
  then have "reg_wf (snd (line_loop LINE_CAP (\<lambda>br. \<not> fst br) scope_line t
      (False, r\<lparr>g_user := []\<rparr>)))" for t
    by (rule line_loop_inv) (rule scope_line_wf)
  with \<open>reg_wf (snd (False, r\<lparr>g_user := []\<rparr>))\<close> show ?thesis
    by (simp add: reg_scope_load_def Let_def reg_wf_def split: option.splits)
qed

text \<open>The operations that change the registry, as the firmware calls them.\<close>

datatype reg_op =
    OpSet "string option" "string option"
  | OpClear
  | OpLoad "string option"
  | OpMarkClean
  | OpScopeSet "string option"
  | OpScopeClear
  | OpScopeLoad "string option"
  | OpScopeMarkClean

fun reg_step :: "reg_op \<Rightarrow> registry \<Rightarrow> registry" where
  "reg_step (OpSet k v) r = snd (reg_set k v r)"
| "reg_step OpClear r = reg_clear r"
| "reg_step (OpLoad t) r = reg_load t r"
| "reg_step OpMarkClean r = reg_mark_clean r"
| "reg_step (OpScopeSet u) r = reg_scope_set u r"
| "reg_step OpScopeClear r = reg_scope_clear r"
| "reg_step (OpScopeLoad t) r = reg_scope_load t r"
| "reg_step OpScopeMarkClean r = reg_scope_mark_clean r"

definition reg_boot :: registry where
  "reg_boot = \<lparr>g_reg = [], g_dirty = False, g_user = [], g_user_dirty = False, g_scope = []\<rparr>"

lemma reg_step_wf: "reg_wf r \<Longrightarrow> reg_wf (reg_step op r)"
proof (cases op)
  case (OpScopeSet u)
  have "length (snprintf USR_SCOPE_MAX v) < USR_SCOPE_MAX" for v
    by (simp add: snprintf_def reg_limits)
  then show "reg_wf r \<Longrightarrow> ?thesis" using OpScopeSet by (simp add: reg_scope_set_def reg_wf_def)
qed (simp_all add: reg_set_wf reg_load_wf reg_scope_load_wf, simp_all add: reg_clear_def
    reg_mark_clean_def reg_scope_clear_def reg_scope_mark_clean_def reg_wf_def USR_SCOPE_MAX_def)

lemma device_put_get:
  "device_put k v r = (True, r') \<Longrightarrow> \<exists>es. r' = r\<lparr>g_reg := es, g_dirty := True\<rparr>
     \<and> tab_get es = (tab_get (g_reg r))(k \<mapsto> v)"
  by (auto simp: device_put_def put_entry_get split: option.splits)

section \<open>Loading back what was serialized\<close>

definition file_safe :: "entry \<Rightarrow> bool" where
  "file_safe e \<longleftrightarrow> fst e \<noteq> [] \<and> hd (fst e) \<noteq> CHR ''#'' \<and> CHR ''='' \<notin> set (fst e)
     \<and> NL \<notin> set (fst e @ snd e) \<and> NUL \<notin> set (fst e @ snd e)"

definition entry_text :: "entry \<Rightarrow> string" where
  "entry_text e = fst e @ ''='' @ snd e"

lemma entry_lines: "concat (map entry_line es) = unlines_nl (map entry_text es)"
  by (induction es) (simp_all add: unlines_nl_def entry_line_def entry_text_def)

lemma load_line_entry:
  assumes "file_safe e" "entry_fits (fst e) (snd e)"
  shows "load_line (entry_text e) r = snd (device_put (fst e) (snd e) r)"
proof -
  have "strchr_split (CHR ''='') (entry_text e) = Some (fst e, snd e)"
    using assms by (simp add: entry_text_def file_safe_def strchr_split_append)
  moreover have "entry_text e \<noteq> []" "hd (entry_text e) \<noteq> CHR ''#''"
    using assms(1) by (auto simp: entry_text_def file_safe_def)
  ultimately show ?thesis using assms(2)
    by (simp add: load_line_def entry_fits_def split_beta)
qed

lemma load_lines_table:
  assumes "tab_wf REG_MAX (g_reg r @ es)" "\<forall>e \<in> set es. file_safe e"
  shows "g_reg (fold load_line (map entry_text es) r) = g_reg r @ es"
  using assms
proof (induction es arbitrary: r)
  case (Cons e es)
  have fit: "entry_fits (fst e) (snd e)" and new: "fst e \<notin> fst ` set (g_reg r)"
    and room: "length (g_reg r) < REG_MAX"
    using Cons.prems(1) by (auto simp: tab_wf_def entry_fits_def)
  then have "find_entry (fst e) (g_reg r) = None" by (simp add: find_entry_None)
  then have "g_reg (load_line (entry_text e) r) = g_reg r @ [e]"
    using Cons.prems(2) fit room
    by (simp add: load_line_entry device_put_def put_entry_def)
  with Cons.IH [of "load_line (entry_text e) r"] Cons.prems show ?case by simp
qed simp

lemma reg_load_table:
  assumes "tab_wf REG_MAX es" "\<forall>e \<in> set es. file_safe e"
  shows "g_reg (reg_load (Some (concat (map entry_line es))) r) = es"
proof -
  have plain: "plain_line LINE_CAP (entry_text e)" if "e \<in> set es" for e
    using that assms
    by (fastforce simp: plain_line_def entry_text_def file_safe_def tab_wf_def LINE_CAP_def reg_limits)
  have "line_loop LINE_CAP (\<lambda>_. True) load_line (concat (map entry_line es)) (r\<lparr>g_reg := []\<rparr>)
      = fold load_line (map entry_text es) (r\<lparr>g_reg := []\<rparr>)"
    unfolding entry_lines
    by (rule line_loop_unlines [where P = "\<lambda>_. True"]) (use plain in auto)
  then show ?thesis using load_lines_table [of "r\<lparr>g_reg := []\<rparr>" es] assms
    by (simp add: reg_load_def)
qed


section \<open>Properties\<close>

text \<open>
  C7.  A write that succeeds changes exactly its own key: reading that key gives the new
  value and reading any other key gives what it gave before, in whichever table each
  lives.
\<close>

theorem reg_set_get:
  assumes "reg_set (Some k) (Some v) r = (True, r')"
  shows "reg_view r' = (reg_view r)(k \<mapsto> v)"
proof (cases "reg_is_user_key k")
  case True
  then obtain es where es: "put_entry REG_USER_MAX k v (g_user r) = Some es" "g_scope r \<noteq> []"
    and r': "r' = r\<lparr>g_user := es, g_user_dirty := True\<rparr>"
    using assms by (auto simp: reg_set_def split: if_splits option.splits)
  show ?thesis
    using True es(2) user_table.get_put [OF es(1)] unfolding r'
    by (auto simp: fun_eq_iff reg_view_alt scoped_alt split: option.splits)
next
  case False
  then have "device_put k v r = (True, r')"
    using assms by (auto simp: reg_set_def split: if_splits)
  from device_put_get [OF this] False show ?thesis
    by (auto simp: fun_eq_iff reg_view_alt scoped_alt split: option.splits)
qed

theorem reg_set_get_witness:
  "reg_view (snd (reg_set (Some ''a'') (Some ''1'') reg_boot)) =
     (reg_view reg_boot)(''a'' \<mapsto> ''1'')"
proof (rule reg_set_get)
  show "reg_set (Some ''a'') (Some ''1'') reg_boot =
      (True, snd (reg_set (Some ''a'') (Some ''1'') reg_boot))"
    by (simp add: reg_set_def device_put_def put_entry_def reg_limits reg_is_user_key_def reg_boot_def)
qed

text \<open>
  A write succeeds exactly when both arguments are there and fit their arrays, a
  per-person key has somebody signed in, and its table has room or already holds the key;
  a refused write changes nothing.
\<close>

theorem reg_set_refused:
  "(fst (reg_set kp vp r) \<longleftrightarrow>
      (case (kp, vp) of
         (Some k, Some v) \<Rightarrow> entry_fits k v \<and>
           (if reg_is_user_key k
            then g_scope r \<noteq> [] \<and> (length (g_user r) < REG_USER_MAX \<or> k \<in> fst ` set (g_user r))
            else length (g_reg r) < REG_MAX \<or> k \<in> fst ` set (g_reg r))
       | _ \<Rightarrow> False))
   \<and> (fst (reg_set kp vp r) \<or> snd (reg_set kp vp r) = r)"
proof -
  have pe: "put_entry cap k v es = None \<longleftrightarrow> cap \<le> length es \<and> k \<notin> fst ` set es" for cap k v es
    using find_entry_None [of k es] by (cases "find_entry k es") (auto simp: put_entry_def)
  have ok: "put_entry cap k v es = Some es' \<Longrightarrow> length es < cap \<or> k \<in> fst ` set es"
    for cap k v es es'
    using pe [of cap k v es] by force
  show ?thesis
    by (cases kp; cases vp)
      (auto simp: reg_set_def device_put_def entry_fits_def not_le pe dest: ok
        split: option.splits)
qed

text \<open>
  Whatever sequence of operations the firmware performs, with whatever keys, values
  and file contents, both tables stay within their size, hold each key once and no entry
  longer than its array, the user table holds per-person keys only, and the account name
  fits its buffer.
\<close>

theorem reg_always_wf: "reg_wf (fold reg_step ops reg_boot)"
proof -
  have "reg_wf r \<Longrightarrow> reg_wf (fold reg_step ops r)" for r
    by (induction ops arbitrary: r) (simp_all add: reg_step_wf)
  moreover have "reg_wf reg_boot" by (simp add: reg_boot_def reg_wf_def USR_SCOPE_MAX_def)
  ultimately show ?thesis by blast
qed

text \<open>
  Saving and loading gives the same table back: the text \<open>reg_serialize\<close> writes into
  a buffer with room for it, loaded into any registry, restores every entry in order and
  leaves the table clean, provided no key or value holds a newline or NUL and no key is
  empty, contains an equals sign or starts with a hash.
\<close>

theorem reg_save_load:
  assumes "reg_wf r" "\<forall>e \<in> set (g_reg r). file_safe e"
    and "snd (reg_serialize r cap buf) < cap" "length buf = cap"
  shows "g_reg (reg_load (Some (cstr (fst (reg_serialize r cap buf)))) r2) = g_reg r
    \<and> \<not> reg_dirty (reg_load (Some (cstr (fst (reg_serialize r cap buf)))) r2)"
proof -
  let ?rs = "map entry_line (g_reg r)"
  have "length (concat ?rs) < cap"
    using assms(3) by (simp add: reg_serialize_def serialize_into_def split_beta ser_loop_need)
  moreover have "NUL \<notin> set (concat ?rs)"
    using assms(2) by (auto simp: entry_line_def file_safe_def)
  ultimately have "cstr (fst (reg_serialize r cap buf)) = concat ?rs"
    unfolding reg_serialize_def using assms(4) by (intro serialize_fits(1))
  then show ?thesis
    using reg_load_table [of "g_reg r" r2] assms(1,2)
    by (simp add: reg_wf_def reg_dirty_def reg_load_def)
qed

theorem reg_save_load_witness:
  "g_reg (reg_load (Some (cstr (fst (reg_serialize (reg_boot\<lparr>g_reg := [(''a'', ''1'')]\<rparr>) 8
      (replicate 8 CHR ''x''))))) reg_boot) = [(''a'', ''1'')]"
  using reg_save_load [of "reg_boot\<lparr>g_reg := [(''a'', ''1'')]\<rparr>" 8 "replicate 8 CHR ''x''" reg_boot]
  by (simp add: reg_boot_def reg_wf_def tab_wf_def file_safe_def reg_limits reg_serialize_def
      serialize_into_def entry_line_def)

text \<open>
  A value with a newline in it is accepted and comes back from the file as another
  entry: here an ordinary device key plants a per-person key in the device table, which
  \<open>reg_set\<close> itself refuses to do while nobody is signed in.
\<close>

theorem reg_newline_injects:
  "let (ok, r) = reg_set (Some ''Apps.X'') (Some (''1'' @ [NL] @ ''User.t=2'')) reg_boot;
       r' = reg_load (Some (concat (map entry_line (g_reg r)))) r
   in ok \<and> \<not> fst (reg_set (Some ''User.t'') (Some ''2'') r)
      \<and> g_reg r' = [(''Apps.X'', ''1''), (''User.t'', ''2'')]
      \<and> reg_view r ''User.t'' = None \<and> reg_view r' ''User.t'' = Some ''2''"
  by (simp add: reg_set_def device_put_def put_entry_def reg_limits reg_is_user_key_def
      reg_boot_def reg_load_def line_loop.simps line_of_def after_line_def LINE_CAP_def cstr_def
      load_line_def strchr_split_def entry_line_def reg_view_alt scoped_alt tab_get_def)

end
