(* ===== verification/Sha256.thy ===== *)
theory Sha256
  imports Prelude
begin

text \<open>
  \<open>os/core/sha256.cpp\<close>: the streaming SHA-256 the firmware uses for passwords,
  packages and updates, its HMAC, and the hex encoder.  The context's 64-byte buffer
  is the list of the \<open>buflen\<close> bytes it holds.  The reference definition at the end of
  the model pads the whole message first, as the standard states it.
\<close>

section \<open>Model\<close>

type_synonym u64 = "64 word"

record sha_ctx =
  sha_state :: "u32 list"
  bitlen :: u64
  sha_buf :: bytes

definition SHA_K :: "u32 list" where
  "SHA_K =
     [0x428a2f98, 0x71374491, 0xb5c0fbcf, 0xe9b5dba5, 0x3956c25b, 0x59f111f1, 0x923f82a4, 0xab1c5ed5] @
     [0xd807aa98, 0x12835b01, 0x243185be, 0x550c7dc3, 0x72be5d74, 0x80deb1fe, 0x9bdc06a7, 0xc19bf174] @
     [0xe49b69c1, 0xefbe4786, 0x0fc19dc6, 0x240ca1cc, 0x2de92c6f, 0x4a7484aa, 0x5cb0a9dc, 0x76f988da] @
     [0x983e5152, 0xa831c66d, 0xb00327c8, 0xbf597fc7, 0xc6e00bf3, 0xd5a79147, 0x06ca6351, 0x14292967] @
     [0x27b70a85, 0x2e1b2138, 0x4d2c6dfc, 0x53380d13, 0x650a7354, 0x766a0abb, 0x81c2c92e, 0x92722c85] @
     [0xa2bfe8a1, 0xa81a664b, 0xc24b8b70, 0xc76c51a3, 0xd192e819, 0xd6990624, 0xf40e3585, 0x106aa070] @
     [0x19a4c116, 0x1e376c08, 0x2748774c, 0x34b0bcb5, 0x391c0cb3, 0x4ed8aa4a, 0x5b9cca4f, 0x682e6ff3] @
     [0x748f82ee, 0x78a5636f, 0x84c87814, 0x8cc70208, 0x90befffa, 0xa4506ceb, 0xbef9a3f7, 0xc67178f2]"

definition ror :: "u32 \<Rightarrow> nat \<Rightarrow> u32" where
  "ror x n = drop_bit n x OR push_bit (32 - n) x"

definition load_be :: "bytes \<Rightarrow> nat \<Rightarrow> u32" where
  "load_be p i = push_bit 24 (ucast (p ! (i * 4))) OR push_bit 16 (ucast (p ! (i * 4 + 1)))
     OR push_bit 8 (ucast (p ! (i * 4 + 2))) OR ucast (p ! (i * 4 + 3))"

definition schedule_word :: "u32 list \<Rightarrow> nat \<Rightarrow> u32" where
  "schedule_word w i =
     (let s0 = ror (w ! (i - 15)) 7 XOR ror (w ! (i - 15)) 18 XOR drop_bit 3 (w ! (i - 15));
          s1 = ror (w ! (i - 2)) 17 XOR ror (w ! (i - 2)) 19 XOR drop_bit 10 (w ! (i - 2))
      in w ! (i - 16) + s0 + w ! (i - 7) + s1)"

definition schedule :: "bytes \<Rightarrow> u32 list" where
  "schedule p = fold (\<lambda>i w. w @ [schedule_word w i]) [16..<64] (map (load_be p) [0..<16])"

fun sha_round :: "u32 list \<Rightarrow> nat \<Rightarrow> u32 list \<Rightarrow> u32 list" where
  "sha_round w i [a, b, cc, d, e, f, g, h] =
     (let S1 = ror e 6 XOR ror e 11 XOR ror e 25;
          ch = (e AND f) XOR (NOT e AND g);
          t1 = h + S1 + ch + SHA_K ! i + w ! i;
          S0 = ror a 2 XOR ror a 13 XOR ror a 22;
          maj = (a AND b) XOR (a AND cc) XOR (b AND cc);
          t2 = S0 + maj
      in [t1 + t2, a, b, cc, d + t1, e, f, g])"
| "sha_round w i v = v"

definition transform :: "u32 list \<Rightarrow> bytes \<Rightarrow> u32 list" where
  "transform st p = map2 (+) st (fold (sha_round (schedule p)) [0..<64] st)"

definition sha_H0 :: "u32 list" where
  "sha_H0 = [0x6a09e667, 0xbb67ae85, 0x3c6ef372, 0xa54ff53a,
             0x510e527f, 0x9b05688c, 0x1f83d9ab, 0x5be0cd19]"

definition sha256_init :: sha_ctx where
  "sha256_init = \<lparr>sha_state = sha_H0, bitlen = 0, sha_buf = []\<rparr>"

definition sha_byte :: "u8 \<Rightarrow> sha_ctx \<Rightarrow> sha_ctx" where
  "sha_byte x c =
     (let c1 = c\<lparr>sha_buf := sha_buf c @ [x]\<rparr>
      in if length (sha_buf c1) = 64
         then c1\<lparr>sha_state := transform (sha_state c1) (sha_buf c1),
                 bitlen := bitlen c1 + 512, sha_buf := []\<rparr>
         else c1)"

fun sha256_update :: "sha_ctx \<Rightarrow> bytes \<Rightarrow> sha_ctx" where
  "sha256_update c [] = c"
| "sha256_update c (x # xs) = sha256_update (sha_byte x c) xs"

definition be64 :: "u64 \<Rightarrow> bytes" where
  "be64 v = map (\<lambda>j. ucast (drop_bit (j * 8) v)) (rev [0..<8])"

definition digest_bytes :: "u32 list \<Rightarrow> bytes" where
  "digest_bytes st = concat (map (\<lambda>s. [ucast (drop_bit 24 s), ucast (drop_bit 16 s),
      ucast (drop_bit 8 s), ucast s]) st)"

definition sha256_final :: "sha_ctx \<Rightarrow> bytes" where
  "sha256_final c =
     (let bl = bitlen c + of_nat (length (sha_buf c)) * 8;
          b1 = sha_buf c @ [0x80];
          (st1, b2) = (if 56 < length b1
             then (transform (sha_state c) (b1 @ replicate (64 - length b1) 0), [])
             else (sha_state c, b1));
          b3 = b2 @ replicate (56 - length b2) 0 @ be64 bl
      in digest_bytes (transform st1 b3))"

definition sha256 :: "bytes \<Rightarrow> bytes" where
  "sha256 msg = sha256_final (sha256_update sha256_init msg)"

definition hex_digit :: "u8 \<Rightarrow> char" where
  "hex_digit n = ''0123456789abcdef'' ! unat n"

definition hex_encode :: "bytes \<Rightarrow> string" where
  "hex_encode bs = concat (map (\<lambda>b. [hex_digit (drop_bit 4 b), hex_digit (b AND 0xf)]) bs)"

definition hmac_sha256 :: "bytes \<Rightarrow> bytes \<Rightarrow> bytes" where
  "hmac_sha256 key msg =
     (let k0 = (if 64 < length key then sha256 key else key);
          k = k0 @ replicate (64 - length k0) 0;
          inner = sha256_final (sha256_update
                    (sha256_update sha256_init (map (\<lambda>b. b XOR 0x36) k)) msg)
      in sha256_final (sha256_update
           (sha256_update sha256_init (map (\<lambda>b. b XOR 0x5c) k)) inner))"

section \<open>The reference: pad, then compress block by block\<close>

fun compress_all :: "u32 list \<Rightarrow> bytes \<Rightarrow> u32 list \<times> bytes" where
  "compress_all st bs =
     (if length bs < 64 then (st, bs)
      else compress_all (transform st (take 64 bs)) (drop 64 bs))"

declare compress_all.simps [simp del]

definition sha_pad :: "bytes \<Rightarrow> bytes" where
  "sha_pad msg = msg @ [0x80] @ replicate ((119 - length msg mod 64) mod 64) 0
     @ be64 (of_nat (8 * length msg))"

definition sha256_ref :: "bytes \<Rightarrow> bytes" where
  "sha256_ref msg = digest_bytes (fst (compress_all sha_H0 (sha_pad msg)))"

section \<open>Streaming equals the reference\<close>

lemma div64_split: "a div 64 + (a mod 64 + b) div 64 = (a + b) div (64 :: nat)"
proof -
  have "a + b = 64 * (a div 64) + (a mod 64 + b)" by simp
  then have "(a + b) div 64 = (64 * (a div 64) + (a mod 64 + b)) div 64" by (rule arg_cong)
  also have "\<dots> = a div 64 + (a mod 64 + b) div 64" by (rule div_mult_self4) simp
  finally show ?thesis by simp
qed

lemma compress_small: "length bs < 64 \<Longrightarrow> compress_all st bs = (st, bs)"
  by (simp add: compress_all.simps)

lemma compress_block:
  "length xs = 64 \<Longrightarrow> compress_all st (xs @ ys) = compress_all (transform st xs) ys"
  by (subst compress_all.simps) simp

lemma compress_rest: "length (snd (compress_all st bs)) = length bs mod 64"
proof (induction st bs rule: compress_all.induct)
  case (1 st bs)
  then show ?case
    by (cases "length bs < 64") (simp_all add: compress_all.simps [of st bs] le_mod_geq)
qed

lemma compress_append:
  "compress_all st (xs @ ys) =
     (case compress_all st xs of (st', r) \<Rightarrow> compress_all st' (r @ ys))"
proof (induction st xs rule: compress_all.induct)
  case (1 st xs)
  show ?case
  proof (cases "length xs < 64")
    case True
    then show ?thesis by (simp add: compress_small)
  next
    case False
    have "compress_all st (xs @ ys) = compress_all (transform st (take 64 xs)) (drop 64 xs @ ys)"
      using False compress_block [of "take 64 xs" st "drop 64 xs @ ys"]
      by (simp flip: append_assoc)
    also have "\<dots> = (case compress_all st xs of (st', r) \<Rightarrow> compress_all st' (r @ ys))"
      using False "1.IH" by (simp add: compress_all.simps [of st xs])
    finally show ?thesis .
  qed
qed

lemma sha_byte_compress:
  assumes "length (sha_buf c) < 64"
  shows "sha_byte x c = c\<lparr>sha_state := fst (compress_all (sha_state c) (sha_buf c @ [x])),
     bitlen := bitlen c + of_nat (512 * ((length (sha_buf c) + 1) div 64)),
     sha_buf := snd (compress_all (sha_state c) (sha_buf c @ [x]))\<rparr>"
proof (cases "length (sha_buf c) = 63")
  case True
  then have "compress_all (sha_state c) (sha_buf c @ [x]) =
      (transform (sha_state c) (sha_buf c @ [x]), [])"
    using compress_block [of "sha_buf c @ [x]" "sha_state c" "[]"] by (simp add: compress_small)
  then show ?thesis using True by (simp add: sha_byte_def Let_def)
next
  case False
  then have "compress_all (sha_state c) (sha_buf c @ [x]) = (sha_state c, sha_buf c @ [x])"
    using assms by (intro compress_small) simp
  moreover have "(length (sha_buf c) + 1) div 64 = 0" using assms False by simp
  ultimately show ?thesis using False by (simp add: sha_byte_def Let_def)
qed

lemma sha256_update_compress:
  assumes "length (sha_buf c) < 64"
  shows "sha256_update c xs =
    c\<lparr>sha_state := fst (compress_all (sha_state c) (sha_buf c @ xs)),
      bitlen := bitlen c + of_nat (512 * ((length (sha_buf c) + length xs) div 64)),
      sha_buf := snd (compress_all (sha_state c) (sha_buf c @ xs))\<rparr>"
  using assms
proof (induction xs arbitrary: c)
  case Nil
  then show ?case by (simp add: compress_small)
next
  case (Cons x xs)
  let ?c1 = "sha_byte x c"
  have lb: "length (sha_buf ?c1) = (length (sha_buf c) + 1) mod 64"
    using Cons.prems by (simp add: sha_byte_compress compress_rest)
  then have small: "length (sha_buf ?c1) < 64" by simp
  have ca: "compress_all (sha_state ?c1) (sha_buf ?c1 @ xs) =
      compress_all (sha_state c) (sha_buf c @ x # xs)"
    using compress_append [of "sha_state c" "sha_buf c @ [x]" xs] Cons.prems
    by (simp add: sha_byte_compress split_beta)
  have "(length (sha_buf c) + 1) div 64 + (length (sha_buf ?c1) + length xs) div 64
      = (length (sha_buf c) + length (x # xs)) div 64"
    unfolding lb using div64_split [of "length (sha_buf c) + 1" "length xs"] by simp
  then have bl: "bitlen ?c1 + of_nat (512 * ((length (sha_buf ?c1) + length xs) div 64)) =
      bitlen c + of_nat (512 * ((length (sha_buf c) + length (x # xs)) div 64))"
    using Cons.prems
    by (simp add: sha_byte_compress distrib_left flip: of_nat_add distrib_left)
  show ?case
    using Cons.IH [OF small] ca bl Cons.prems
    by (simp add: sha_byte_compress)
qed


lemma sha256_after:
  "sha256_update sha256_init msg =
     \<lparr>sha_state = fst (compress_all sha_H0 msg), bitlen = of_nat (512 * (length msg div 64)),
      sha_buf = snd (compress_all sha_H0 msg)\<rparr>"
  by (simp add: sha256_update_compress sha256_init_def)

lemma length_be64 [simp]: "length (be64 v) = 8"
  by (simp add: be64_def)

lemma sha256_final_compress:
  assumes "length (sha_buf c) < 64"
  shows "sha256_final c = digest_bytes (fst (compress_all (sha_state c)
     (sha_buf c @ [0x80] @ replicate ((119 - length (sha_buf c)) mod 64) 0
        @ be64 (bitlen c + of_nat (length (sha_buf c)) * 8))))"
proof -
  let ?n = "length (sha_buf c)" and ?b1 = "sha_buf c @ [0x80]"
  let ?l = "be64 (bitlen c + of_nat ?n * 8)"
  have one: "compress_all st xs = (transform st xs, [])" if "length xs = 64" for st xs
    using compress_block [OF that, of st "[]"] by (simp add: compress_small)
  show ?thesis
  proof (cases "56 < length ?b1")
    case True
    have z: "(119 - ?n) mod 64 = (64 - length ?b1) + 56" using True assms by simp
    have "compress_all (sha_state c) ((?b1 @ replicate (64 - length ?b1) 0) @
        (replicate 56 0 @ ?l)) = compress_all (transform (sha_state c)
          (?b1 @ replicate (64 - length ?b1) 0)) (replicate 56 0 @ ?l)"
      using assms True by (intro compress_block) simp
    then show ?thesis using True one [of "replicate 56 0 @ ?l"] unfolding z
      by (simp add: sha256_final_def Let_def replicate_add)
  next
    case False
    have z: "(119 - ?n) mod 64 = 56 - length ?b1"
      using False assms by (simp add: le_mod_geq)
    show ?thesis using False one [of "?b1 @ replicate (56 - length ?b1) 0 @ ?l"] unfolding z
      by (simp add: sha256_final_def Let_def)
  qed
qed

lemma length_hex_encode [simp]: "length (hex_encode bs) = 2 * length bs"
  by (induction bs) (simp_all add: hex_encode_def)


section \<open>Properties\<close>

text \<open>A locale for hashing in pieces: what the users of the hash rely on.\<close>

locale stream_hash =
  fixes start :: 'c
    and feed :: "'c \<Rightarrow> bytes \<Rightarrow> 'c"
    and finish :: "'c \<Rightarrow> bytes"
  assumes feed_append: "feed c (xs @ ys) = feed (feed c xs) ys"
    and feed_Nil: "feed c [] = c"
begin

lemma feed_chunks: "finish (foldl feed c chunks) = finish (feed c (concat chunks))"
proof -
  have "foldl feed c chunks = feed c (concat chunks)"
    by (induction chunks arbitrary: c) (simp_all add: feed_Nil feed_append)
  then show ?thesis by simp
qed

end

lemma sha256_update_append: "sha256_update c (xs @ ys) = sha256_update (sha256_update c xs) ys"
  by (induction c xs rule: sha256_update.induct) simp_all

interpretation sha: stream_hash sha256_init sha256_update sha256_final
  by unfold_locales (simp_all add: sha256_update_append)

lemma sha256_is_ref: "sha256 msg = sha256_ref msg"
proof -
  let ?c = "sha256_update sha256_init msg"
  have buf: "length (sha_buf ?c) = length msg mod 64"
    by (simp add: sha256_after compress_rest)
  have bits: "bitlen ?c + of_nat (length (sha_buf ?c)) * 8 = of_nat (8 * length msg)"
  proof -
    have e: "512 * (length msg div 64) + length msg mod 64 * 8 = 8 * length msg"
      using div_mult_mod_eq [of "length msg" 64] by linarith
    have "bitlen ?c + of_nat (length (sha_buf ?c)) * 8 =
        of_nat (512 * (length msg div 64) + length msg mod 64 * 8)"
      unfolding buf by (simp add: sha256_after)
    then show ?thesis unfolding e .
  qed
  have "sha256 msg = digest_bytes (fst (compress_all (sha_state ?c) (sha_buf ?c @
      ([0x80] @ replicate ((119 - length msg mod 64) mod 64) 0 @ be64 (of_nat (8 * length msg))))))"
    unfolding sha256_def using sha256_final_compress [of ?c] buf bits by simp
  also have "\<dots> = sha256_ref msg"
    unfolding sha256_ref_def sha_pad_def compress_append [of sha_H0 msg]
    by (simp add: sha256_after split_beta)
  finally show ?thesis .
qed

text \<open>
  C6.  Feeding a message to the streaming hash in any pieces, of any sizes, gives the
  digest the standard defines on the whole message: pad it, then compress it block by
  block.
\<close>

theorem sha256_streaming_is_reference:
  "sha256_final (foldl sha256_update sha256_init chunks) = sha256_ref (concat chunks)"
  using sha.feed_chunks [of sha256_init chunks] sha256_is_ref [of "concat chunks"]
  by (simp add: sha256_def)

end
