(* ===== verification/Users.thy ===== *)
theory Users
  imports CLib Sha256
begin

text \<open>
  \<open>os/core/users.cpp\<close>: the account table, its salted password hashes and its text file.
  The state is the file's static variables; \<open>rnd i\<close> is what the i-th call of the
  platform's \<open>rpc_rand32\<close> returns, an argument of the operations that make a salt.
\<close>

section \<open>Model\<close>

definition USR_MAX :: nat where "USR_MAX = 16"
definition USR_NAME_MAX :: nat where "USR_NAME_MAX = 24"
definition USR_CRED_MAX :: nat where "USR_CRED_MAX = 100"
definition USR_HOME_MAX :: nat where "USR_HOME_MAX = 40"
definition SALT_BYTES :: nat where "SALT_BYTES = 16"

lemmas usr_limits = USR_MAX_def USR_NAME_MAX_def USR_CRED_MAX_def USR_HOME_MAX_def SALT_BYTES_def

datatype user_role = ROLE_USER | ROLE_ADMIN

record user =
  u_name :: string
  u_cred :: string
  u_home :: string
  u_role :: user_role

record users =
  g_users :: "user list"
  g_udirty :: bool

definition NOPASS :: string where
  "NOPASS = ''NOPASS''"

fun find_user :: "string \<Rightarrow> user list \<Rightarrow> nat option" where
  "find_user name [] = None"
| "find_user name (u # us) =
     (if u_name u = name then Some 0 else map_option Suc (find_user name us))"

definition str_bytes :: "string \<Rightarrow> bytes" where
  "str_bytes s = map of_char s"

definition hash_password :: "bytes \<Rightarrow> string \<Rightarrow> string" where
  "hash_password salt password =
     hex_encode (sha256_final (sha256_update (sha256_update sha256_init salt) (str_bytes password)))"

definition make_salt :: "(nat \<Rightarrow> u32) \<Rightarrow> bytes" where
  "make_salt rnd = concat (map (\<lambda>i. let r = rnd i in
     [ucast r, ucast (drop_bit 8 r), ucast (drop_bit 16 r), ucast (drop_bit 24 r)]) [0..<4])"

definition make_cred :: "(nat \<Rightarrow> u32) \<Rightarrow> string \<Rightarrow> string" where
  "make_cred rnd password =
     (let salt = make_salt rnd
      in snprintf USR_CRED_MAX (hex_encode salt @ ''$'' @ hash_password salt password))"

fun hexval :: "char \<Rightarrow> int" where
  "hexval c =
     (if CHR ''0'' \<le> c \<and> c \<le> CHR ''9'' then of_char c - of_char CHR ''0''
      else if CHR ''a'' \<le> c \<and> c \<le> CHR ''f'' then of_char c - of_char CHR ''a'' + 10
      else if CHR ''A'' \<le> c \<and> c \<le> CHR ''F'' then of_char c - of_char CHR ''A'' + 10
      else -1)"

declare hexval.simps [simp del]

definition reg_note_home :: "string \<Rightarrow> nat \<Rightarrow> string" where
  "reg_note_home name cap = snprintf cap (''/home/'' @ name @ ''/'')"

text \<open>\<open>None\<close> stands for a null name or password.\<close>

definition users_add ::
  "(nat \<Rightarrow> u32) \<Rightarrow> string option \<Rightarrow> string option \<Rightarrow> bool \<Rightarrow> bool \<Rightarrow> users \<Rightarrow> bool \<times> users" where
  "users_add rnd namep pwp admin nopass us =
     (case namep of None \<Rightarrow> (False, us) | Some name \<Rightarrow>
        if length name \<ge> USR_NAME_MAX then (False, us)
        else if find_user name (g_users us) \<noteq> None \<or> length (g_users us) \<ge> USR_MAX then (False, us)
        else if \<not> nopass \<and> (pwp = None \<or> length (the pwp) = 0) then (False, us)
        else (True, us\<lparr>g_users := g_users us @
               [\<lparr>u_name = name,
                 u_cred = (if nopass then NOPASS else make_cred rnd (the pwp)),
                 u_home = reg_note_home name USR_HOME_MAX,
                 u_role = (if admin then ROLE_ADMIN else ROLE_USER)\<rparr>],
               g_udirty := True\<rparr>))"

fun salt_decode :: "string \<Rightarrow> nat \<Rightarrow> bytes option" where
  "salt_decode cred 0 = Some []"
| "salt_decode cred (Suc n) =
     (let hi = hexval (cred ! 0); lo = hexval (cred ! 1)
      in if hi < 0 \<or> lo < 0 then None
         else map_option ((#) (push_bit 4 (of_int hi) OR of_int lo)) (salt_decode (drop 2 cred) n))"

definition ct_diff :: "string \<Rightarrow> string \<Rightarrow> u8" where
  "ct_diff want hv =
     foldl (\<lambda>d (w, h). d OR (of_char w XOR of_char h)) 0 (zip want hv)"

definition users_verify :: "users \<Rightarrow> string \<Rightarrow> string option \<Rightarrow> bool" where
  "users_verify us name pwp =
     (case find_user name (g_users us) of None \<Rightarrow> False | Some i \<Rightarrow>
        let cred = u_cred (g_users us ! i)
        in if cred = NOPASS then True
           else case pwp of None \<Rightarrow> False | Some password \<Rightarrow>
             (case strchr_split (CHR ''$'') cred of None \<Rightarrow> False | Some (salthex, hv) \<Rightarrow>
                if length salthex \<noteq> SALT_BYTES * 2 then False
                else case salt_decode cred SALT_BYTES of None \<Rightarrow> False | Some salt \<Rightarrow>
                  if length hv \<noteq> 64 then False
                  else ct_diff (hash_password salt password) hv = 0))"

definition users_exists :: "users \<Rightarrow> string \<Rightarrow> bool" where
  "users_exists us name = (find_user name (g_users us) \<noteq> None)"

definition users_is_admin :: "users \<Rightarrow> string \<Rightarrow> bool" where
  "users_is_admin us name =
     (case find_user name (g_users us) of None \<Rightarrow> False
      | Some i \<Rightarrow> u_role (g_users us ! i) = ROLE_ADMIN)"

definition users_is_nopass :: "users \<Rightarrow> string \<Rightarrow> bool" where
  "users_is_nopass us name =
     (case find_user name (g_users us) of None \<Rightarrow> False
      | Some i \<Rightarrow> u_cred (g_users us ! i) = NOPASS)"

definition users_set_password ::
  "(nat \<Rightarrow> u32) \<Rightarrow> string \<Rightarrow> string option \<Rightarrow> users \<Rightarrow> bool \<times> users" where
  "users_set_password rnd name pwp us =
     (case find_user name (g_users us) of None \<Rightarrow> (False, us) | Some i \<Rightarrow>
        if pwp = None \<or> length (the pwp) = 0 then (False, us)
        else (True, us\<lparr>g_users := (g_users us)[i := (g_users us ! i)
                           \<lparr>u_cred := make_cred rnd (the pwp)\<rparr>], g_udirty := True\<rparr>))"

definition users_set_admin :: "string \<Rightarrow> bool \<Rightarrow> users \<Rightarrow> bool \<times> users" where
  "users_set_admin name admin us =
     (case find_user name (g_users us) of None \<Rightarrow> (False, us) | Some i \<Rightarrow>
        if \<not> admin \<and> name = ''root'' then (False, us)
        else (True, us\<lparr>g_users := (g_users us)[i := (g_users us ! i)
                           \<lparr>u_role := (if admin then ROLE_ADMIN else ROLE_USER)\<rparr>],
                         g_udirty := True\<rparr>))"

definition users_set_nopass :: "string \<Rightarrow> users \<Rightarrow> bool \<times> users" where
  "users_set_nopass name us =
     (case find_user name (g_users us) of None \<Rightarrow> (False, us) | Some i \<Rightarrow>
        if u_role (g_users us ! i) = ROLE_ADMIN then (False, us)
        else (True, us\<lparr>g_users := (g_users us)[i := (g_users us ! i)\<lparr>u_cred := NOPASS\<rparr>],
                         g_udirty := True\<rparr>))"

definition users_remove :: "string option \<Rightarrow> users \<Rightarrow> bool \<times> users" where
  "users_remove namep us =
     (case namep of None \<Rightarrow> (False, us) | Some name \<Rightarrow>
        if name = ''root'' \<or> name = ''guest'' then (False, us)
        else case find_user name (g_users us) of None \<Rightarrow> (False, us) | Some i \<Rightarrow>
          (True, us\<lparr>g_users := take i (g_users us) @ drop (Suc i) (g_users us),
                    g_udirty := True\<rparr>))"

definition users_count :: "users \<Rightarrow> nat" where
  "users_count us = length (g_users us)"

definition users_name_at :: "users \<Rightarrow> nat \<Rightarrow> string option" where
  "users_name_at us i = (if i < length (g_users us) then Some (u_name (g_users us ! i)) else None)"

definition users_clear :: "users \<Rightarrow> users" where
  "users_clear us = us\<lparr>g_users := [], g_udirty := True\<rparr>"

definition USR_LINE_CAP :: nat where
  "USR_LINE_CAP = USR_NAME_MAX + USR_CRED_MAX + USR_HOME_MAX + 16 - 1"

definition user_line :: "string \<Rightarrow> users \<Rightarrow> users" where
  "user_line line us =
     (if line = [] \<or> hd line = CHR ''#'' then us
      else case strchr_split (CHR '','') line of None \<Rightarrow> us | Some (name, f1) \<Rightarrow>
        (case strchr_split (CHR '','') f1 of None \<Rightarrow> us | Some (cred, f2) \<Rightarrow>
          let (home, role) =
            (case strchr_split (CHR '','') f2 of
               Some (home, f3) \<Rightarrow> (home, if f3 = ''admin'' then ROLE_ADMIN else ROLE_USER)
             | None \<Rightarrow> (f2, if name = ''root'' then ROLE_ADMIN else ROLE_USER))
          in if length name \<ge> USR_NAME_MAX \<or> length cred \<ge> USR_CRED_MAX
                \<or> length home \<ge> USR_HOME_MAX then us
             else us\<lparr>g_users := g_users us @
                    [\<lparr>u_name = name, u_cred = cred, u_home = home, u_role = role\<rparr>]\<rparr>))"

definition users_load :: "string option \<Rightarrow> users \<Rightarrow> users" where
  "users_load textp us =
     (let us0 = us\<lparr>g_users := []\<rparr>
      in case textp of
           None \<Rightarrow> us0\<lparr>g_udirty := False\<rparr>
         | Some text \<Rightarrow>
             (line_loop USR_LINE_CAP (\<lambda>s. length (g_users s) < USR_MAX) user_line text us0)
               \<lparr>g_udirty := False\<rparr>)"

definition user_text :: "user \<Rightarrow> string" where
  "user_text u = u_name u @ '','' @ u_cred u @ '','' @ u_home u @ '','' @
     (if u_role u = ROLE_ADMIN then ''admin'' else ''user'')"

definition users_serialize :: "users \<Rightarrow> nat \<Rightarrow> string \<Rightarrow> string \<times> nat" where
  "users_serialize us cap buf =
     serialize_into cap (map (\<lambda>u. user_text u @ [NL]) (g_users us)) buf"

definition users_dirty :: "users \<Rightarrow> bool" where
  "users_dirty us = g_udirty us"

definition users_mark_clean :: "users \<Rightarrow> users" where
  "users_mark_clean us = us\<lparr>g_udirty := False\<rparr>"

section \<open>Hex digits, salts and the constant-time comparison\<close>

lemma hexval_digit: "unat (n :: u8) < 16 \<Longrightarrow> hexval (hex_digit n) = int (unat n)"
proof -
  have all: "\<forall>k \<in> set [0..<16]. hexval (''0123456789abcdef'' ! k) = int k"
    by (simp add: upt_rec numeral_eq_Suc hexval.simps)
  assume "unat n < 16"
  with all show ?thesis by (simp add: hex_digit_def)
qed
lemma unat_u8_less [simp]: "unat (x :: u8) < 256"
  using unsigned_less [of x] by simp

lemma nibbles: "unat (drop_bit 4 (b :: u8)) < 16" "unat (b AND 0xf) < 16"
  "push_bit 4 (drop_bit 4 b) OR (b AND 0xf) = b"
proof -
  show "unat (drop_bit 4 b) < 16"
    using less_mult_imp_div_less [of "unat b" 16 16] by (simp add: drop_bit_eq_div unat_div)
  have m: "b AND 0xf = take_bit 4 b" by (simp add: take_bit_eq_mask mask_eq_exp_minus_1)
  show "unat (b AND 0xf) < 16"
    unfolding m by (simp add: take_bit_eq_mod unat_mod)
  show "push_bit 4 (drop_bit 4 b) OR (b AND 0xf) = b"
    unfolding m by (rule bit_word_eqI) (auto simp: bit_simps)
qed

lemma salt_decode_encode:
  "salt_decode (hex_encode salt @ rest) (length salt) = Some salt"
proof (induction salt)
  case (Cons b bs)
  have "hexval (hex_digit (drop_bit 4 b)) = int (unat (drop_bit 4 b))"
    and "hexval (hex_digit (b AND 0xf)) = int (unat (b AND 0xf))"
    using nibbles by (simp_all only: hexval_digit)
  then show ?case using Cons nibbles(3) [of b]
    by (simp add: hex_encode_def Let_def del: push_bit_numeral)
qed simp


lemma of_char_u8_inj: "(of_char c :: u8) = of_char d \<longleftrightarrow> c = d"
proof
  assume "(of_char c :: u8) = of_char d"
  then have "unat (of_nat (of_char c) :: u8) = unat (of_nat (of_char d) :: u8)"
    by (simp add: of_nat_of_char)
  then show "c = d" by (simp add: unat_of_nat take_bit_eq_mod)
qed simp

lemma or_eq_0_u8: "(a OR b = (0 :: u8)) \<longleftrightarrow> a = 0 \<and> b = 0"
  by (auto simp: bit_eq_iff bit_simps)

lemma xor_eq_0_u8: "(a XOR b = (0 :: u8)) \<longleftrightarrow> a = b"
  by (auto simp: bit_eq_iff bit_simps)

lemma ct_diff_0: "length want = length hv \<Longrightarrow> ct_diff want hv = 0 \<longleftrightarrow> want = hv"
proof -
  have "foldl (\<lambda>d (w, h). d OR (of_char w XOR of_char h)) acc ps = (0 :: u8) \<longleftrightarrow>
      acc = 0 \<and> (\<forall>(w, h) \<in> set ps. w = h)" for acc ps
    by (induction ps arbitrary: acc) (auto simp: or_eq_0_u8 xor_eq_0_u8 of_char_u8_inj)
  moreover assume "length want = length hv"
  then have "(\<forall>(w, h) \<in> set (zip want hv). w = h) \<longleftrightarrow> want = hv"
    by (induction want hv rule: list_induct2) auto
  ultimately show ?thesis by (simp add: ct_diff_def)
qed

lemma length_concat_const: "(\<And>x. length (f x) = k) \<Longrightarrow> length (concat (map f xs)) = k * length xs"
  by (induction xs) simp_all

lemma length_digest [simp]: "length (digest_bytes st) = 4 * length st"
  unfolding digest_bytes_def by (rule length_concat_const) simp

lemma length_sha_round [simp]: "length (sha_round w i v) = length v"
  by (induction w i v rule: sha_round.induct) (simp_all add: Let_def)

lemma length_transform [simp]: "length (transform st p) = length st"
proof -
  have "length (fold (sha_round w) is st) = length st" for w "is"
    by (induction "is" arbitrary: st) simp_all
  then show ?thesis by (simp add: transform_def)
qed

lemma length_sha_state: "length (sha_state (sha256_update c xs)) = length (sha_state c)"
  by (induction c xs rule: sha256_update.induct) (simp_all add: sha_byte_def Let_def)

lemma length_sha256_final: "length (sha256_final c) = 4 * length (sha_state c)"
  by (simp add: sha256_final_def Let_def split_beta)

lemma length_hash_password [simp]: "length (hash_password salt pw) = 64"
  by (simp add: hash_password_def length_sha256_final length_sha_state sha256_init_def sha_H0_def)

lemma length_make_salt [simp]: "length (make_salt rnd) = SALT_BYTES"
  unfolding make_salt_def by (subst length_concat_const) (simp_all add: Let_def SALT_BYTES_def)

lemma make_cred_eq:
  "make_cred rnd pw = hex_encode (make_salt rnd) @ CHR ''$'' # hash_password (make_salt rnd) pw"
  by (simp add: make_cred_def snprintf_def usr_limits Let_def)

lemma hex_digit_char: "unat n < 16 \<Longrightarrow> hex_digit n \<in> set ''0123456789abcdef''"
  unfolding hex_digit_def by (rule nth_mem) simp

lemma hex_chars: "set (hex_encode bs) \<subseteq> set ''0123456789abcdef''"
proof
  fix x assume "x \<in> set (hex_encode bs)"
  then obtain b where "x = hex_digit (drop_bit 4 b) \<or> x = hex_digit (b AND 0xf)"
    by (auto simp: hex_encode_def)
  then show "x \<in> set ''0123456789abcdef''"
    by (elim disjE)
      (simp_all only: hex_digit_char [OF nibbles(1) [of b]] hex_digit_char [OF nibbles(2) [of b]])
qed

lemma hex_plain:
  "CHR '','' \<notin> set (hex_encode bs)" "NL \<notin> set (hex_encode bs)"
  "NUL \<notin> set (hex_encode bs)" "CHR ''$'' \<notin> set (hex_encode bs)"
  using hex_chars [of bs] by auto

lemma make_cred_plain:
  "CHR '','' \<notin> set (make_cred rnd pw)" "NL \<notin> set (make_cred rnd pw)"
  "NUL \<notin> set (make_cred rnd pw)"
  by (simp_all add: make_cred_eq hash_password_def hex_plain)

lemma make_cred_not_NOPASS: "make_cred rnd pw \<noteq> NOPASS"
proof
  assume "make_cred rnd pw = NOPASS"
  then have "length (make_cred rnd pw) = length NOPASS" by simp
  then show False by (simp add: make_cred_eq NOPASS_def usr_limits)
qed

section \<open>The account table\<close>

lemma find_user_Some: "find_user n us = Some i \<Longrightarrow> i < length us \<and> u_name (us ! i) = n"
  by (induction us arbitrary: i) (auto split: if_splits)

lemma find_user_None: "find_user n us = None \<longleftrightarrow> n \<notin> u_name ` set us"
  by (induction us) auto

lemma find_user_append_new:
  "find_user n us = None \<Longrightarrow> find_user n (us @ [u]) = (if u_name u = n then Some (length us) else None)"
  by (induction us) (auto split: if_splits)

lemma find_user_cong: "map u_name us = map u_name vs \<Longrightarrow> find_user n us = find_user n vs"
proof (induction us arbitrary: vs)
  case (Cons u us)
  then obtain v vs' where "vs = v # vs'" by (cases vs) auto
  with Cons show ?case by auto
qed auto

lemma find_user_update:
  assumes "find_user n us = Some i" "u_name (f (us ! i)) = n"
  shows "find_user m (us[i := f (us ! i)]) = find_user m us"
proof (rule find_user_cong)
  show "map u_name (us[i := f (us ! i)]) = map u_name us"
    using assms find_user_Some [OF assms(1)] by (simp add: map_update) (metis list_update_id nth_map)
qed

text \<open>What a stored credential accepts.\<close>

definition cred_accepts :: "string \<Rightarrow> string option \<Rightarrow> bool" where
  "cred_accepts cred pwp \<longleftrightarrow> users_verify \<lparr>g_users = [\<lparr>u_name = [], u_cred = cred,
     u_home = [], u_role = ROLE_USER\<rparr>], g_udirty = False\<rparr> [] pwp"

lemma users_verify_cred:
  "find_user n (g_users us) = Some i \<Longrightarrow>
   users_verify us n pwp = cred_accepts (u_cred (g_users us ! i)) pwp"
  by (simp add: cred_accepts_def users_verify_def Let_def)

lemma cred_accepts_NOPASS [simp]: "cred_accepts NOPASS pwp"
  by (simp add: cred_accepts_def users_verify_def)

lemma make_cred_accepts:
  "cred_accepts (make_cred rnd pw) (Some pw') \<longleftrightarrow>
     hash_password (make_salt rnd) pw' = hash_password (make_salt rnd) pw"
proof -
  let ?s = "make_salt rnd"
  have "strchr_split (CHR ''$'') (make_cred rnd pw) = Some (hex_encode ?s, hash_password ?s pw)"
    unfolding make_cred_eq by (rule strchr_split_append) (rule hex_plain)
  moreover have "salt_decode (make_cred rnd pw) SALT_BYTES = Some ?s"
    using salt_decode_encode [of ?s] unfolding make_cred_eq by simp
  ultimately show ?thesis
    by (simp add: cred_accepts_def users_verify_def make_cred_not_NOPASS ct_diff_0)
qed


definition get_user :: "string \<Rightarrow> user list \<Rightarrow> user option" where
  "get_user n us = List.find (\<lambda>u. u_name u = n) us"

lemma find_user_get: "map_option (\<lambda>i. us ! i) (find_user n us) = get_user n us"
  by (induction us) (auto simp: get_user_def option.map_comp comp_def)

lemma get_user_append:
  "get_user n (us @ vs) = (case get_user n us of Some u \<Rightarrow> Some u | None \<Rightarrow> get_user n vs)"
  by (induction us) (auto simp: get_user_def)

lemma get_user_remove:
  assumes "i < length us" "u_name (us ! i) \<noteq> n"
  shows "get_user n (take i us @ drop (Suc i) us) = get_user n us"
  using assms
proof (induction us arbitrary: i)
  case (Cons u us)
  then show ?case by (cases i) (auto simp: get_user_def)
qed simp

lemma get_user_update:
  assumes "find_user n us = Some i" "u_name v = n"
  shows "get_user m (us[i := v]) = (if m = n then Some v else get_user m us)"
  using assms
proof (induction us arbitrary: i)
  case (Cons u us)
  then show ?case by (cases i) (auto simp: get_user_def split: if_splits)
qed simp

lemma verify_get:
  "users_verify us n pwp =
     (case get_user n (g_users us) of None \<Rightarrow> False | Some u \<Rightarrow> cred_accepts (u_cred u) pwp)"
proof (cases "find_user n (g_users us)")
  case None
  then show ?thesis using find_user_get [of "g_users us" n] by (simp add: users_verify_def)
next
  case (Some i)
  then show ?thesis using find_user_get [of "g_users us" n] users_verify_cred [OF Some, of pwp]
    by (metis option.case option.map(2))
qed

lemma find_user_get_Some: "find_user n us = Some i \<Longrightarrow> get_user n us = Some (us ! i)"
  using find_user_get [of us n] by simp

lemma find_user_get_None: "find_user n us = None \<Longrightarrow> get_user n us = None"
  using find_user_get [of us n] by simp

lemma is_admin_get:
  "users_is_admin us n = (\<exists>u. get_user n (g_users us) = Some u \<and> u_role u = ROLE_ADMIN)"
  by (cases "find_user n (g_users us)")
    (simp_all add: users_is_admin_def find_user_get_Some find_user_get_None)

lemma is_nopass_get:
  "users_is_nopass us n = (\<exists>u. get_user n (g_users us) = Some u \<and> u_cred u = NOPASS)"
  by (cases "find_user n (g_users us)")
    (simp_all add: users_is_nopass_def find_user_get_Some find_user_get_None)

lemma exists_get: "users_exists us n = (get_user n (g_users us) \<noteq> None)"
  by (cases "find_user n (g_users us)")
    (simp_all add: users_exists_def find_user_get_Some find_user_get_None)

text \<open>The account operations a session can perform on a loaded table.\<close>

datatype user_op =
    OpAdd "string option" "string option" bool bool
  | OpSetPassword string "string option"
  | OpSetAdmin string bool
  | OpSetNopass string
  | OpRemove "string option"

fun user_step :: "(nat \<Rightarrow> u32) \<Rightarrow> user_op \<Rightarrow> users \<Rightarrow> users" where
  "user_step rnd (OpAdd n pw adm np) us = snd (users_add rnd n pw adm np us)"
| "user_step rnd (OpSetPassword n pw) us = snd (users_set_password rnd n pw us)"
| "user_step rnd (OpSetAdmin n adm) us = snd (users_set_admin n adm us)"
| "user_step rnd (OpSetNopass n) us = snd (users_set_nopass n us)"
| "user_step rnd (OpRemove n) us = snd (users_remove n us)"

text \<open>The account \<open>root\<close> is there, is an administrator and has a password.\<close>

definition root_guarded :: "users \<Rightarrow> bool" where
  "root_guarded us \<longleftrightarrow> (\<exists>u. get_user ''root'' (g_users us) = Some u
     \<and> u_role u = ROLE_ADMIN \<and> u_cred u \<noteq> NOPASS)"

lemma root_guarded_step:
  assumes "root_guarded us"
  shows "root_guarded (user_step rnd op us)"
proof (cases op)
  case (OpAdd n pw adm np)
  then show ?thesis using assms
    by (auto simp: users_add_def root_guarded_def get_user_append split: option.splits)
next
  case (OpSetPassword n pw)
  then show ?thesis using assms
    by (auto simp: users_set_password_def root_guarded_def get_user_update find_user_Some
        find_user_get_Some make_cred_not_NOPASS split: option.splits)
next
  case (OpSetAdmin n adm)
  then show ?thesis using assms
    by (auto simp: users_set_admin_def root_guarded_def get_user_update find_user_Some
        find_user_get_Some split: option.splits)
next
  case (OpSetNopass n)
  then show ?thesis using assms
    by (auto simp: users_set_nopass_def root_guarded_def get_user_update find_user_Some
        find_user_get_Some split: option.splits)
next
  case (OpRemove n)
  then show ?thesis using assms
    by (auto simp: users_remove_def root_guarded_def get_user_remove find_user_Some
        split: option.splits)
qed

section \<open>Saving and loading accounts\<close>

definition user_fits :: "user \<Rightarrow> bool" where
  "user_fits u \<longleftrightarrow> length (u_name u) < USR_NAME_MAX \<and> length (u_cred u) < USR_CRED_MAX
     \<and> length (u_home u) < USR_HOME_MAX"

definition user_safe :: "user \<Rightarrow> bool" where
  "user_safe u \<longleftrightarrow> (u_name u = [] \<or> hd (u_name u) \<noteq> CHR ''#'')
     \<and> CHR '','' \<notin> set (u_name u @ u_cred u @ u_home u)
     \<and> NL \<notin> set (u_name u @ u_cred u @ u_home u) \<and> NUL \<notin> set (u_name u @ u_cred u @ u_home u)"

lemma user_line_text:
  assumes "user_safe u" "user_fits u"
  shows "user_line (user_text u) us = us\<lparr>g_users := g_users us @ [u]\<rparr>"
proof -
  define r where "r = (if u_role u = ROLE_ADMIN then ''admin'' else ''user'')"
  have 1: "strchr_split (CHR '','') (user_text u) =
      Some (u_name u, u_cred u @ CHR '','' # u_home u @ CHR '','' # r)"
    using strchr_split_append [of "CHR '',''" "u_name u"] assms(1)
    by (simp add: user_safe_def user_text_def r_def)
  have 2: "strchr_split (CHR '','') (u_cred u @ CHR '','' # u_home u @ CHR '','' # r) =
      Some (u_cred u, u_home u @ CHR '','' # r)"
    using assms(1) by (intro strchr_split_append) (simp add: user_safe_def)
  have 3: "strchr_split (CHR '','') (u_home u @ CHR '','' # r) = Some (u_home u, r)"
    using assms(1) by (intro strchr_split_append) (simp add: user_safe_def)
  have "user_text u \<noteq> [] \<and> hd (user_text u) \<noteq> CHR ''#''"
    using assms(1) by (cases "u_name u") (auto simp: user_text_def user_safe_def)
  moreover have "(if r = ''admin'' then ROLE_ADMIN else ROLE_USER) = u_role u"
    by (cases "u_role u") (auto simp: r_def)
  ultimately show ?thesis using assms(2)
    by (simp add: user_line_def 1 2 3 user_fits_def)
qed

lemma user_lines_fold:
  assumes "\<forall>u \<in> set us. user_safe u \<and> user_fits u"
  shows "fold user_line (map user_text us) s = s\<lparr>g_users := g_users s @ us\<rparr>"
  using assms by (induction us arbitrary: s) (simp_all add: user_line_text)

lemma users_load_table:
  assumes "\<forall>u \<in> set us. user_safe u \<and> user_fits u" "length us \<le> USR_MAX"
  shows "g_users (users_load (Some (concat (map (\<lambda>u. user_text u @ [NL]) us))) s) = us"
proof -
  have plain: "plain_line USR_LINE_CAP (user_text u)" if "u \<in> set us" for u
    using that assms(1)
    by (cases "u_role u") (fastforce simp: plain_line_def user_text_def user_safe_def user_fits_def
        USR_LINE_CAP_def usr_limits)+
  have "concat (map (\<lambda>u. user_text u @ [NL]) us) = unlines_nl (map user_text us)"
    by (simp add: unlines_nl_def comp_def)
  moreover have "line_loop USR_LINE_CAP (\<lambda>s. length (g_users s) < USR_MAX) user_line
      (unlines_nl (map user_text us)) (s\<lparr>g_users := []\<rparr>) =
      fold user_line (map user_text us) (s\<lparr>g_users := []\<rparr>)"
  proof (rule line_loop_unlines [where P = "\<lambda>s. length (g_users s) < USR_MAX"])
    fix k assume "k < length (map user_text us)"
    moreover have "fold user_line (take k (map user_text us)) (s\<lparr>g_users := []\<rparr>) =
        s\<lparr>g_users := take k us\<rparr>"
      using user_lines_fold [of "take k us" "s\<lparr>g_users := []\<rparr>"] assms(1)
      by (auto simp: take_map dest: in_set_takeD)
    ultimately show "length (g_users (fold user_line (take k (map user_text us)) (s\<lparr>g_users := []\<rparr>)))
        < USR_MAX" using assms(2) by simp
  qed (use plain in auto)
  ultimately show ?thesis using user_lines_fold [OF assms(1), of "s\<lparr>g_users := []\<rparr>"]
    by (simp add: users_load_def)
qed


section \<open>Properties\<close>

lemma hex_encode_inj:
  assumes "hex_encode a = hex_encode b"
  shows "a = b"
proof -
  have "length (hex_encode a) = length (hex_encode b)" using assms by simp
  then have "length a = length b" by simp
  with salt_decode_encode [of a "[]"] salt_decode_encode [of b "[]"] assms show ?thesis by simp
qed

lemma hash_password_sha: "hash_password salt pw = hex_encode (sha256 (salt @ str_bytes pw))"
  by (simp add: hash_password_def sha256_def sha256_update_append)

text \<open>
  C8.  After \<open>users_add\<close> with a password, that password signs the new account in, any
  other password that does has the same SHA-256 under the account's salt, and no other
  account's sign-in changes.
\<close>

theorem users_add_verify:
  assumes "users_add rnd (Some n) (Some pw) admin False us = (True, us')"
  shows "users_verify us' n (Some pw)
    \<and> (\<forall>pw'. users_verify us' n (Some pw') \<longrightarrow>
          sha256 (make_salt rnd @ str_bytes pw') = sha256 (make_salt rnd @ str_bytes pw))
    \<and> (\<forall>m p. m \<noteq> n \<longrightarrow> users_verify us' m p = users_verify us m p)"
proof -
  from assms have none: "get_user n (g_users us) = None"
    by (auto simp: users_add_def find_user_get_None split: if_splits)
  from assms obtain u where us': "g_users us' = g_users us @ [u]"
    and u: "u_name u = n" "u_cred u = make_cred rnd pw"
    by (auto simp: users_add_def split: if_splits)
  have "get_user n (g_users us') = Some u"
    using none u unfolding us' by (simp add: get_user_append) (simp add: get_user_def)
  moreover have "get_user m (g_users us') = get_user m (g_users us)" if "m \<noteq> n" for m
    using that u unfolding us' get_user_append by (simp add: get_user_def split: option.splits)
  ultimately show ?thesis using u(2)
    by (auto simp: verify_get make_cred_accepts hash_password_sha dest: hex_encode_inj)
qed

theorem users_add_verify_witness:
  "users_verify (snd (users_add (\<lambda>i. 7) (Some ''ada'') (Some ''pw'') True False
      \<lparr>g_users = [], g_udirty = False\<rparr>)) ''ada'' (Some ''pw'')"
proof -
  let ?us = "\<lparr>g_users = [], g_udirty = False\<rparr>"
  have "users_add (\<lambda>i. 7) (Some ''ada'') (Some ''pw'') True False ?us =
      (True, snd (users_add (\<lambda>i. 7) (Some ''ada'') (Some ''pw'') True False ?us))"
    by (simp add: users_add_def usr_limits)
  from users_add_verify [OF this] show ?thesis by blast
qed

text \<open>
  C9.  No sequence of account operations removes \<open>root\<close>, takes its administrator role away
  or lets it sign in without a password.
\<close>

theorem root_stays_guarded:
  assumes "root_guarded us"
  shows "root_guarded (fold (user_step rnd) ops us)"
  using assms by (induction ops arbitrary: us) (simp_all add: root_guarded_step)

theorem root_stays_guarded_witness:
  "root_guarded (fold (user_step (\<lambda>_. 0))
     [OpRemove (Some ''root''), OpSetAdmin ''root'' False, OpSetNopass ''root'']
     \<lparr>g_users = [\<lparr>u_name = ''root'', u_cred = ''x'', u_home = ''/'', u_role = ROLE_ADMIN\<rparr>],
      g_udirty = False\<rparr>)"
  by (rule root_stays_guarded) (simp add: root_guarded_def get_user_def NOPASS_def)

text \<open>
  Saving and loading the accounts gives the same table back, provided every field
  fits its array and no name, credential or home holds a comma, a newline or a NUL, nor a
  name a leading hash.
\<close>

theorem users_save_load:
  assumes "\<forall>u \<in> set (g_users us). user_safe u \<and> user_fits u" "length (g_users us) \<le> USR_MAX"
    and "snd (users_serialize us cap buf) < cap" "length buf = cap"
  shows "g_users (users_load (Some (cstr (fst (users_serialize us cap buf)))) us2) = g_users us"
proof -
  let ?rs = "map (\<lambda>u. user_text u @ [NL]) (g_users us)"
  have "length (concat ?rs) < cap"
    using assms(3) by (simp add: users_serialize_def serialize_into_def split_beta ser_loop_need)
  moreover have "NUL \<notin> set (concat ?rs)"
    using assms(1) by (auto simp: user_text_def user_safe_def)
  ultimately have "cstr (fst (users_serialize us cap buf)) = concat ?rs"
    unfolding users_serialize_def using assms(4) by (intro serialize_fits(1))
  then show ?thesis using users_load_table [OF assms(1,2)] by simp
qed

theorem users_save_load_witness:
  "g_users (users_load (Some (cstr (fst (users_serialize
      \<lparr>g_users = [\<lparr>u_name = ''g'', u_cred = NOPASS, u_home = ''/'', u_role = ROLE_USER\<rparr>],
       g_udirty = True\<rparr> 20 (replicate 20 CHR ''x''))))) \<lparr>g_users = [], g_udirty = False\<rparr>)
   = [\<lparr>u_name = ''g'', u_cred = NOPASS, u_home = ''/'', u_role = ROLE_USER\<rparr>]"
  using users_save_load [of
      "\<lparr>g_users = [\<lparr>u_name = ''g'', u_cred = NOPASS, u_home = ''/'', u_role = ROLE_USER\<rparr>],
        g_udirty = True\<rparr>" 20 "replicate 20 CHR ''x''" "\<lparr>g_users = [], g_udirty = False\<rparr>"]
  by (simp add: user_safe_def user_fits_def usr_limits NOPASS_def users_serialize_def
      serialize_into_def user_text_def)

text \<open>
  An administrator that accepts any password is refused by \<open>users_set_nopass\<close> and yet
  reachable: by promoting an account that already has no password, and by creating one
  with both flags.
\<close>

theorem nopass_admin_reachable:
  "let us0 = \<lparr>g_users = [], g_udirty = False\<rparr>;
       us1 = snd (users_set_admin ''ann'' True (snd (users_add rnd (Some ''ann'') None False True us0)));
       us2 = snd (users_add rnd (Some ''bob'') None True True us0)
   in users_is_admin us1 ''ann'' \<and> users_verify us1 ''ann'' None
      \<and> \<not> fst (users_set_nopass ''ann'' us1)
      \<and> users_is_admin us2 ''bob'' \<and> users_verify us2 ''bob'' None"
  by (simp add: users_add_def users_set_admin_def users_set_nopass_def users_is_admin_def
      users_verify_def usr_limits)

text \<open>
  C18.  A comma in an account name is accepted and corrupts the file: the account
  \<open>z,NOPASS,/\<close>, created with a password, is after saving and loading an account \<open>z\<close>
  that signs in without one.
\<close>

theorem comma_name_loses_password:
  assumes "pw \<noteq> []"
  shows "let (ok, us) = users_add rnd (Some ''z,NOPASS,/'') (Some pw) False False
               \<lparr>g_users = [], g_udirty = False\<rparr>;
             us' = users_load (Some (concat (map (\<lambda>u. user_text u @ [NL]) (g_users us)))) us
         in ok \<and> \<not> users_exists us ''z'' \<and> users_verify us' ''z'' None
            \<and> \<not> users_exists us' ''z,NOPASS,/''"
proof -
  define cred where "cred = make_cred rnd pw"
  let ?u = "\<lparr>u_name = ''z,NOPASS,/'', u_cred = cred, u_home = ''/home/z,NOPASS,//'', u_role = ROLE_USER\<rparr>"
  let ?v = "\<lparr>u_name = ''z'', u_cred = NOPASS, u_home = ''/'', u_role = ROLE_USER\<rparr>"
  have add: "users_add rnd (Some ''z,NOPASS,/'') (Some pw) False False
      \<lparr>g_users = [], g_udirty = False\<rparr> = (True, \<lparr>g_users = [?u], g_udirty = True\<rparr>)"
    using assms by (simp add: users_add_def cred_def usr_limits reg_note_home_def snprintf_def)
  have cl: "length cred = 97" by (simp add: cred_def make_cred_eq usr_limits)
  have cp: "CHR '','' \<notin> set cred" "NL \<notin> set cred" "NUL \<notin> set cred"
    by (simp_all add: cred_def make_cred_plain)
  define t where "t = user_text ?u"
  have "plain_line USR_LINE_CAP t"
    using cl cp by (simp add: t_def plain_line_def user_text_def USR_LINE_CAP_def usr_limits)
  note loop = line_loop_line [OF this, where rest = "[]"]
  have line: "user_line t s = s\<lparr>g_users := g_users s @ [?v]\<rparr>" for s
    by (simp add: t_def user_line_def user_text_def strchr_split_def usr_limits NOPASS_def)
  have "g_users (users_load (Some (t @ [NL])) \<lparr>g_users = [?u], g_udirty = True\<rparr>) = [?v]"
    unfolding users_load_def Let_def option.case loop line by (simp add: USR_MAX_def)
  moreover have "concat (map (\<lambda>u. user_text u @ [NL]) [?u]) = t @ [NL]" by (simp add: t_def)
  ultimately show ?thesis unfolding add Let_def
    by (simp add: exists_get verify_get get_user_def)
qed

theorem comma_name_loses_password_witness:
  "let (ok, us) = users_add (\<lambda>_. 0) (Some ''z,NOPASS,/'') (Some ''pw'') False False
               \<lparr>g_users = [], g_udirty = False\<rparr>;
       us' = users_load (Some (concat (map (\<lambda>u. user_text u @ [NL]) (g_users us)))) us
   in ok \<and> \<not> users_exists us ''z'' \<and> users_verify us' ''z'' None
      \<and> \<not> users_exists us' ''z,NOPASS,/''"
  by (rule comma_name_loses_password) simp

end
