(* ===== verification/Persist.thy ===== *)
theory Persist
  imports Registry Users
begin

text \<open>
  \<open>os/core/persist.cpp\<close>: loading and saving the registry, the accounts and the signed-in
  user's settings, with a shadow copy of each file.  The filesystem is a parameter: the
  record \<open>storage\<close> holds the calls persist.cpp makes on it (and whether \<open>malloc\<close>
  grants a buffer), and the locale \<open>file_store\<close> states what is relied on when writes
  succeed.  The rest of the state is the registry, the account table and the repair report.
\<close>

section \<open>Model\<close>

record 'fs storage =
  st_read :: "'fs \<Rightarrow> string \<Rightarrow> nat \<Rightarrow> string"
  st_write :: "'fs \<Rightarrow> string \<Rightarrow> string \<Rightarrow> 'fs"
  st_mkdir :: "'fs \<Rightarrow> string \<Rightarrow> 'fs"
  st_malloc :: "nat \<Rightarrow> bool"

record repair =
  registry_restored :: bool
  registry_lost :: bool
  users_restored :: bool
  users_lost :: bool

record 'fs device =
  d_fs :: 'fs
  d_reg :: registry
  d_usr :: users
  d_repair :: repair

definition CFG_BUF :: nat where "CFG_BUF = 4096"
definition REG_FILE :: string where "REG_FILE = ''/os/registry.cfg''"
definition USERS_FILE :: string where "USERS_FILE = ''/os/users.cfg''"
definition REG_FILE_OLD :: string where "REG_FILE_OLD = ''registry.cfg''"
definition USERS_FILE_OLD :: string where "USERS_FILE_OLD = ''users.cfg''"
definition REG_BACKUP :: string where "REG_BACKUP = ''/os/registry.bak''"
definition USERS_BACKUP :: string where "USERS_BACKUP = ''/os/users.bak''"

lemmas cfg_paths = REG_FILE_def USERS_FILE_def REG_FILE_OLD_def USERS_FILE_OLD_def
  REG_BACKUP_def USERS_BACKUP_def

text \<open>\<open>load_one\<close>: the loader runs on the table \<open>t\<close> when the file held anything.\<close>

definition load_one ::
  "'fs storage \<Rightarrow> 'fs \<Rightarrow> string \<Rightarrow> (string option \<Rightarrow> 't \<Rightarrow> 't) \<Rightarrow> 't \<Rightarrow> bool \<times> 't" where
  "load_one st fs file loader t =
     (if \<not> st_malloc st CFG_BUF then (False, t)
      else let data = st_read st fs file (CFG_BUF - 1)
           in (data \<noteq> [], if data \<noteq> [] then loader (Some data) t else t))"

text \<open>
  \<open>save_one\<close>: ask the serializer for the length with no buffer, then serialize into a
  buffer of that size plus one and write what it returned.  The buffer's initial
  contents are arbitrary; the model fills it with NULs.
\<close>

definition save_one ::
  "'fs storage \<Rightarrow> string \<Rightarrow> (nat \<Rightarrow> string \<Rightarrow> string \<times> nat) \<Rightarrow> 'fs \<Rightarrow> 'fs" where
  "save_one st file ser fs =
     (let need = snd (ser 0 [])
      in if \<not> st_malloc st (need + 1) then fs
         else let (buf, n) = ser (need + 1) (replicate (need + 1) NUL)
              in st_write st fs file (take n buf))"

text \<open>
  The result: the filesystem, the table, and the flags \<open>restored\<close> and \<open>lost\<close>.
\<close>

definition load_healing ::
  "'fs storage \<Rightarrow> string \<Rightarrow> string \<Rightarrow> string \<Rightarrow> (string option \<Rightarrow> 't \<Rightarrow> 't) \<Rightarrow> ('t \<Rightarrow> nat) \<Rightarrow>
   ('t \<Rightarrow> nat \<Rightarrow> string \<Rightarrow> string \<times> nat) \<Rightarrow> 'fs \<Rightarrow> 't \<Rightarrow> 'fs \<times> 't \<times> bool \<times> bool" where
  "load_healing st file old_file backup loader count ser fs t =
     (let (got, t1) = load_one st fs file loader t;
          t2 = (if got then t1 else snd (load_one st fs old_file loader t1))
      in if 0 < count t2 then (save_one st backup (ser t2) fs, t2, False, False)
         else let t3 = snd (load_one st fs backup loader t2)
              in if 0 < count t3 then (save_one st file (ser t3) fs, t3, True, False)
                 else (fs, t3, False, True))"

definition no_repair :: repair where
  "no_repair = \<lparr>registry_restored = False, registry_lost = False,
     users_restored = False, users_lost = False\<rparr>"

definition persist_load_all :: "'fs storage \<Rightarrow> 'fs device \<Rightarrow> 'fs device" where
  "persist_load_all st d =
     (let (fs1, r, rr, rl) = load_healing st REG_FILE REG_FILE_OLD REG_BACKUP
             reg_load reg_count reg_serialize (d_fs d) (d_reg d);
          (fs2, u, ur, ul) = load_healing st USERS_FILE USERS_FILE_OLD USERS_BACKUP
             users_load users_count users_serialize fs1 (d_usr d)
      in d\<lparr>d_fs := fs2, d_reg := r, d_usr := u,
           d_repair := \<lparr>registry_restored = rr, registry_lost = rl,
                        users_restored = ur, users_lost = ul\<rparr>\<rparr>)"

definition persist_save_registry :: "'fs storage \<Rightarrow> 'fs device \<Rightarrow> 'fs device" where
  "persist_save_registry st d =
     d\<lparr>d_fs := save_one st REG_BACKUP (reg_serialize (d_reg d))
                (save_one st REG_FILE (reg_serialize (d_reg d)) (d_fs d)),
       d_reg := reg_mark_clean (d_reg d)\<rparr>"

definition persist_save_users :: "'fs storage \<Rightarrow> 'fs device \<Rightarrow> 'fs device" where
  "persist_save_users st d =
     d\<lparr>d_fs := save_one st USERS_BACKUP (users_serialize (d_usr d))
                (save_one st USERS_FILE (users_serialize (d_usr d)) (d_fs d)),
       d_usr := users_mark_clean (d_usr d)\<rparr>"

definition scope_path :: "string \<Rightarrow> nat \<Rightarrow> string option" where
  "scope_path user cap =
     (if user = [] then None
      else if \<exists>c \<in> set user. c = CHR ''/'' \<or> c = CHR 0x5C \<or> c = CHR '':'' then None
      else Some (snprintf cap (''/home/'' @ user @ ''/settings.cfg'')))"

definition persist_save_scope :: "'fs storage \<Rightarrow> 'fs device \<Rightarrow> 'fs device" where
  "persist_save_scope st d =
     (let user = reg_scope_user (d_reg d)
      in case scope_path user 64 of None \<Rightarrow> d | Some path \<Rightarrow>
           let fs1 = st_mkdir st (d_fs d) (snprintf 64 (''/home/'' @ user))
           in d\<lparr>d_fs := save_one st path (reg_scope_serialize (d_reg d)) fs1,
                d_reg := reg_scope_mark_clean (d_reg d)\<rparr>)"

definition persist_save_dirty :: "'fs storage \<Rightarrow> 'fs device \<Rightarrow> 'fs device" where
  "persist_save_dirty st d =
     (let d1 = (if reg_dirty (d_reg d) then persist_save_registry st d else d);
          d2 = (if users_dirty (d_usr d1) then persist_save_users st d1 else d1)
      in if reg_scope_dirty (d_reg d2) then persist_save_scope st d2 else d2)"

definition persist_scope_leave :: "'fs storage \<Rightarrow> 'fs device \<Rightarrow> 'fs device" where
  "persist_scope_leave st d =
     (let d1 = (if reg_scope_dirty (d_reg d) then persist_save_scope st d else d)
      in d1\<lparr>d_reg := reg_scope_clear (d_reg d1)\<rparr>)"

definition persist_scope_enter :: "'fs storage \<Rightarrow> string option \<Rightarrow> 'fs device \<Rightarrow> 'fs device" where
  "persist_scope_enter st userp d =
     (let d1 = persist_scope_leave st d
      in case userp of None \<Rightarrow> d1 | Some user \<Rightarrow>
         if user = [] then d1
         else case scope_path user 64 of None \<Rightarrow> d1 | Some path \<Rightarrow>
           let r1 = reg_scope_load None (d_reg d1);
               r2 = snd (load_one st (d_fs d1) path reg_scope_load r1);
               r3 = reg_scope_set (Some user) r2
           in d1\<lparr>d_reg := reg_scope_mark_clean r3\<rparr>)"

section \<open>Interfaces\<close>

text \<open>What is relied on of the filesystem when there is memory and writes succeed.\<close>

locale file_store =
  fixes st :: "'fs storage"
  assumes malloc_ok: "st_malloc st n"
    and read_written: "st_read st (st_write st fs f t) f n = take n t"
    and read_other: "f \<noteq> g \<Longrightarrow> st_read st (st_write st fs f t) g n = st_read st fs g n"
    and read_mkdir: "st_read st (st_mkdir st fs p) g n = st_read st fs g n"

text \<open>
  What a table promises the loader: serializing and loading gives its contents back, and
  only tables with entries count.  \<open>txt\<close> is the text it is saved as.
\<close>

locale text_table =
  fixes loader :: "string option \<Rightarrow> 't \<Rightarrow> 't"
    and cnt :: "'t \<Rightarrow> nat"
    and ser :: "'t \<Rightarrow> nat \<Rightarrow> string \<Rightarrow> string \<times> nat"
    and contents :: "'t \<Rightarrow> 'c"
    and saved :: "'t \<Rightarrow> string"
    and good :: "'t \<Rightarrow> bool"
  assumes ser_need: "snd (ser t cap buf) = length (saved t)"
    and ser_fits: "good t \<Longrightarrow> length (saved t) < cap \<Longrightarrow> length buf = cap \<Longrightarrow>
      take (length (saved t)) (fst (ser t cap buf)) = saved t"
    and load_saved: "good t \<Longrightarrow> contents (loader (Some (saved t)) t') = contents t"
    and count_contents: "contents t = contents t' \<Longrightarrow> cnt t = cnt t'"
    and saved_contents: "contents t = contents t' \<Longrightarrow> saved t = saved t'"
    and good_contents: "contents t = contents t' \<Longrightarrow> good t = good t'"
    and saved_Nil: "saved t = [] \<Longrightarrow> cnt t = 0"

locale persisted_table = file_store st + text_table loader cnt ser contents saved good
  for st :: "'fs storage" and loader :: "string option \<Rightarrow> 't \<Rightarrow> 't" and cnt ser
    and contents :: "'t \<Rightarrow> 'c" and saved good
begin

lemma save_one_read:
  assumes "good t"
  shows "st_read st (save_one st f (ser t) fs) g n =
     (if g = f then take n (saved t) else st_read st fs g n)"
  using ser_fits [OF assms, of "length (saved t) + 1" "replicate (length (saved t) + 1) NUL"]
  by (auto simp: save_one_def Let_def malloc_ok ser_need split_beta read_written read_other)

lemma load_one_reads:
  "load_one st fs f loader t =
     (let data = st_read st fs f (CFG_BUF - 1)
      in (data \<noteq> [], if data \<noteq> [] then loader (Some data) t else t))"
  by (simp add: load_one_def malloc_ok)

lemma load_one_saved:
  assumes "good t" "0 < cnt t" "length (saved t) < CFG_BUF"
    and "st_read st fs f (CFG_BUF - 1) = take (CFG_BUF - 1) (saved t)"
  shows "\<exists>t1. load_one st fs f loader t0 = (True, t1) \<and> contents t1 = contents t"
proof -
  have "take (CFG_BUF - 1) (saved t) = saved t" using assms(3) by simp
  moreover have "saved t \<noteq> []" using assms(2) saved_Nil by fastforce
  ultimately show ?thesis using assms load_saved
    by (simp add: load_one_reads Let_def)
qed

text \<open>A good primary file is loaded, and the shadow is refreshed from it.\<close>

lemma heal_primary:
  assumes "good t" "0 < cnt t" "length (saved t) < CFG_BUF" "file \<noteq> backup"
    and "st_read st fs file (CFG_BUF - 1) = take (CFG_BUF - 1) (saved t)"
  shows "\<exists>fs' t'. load_healing st file old backup loader cnt ser fs t0 = (fs', t', False, False)
     \<and> contents t' = contents t
     \<and> st_read st fs' backup (CFG_BUF - 1) = saved t
     \<and> (\<forall>g. g \<noteq> backup \<longrightarrow> st_read st fs' g = st_read st fs g)"
proof -
  from load_one_saved [OF assms(1-3,5)] obtain t1 where
    t1: "load_one st fs file loader t0 = (True, t1)" "contents t1 = contents t" by blast
  then have "0 < cnt t1" "good t1" "saved t1 = saved t"
    using assms count_contents good_contents saved_contents by metis+
  then show ?thesis using t1 assms(3) save_one_read [of t1 backup fs]
    by (simp add: load_healing_def Let_def fun_eq_iff)
qed

text \<open>A primary that yields nothing is restored from the shadow and written back.\<close>

lemma heal_backup:
  assumes "good t" "0 < cnt t" "length (saved t) < CFG_BUF" "file \<noteq> backup"
    and "st_read st fs backup (CFG_BUF - 1) = take (CFG_BUF - 1) (saved t)"
    and "st_read st fs old (CFG_BUF - 1) = []"
    and "cnt (loader (Some (st_read st fs file (CFG_BUF - 1))) t0) = 0" "cnt t0 = 0"
  shows "\<exists>fs' t'. load_healing st file old backup loader cnt ser fs t0 = (fs', t', True, False)
     \<and> contents t' = contents t \<and> st_read st fs' file (CFG_BUF - 1) = saved t
     \<and> (\<forall>g. g \<noteq> file \<longrightarrow> st_read st fs' g = st_read st fs g)"
proof -
  define t2 where "t2 = (let (got, t1) = load_one st fs file loader t0
      in if got then t1 else snd (load_one st fs old loader t1))"
  have t2: "cnt t2 = 0"
    using assms(6-8) by (auto simp: t2_def load_one_reads Let_def)
  from load_one_saved [OF assms(1-3,5)] obtain t3 where
    t3: "load_one st fs backup loader t2 = (True, t3)" "contents t3 = contents t" by blast
  then have c: "0 < cnt t3" "good t3" "saved t3 = saved t"
    using assms count_contents good_contents saved_contents by metis+
  have "load_healing st file old backup loader cnt ser fs t0 =
      (save_one st file (ser t3) fs, t3, True, False)"
    unfolding load_healing_def using t2 t3 c(1)
    by (simp add: Let_def t2_def split_beta)
  then show ?thesis using t3 assms(3) c save_one_read [of t3 "file" fs]
    by (simp add: fun_eq_iff)
qed

end


section \<open>The tables behind the interface\<close>

definition reg_saved :: "registry \<Rightarrow> string" where
  "reg_saved r = concat (map entry_line (g_reg r))"

definition reg_good :: "registry \<Rightarrow> bool" where
  "reg_good r \<longleftrightarrow> tab_wf REG_MAX (g_reg r) \<and> (\<forall>e \<in> set (g_reg r). file_safe e)"

definition users_saved :: "users \<Rightarrow> string" where
  "users_saved us = concat (map (\<lambda>u. user_text u @ [NL]) (g_users us))"

definition users_good :: "users \<Rightarrow> bool" where
  "users_good us \<longleftrightarrow> length (g_users us) \<le> USR_MAX
     \<and> (\<forall>u \<in> set (g_users us). user_safe u \<and> user_fits u)"

interpretation reg_text: text_table reg_load reg_count reg_serialize g_reg reg_saved reg_good
proof unfold_locales
  fix t cap buf show "snd (reg_serialize t cap buf) = length (reg_saved t)"
    by (simp add: reg_serialize_def reg_saved_def serialize_need)
next
  fix t cap and buf :: string assume "length (reg_saved t) < cap" "length buf = cap"
  then show "take (length (reg_saved t)) (fst (reg_serialize t cap buf)) = reg_saved t"
    unfolding reg_serialize_def reg_saved_def by (rule serialize_take)
next
  fix t t' assume "reg_good t"
  then show "g_reg (reg_load (Some (reg_saved t)) t') = g_reg t"
    unfolding reg_saved_def reg_good_def by (intro reg_load_table) auto
next
  fix t assume "reg_saved t = []" then show "reg_count t = 0"
    by (cases "g_reg t") (auto simp: reg_saved_def reg_count_def entry_line_def)
qed (simp_all add: reg_count_def reg_saved_def reg_good_def)

interpretation users_txt: text_table users_load users_count users_serialize g_users users_saved users_good
proof unfold_locales
  fix t cap buf show "snd (users_serialize t cap buf) = length (users_saved t)"
    by (simp add: users_serialize_def users_saved_def serialize_need)
next
  fix t cap and buf :: string assume "length (users_saved t) < cap" "length buf = cap"
  then show "take (length (users_saved t)) (fst (users_serialize t cap buf)) = users_saved t"
    unfolding users_serialize_def users_saved_def by (rule serialize_take)
next
  fix t t' assume "users_good t"
  then show "g_users (users_load (Some (users_saved t)) t') = g_users t"
    unfolding users_saved_def users_good_def by (intro users_load_table) auto
next
  fix t assume "users_saved t = []" then show "users_count t = 0"
    by (cases "g_users t") (auto simp: users_saved_def users_count_def)
qed (simp_all add: users_count_def users_saved_def users_good_def)

text \<open>The accounts always fit the load buffer.\<close>

lemma sum_list_bound: "(\<And>x. x \<in> set xs \<Longrightarrow> f x \<le> b) \<Longrightarrow> sum_list (map f xs) \<le> length xs * (b :: nat)"
  by (induction xs) (auto intro!: add_mono)

lemma users_saved_fits:
  assumes "users_good us"
  shows "length (users_saved us) < CFG_BUF"
proof -
  have "length (user_text u @ [NL]) \<le> 170" if "u \<in> set (g_users us)" for u
    using that assms by (auto simp: users_good_def user_fits_def user_text_def usr_limits)
  then have "length (users_saved us) \<le> length (g_users us) * 170"
    unfolding users_saved_def length_concat map_map comp_def by (rule sum_list_bound)
  also have "\<dots> < CFG_BUF" using assms by (simp add: users_good_def usr_limits CFG_BUF_def)
  finally show ?thesis .
qed

text \<open>A store whose writes succeed.\<close>

definition ram_store :: "(string \<Rightarrow> string) storage" where
  "ram_store = \<lparr>st_read = (\<lambda>m f n. take n (m f)), st_write = (\<lambda>m f t. m(f := t)),
     st_mkdir = (\<lambda>m p. m), st_malloc = (\<lambda>_. True)\<rparr>"

interpretation ram: file_store ram_store
  by unfold_locales (auto simp: ram_store_def)


interpretation ram_reg: persisted_table ram_store reg_load reg_count reg_serialize g_reg reg_saved reg_good
  ..

interpretation ram_users: persisted_table ram_store users_load users_count users_serialize
    g_users users_saved users_good
  ..

text \<open>On any store that keeps its laws both tables are persisted tables.\<close>

lemma persisted_registry:
  "file_store st \<Longrightarrow> persisted_table st reg_load reg_count reg_serialize g_reg reg_saved reg_good"
  by (intro persisted_table.intro reg_text.text_table_axioms)

lemma persisted_users:
  "file_store st \<Longrightarrow>
   persisted_table st users_load users_count users_serialize g_users users_saved users_good"
  by (intro persisted_table.intro users_txt.text_table_axioms)

lemmas reg_save_read = persisted_table.save_one_read [OF persisted_registry]
lemmas users_save_read = persisted_table.save_one_read [OF persisted_users]

lemma saved_reads:
  assumes "file_store st" "reg_good (d_reg d)" "users_good (d_usr d)"
  shows "st_read st (d_fs (persist_save_users st (persist_save_registry st d))) g n =
     (if g = REG_FILE \<or> g = REG_BACKUP then take n (reg_saved (d_reg d))
      else if g = USERS_FILE \<or> g = USERS_BACKUP then take n (users_saved (d_usr d))
      else st_read st (d_fs d) g n)"
  using assms
  by (auto simp: persist_save_users_def persist_save_registry_def reg_save_read users_save_read cfg_paths)

section \<open>What a load can keep\<close>

lemma put_entry_text_length:
  assumes "put_entry cap k v es = Some es'"
  shows "length (concat (map entry_line es')) \<le>
     length (concat (map entry_line es)) + length (entry_line (k, v))"
proof (cases "find_entry k es")
  case None
  then show ?thesis using assms by (auto simp: put_entry_def split: if_splits)
next
  case (Some i)
  then have i: "i < length es" "fst (es ! i) = k" and es': "es' = es[i := (k, v)]"
    using assms find_entry_Some by (auto simp: put_entry_def)
  have split: "es = take i es @ (es ! i) # drop (Suc i) es" using i by (rule_tac id_take_nth_drop)
  show ?thesis unfolding es' upd_conv_take_nth_drop [OF i(1)]
    by (subst (3) split) (simp add: entry_line_def)
qed

lemma load_line_length:
  "length (reg_saved (load_line l r)) \<le> length (reg_saved r) + length l + 1"
proof (cases "load_line l r = r")
  case False
  then obtain k v where kv: "strchr_split (CHR ''='') l = Some (k, v)"
    and l: "load_line l r = snd (device_put k v r)"
    by (auto simp: load_line_def split: if_splits option.splits)
  have "l = k @ CHR ''='' # v" using strchr_split_SomeD [OF kv] by simp
  then have "length (entry_line (k, v)) = length l + 1" by (simp add: entry_line_def)
  then show ?thesis unfolding l
    by (auto simp: device_put_def reg_saved_def dest: put_entry_text_length split: option.splits)
qed simp

lemma line_loop_length:
  "length (reg_saved (line_loop cap P load_line inp r)) \<le>
     length (reg_saved r) + (if inp = [] then 0 else length inp + 1)"
proof (induction "length inp" arbitrary: inp r rule: less_induct)
  case less
  let ?n = "length (takeWhile (\<lambda>c. c \<noteq> NL) inp)" and ?r = "load_line (line_of cap inp) r"
  have n: "?n \<le> length inp" by (rule length_takeWhile_le)
  have "length (line_of cap inp) \<le> ?n"
    unfolding line_of_def cstr_def by (rule order_trans [OF length_takeWhile_le]) simp
  with load_line_length [of "line_of cap inp" r]
  have step: "length (reg_saved ?r) \<le> length (reg_saved r) + ?n + 1" by linarith
  show ?case
  proof (cases "inp = [] \<or> \<not> P r")
    case False
    then have "length (after_line inp) < length inp" by (simp add: after_line_def)
    from less [OF this, of ?r] step n False show ?thesis
      by (subst line_loop.simps) (auto simp: after_line_def split: if_splits)
  qed (subst line_loop.simps, auto)
qed

lemma reg_load_length: "length (reg_saved (reg_load (Some inp) r)) \<le> length inp + 1"
  using line_loop_length [of LINE_CAP "\<lambda>_. True" inp "r\<lparr>g_reg := []\<rparr>"]
  by (auto simp: reg_load_def reg_saved_def split: if_splits)

section \<open>One user's settings\<close>

lemma scope_line_entry:
  assumes "file_safe e" "entry_fits (fst e) (snd e)" "reg_is_user_key (fst e)"
    and "length (g_user r) < REG_USER_MAX" "fst e \<notin> fst ` set (g_user r)"
  shows "scope_line (entry_text e) (s, r) = (s, r\<lparr>g_user := g_user r @ [e]\<rparr>)"
proof -
  have "strchr_split (CHR ''='') (entry_text e) = Some (fst e, snd e)"
    using assms by (simp add: entry_text_def file_safe_def strchr_split_append)
  moreover have "entry_text e \<noteq> []" "hd (entry_text e) \<noteq> CHR ''#''"
    using assms(1) by (auto simp: entry_text_def file_safe_def)
  ultimately show ?thesis using assms
    by (simp add: scope_line_def entry_fits_def find_entry_None [THEN iffD2] split_beta)
qed

lemma scope_lines_table:
  assumes "tab_wf REG_USER_MAX (g_user r @ es)" "\<forall>e \<in> set es. file_safe e \<and> reg_is_user_key (fst e)"
  shows "fold scope_line (map entry_text es) (False, r) = (False, r\<lparr>g_user := g_user r @ es\<rparr>)"
  using assms
proof (induction es arbitrary: r)
  case (Cons e es)
  have "scope_line (entry_text e) (False, r) = (False, r\<lparr>g_user := g_user r @ [e]\<rparr>)"
    using Cons.prems by (intro scope_line_entry) (auto simp: tab_wf_def entry_fits_def)
  with Cons.IH [of "r\<lparr>g_user := g_user r @ [e]\<rparr>"] Cons.prems show ?case by simp
qed simp

lemma reg_scope_load_table:
  assumes "tab_wf REG_USER_MAX es" "\<forall>e \<in> set es. file_safe e \<and> reg_is_user_key (fst e)"
  shows "g_user (reg_scope_load (Some (concat (map entry_line es))) r) = es"
proof -
  have plain: "plain_line LINE_CAP (entry_text e)" if "e \<in> set es" for e
    using that assms
    by (fastforce simp: plain_line_def entry_text_def file_safe_def tab_wf_def LINE_CAP_def reg_limits)
  have k: "fold scope_line (map entry_text (take k es)) (False, r\<lparr>g_user := []\<rparr>) =
      (False, r\<lparr>g_user := take k es\<rparr>)" for k
  proof -
    have "tab_wf REG_USER_MAX (take k es)"
      using assms(1) by (auto simp: tab_wf_def take_map [symmetric] dest: in_set_takeD)
    moreover have "\<forall>e \<in> set (take k es). file_safe e \<and> reg_is_user_key (fst e)"
      using assms(2) by (auto dest: in_set_takeD)
    ultimately show ?thesis using scope_lines_table [of "r\<lparr>g_user := []\<rparr>" "take k es"] by simp
  qed
  have "line_loop LINE_CAP (\<lambda>br. \<not> fst br) scope_line (concat (map entry_line es))
      (False, r\<lparr>g_user := []\<rparr>) = fold scope_line (map entry_text es) (False, r\<lparr>g_user := []\<rparr>)"
    unfolding entry_lines
    by (rule line_loop_unlines [where P = "\<lambda>br. \<not> fst br"]) (use plain k in \<open>auto simp: take_map\<close>)
  then show ?thesis using k [of "length es"] by (simp add: reg_scope_load_def)
qed

text \<open>What the loader makes of a text depends on nothing else in the registry.\<close>

lemma reg_scope_load_indep: "g_user (reg_scope_load t r) = g_user (reg_scope_load t reg_boot)"
proof (cases t)
  case (Some inp)
  let ?h = "map_prod id (\<lambda>r. reg_boot\<lparr>g_user := g_user r\<rparr>) :: bool \<times> registry \<Rightarrow> _"
  have body: "?h (scope_line l s) = scope_line l (?h s)" for l s
    by (cases s) (simp add: scope_line_def split_beta split: option.splits)
  have "?h (line_loop LINE_CAP (\<lambda>br. \<not> fst br) scope_line inp s) =
      line_loop LINE_CAP (\<lambda>br. \<not> fst br) scope_line inp (?h s)" for s
    by (rule line_loop_hom [where h = ?h]) (rule body, simp)
  from arg_cong [OF this, of "g_user \<circ> snd"]
  have "g_user (snd (line_loop LINE_CAP (\<lambda>br. \<not> fst br) scope_line inp s)) =
      g_user (snd (line_loop LINE_CAP (\<lambda>br. \<not> fst br) scope_line inp (?h s)))" for s
    by simp
  from this [of "(False, r\<lparr>g_user := []\<rparr>)"] Some show ?thesis
    by (simp add: reg_scope_load_def reg_boot_def)
qed (simp add: reg_scope_load_def)

definition scope_name :: "string \<Rightarrow> bool" where
  "scope_name u \<longleftrightarrow> u \<noteq> [] \<and> length u < USR_SCOPE_MAX
     \<and> CHR ''/'' \<notin> set u \<and> CHR 0x5C \<notin> set u \<and> CHR '':'' \<notin> set u"

definition scope_file :: "string \<Rightarrow> string" where
  "scope_file u = ''/home/'' @ u @ ''/settings.cfg''"

definition scope_contents :: "'fs storage \<Rightarrow> 'fs \<Rightarrow> string \<Rightarrow> entry list" where
  "scope_contents st fs u =
     (let data = st_read st fs (scope_file u) (CFG_BUF - 1)
      in if data = [] then [] else g_user (reg_scope_load (Some data) reg_boot))"

lemma scope_path_name: "scope_name u \<Longrightarrow> scope_path u 64 = Some (scope_file u)"
  unfolding scope_name_def scope_path_def scope_file_def snprintf_def USR_SCOPE_MAX_def by force

lemma scope_file_inj [simp]: "scope_file a = scope_file b \<longleftrightarrow> a = b"
  by (simp add: scope_file_def)

lemma reg_scope_load_other:
  "\<exists>es b. reg_scope_load t r = r\<lparr>g_user := es, g_user_dirty := b\<rparr>"
proof (cases t)
  case (Some inp)
  let ?P = "\<lambda>br :: bool \<times> registry. \<exists>es. snd br = r\<lparr>g_user := es\<rparr>"
  have "?P (line_loop LINE_CAP (\<lambda>br. \<not> fst br) scope_line inp (False, r\<lparr>g_user := []\<rparr>))"
  proof (rule line_loop_inv)
    fix l s assume "?P s" then show "?P (scope_line l s)"
      by (cases s) (auto simp: scope_line_def split: option.splits if_splits)
  qed auto
  then obtain es where "reg_scope_load t r = r\<lparr>g_user := es, g_user_dirty := False\<rparr>"
    using Some by (auto simp: reg_scope_load_def)
  then show ?thesis by blast
qed (auto simp: reg_scope_load_def)

lemma scope_enter_named:
  assumes "file_store st" "scope_name u"
  shows "let d1 = persist_scope_leave st d; d2 = persist_scope_enter st (Some u) d in
     g_user (d_reg d2) = scope_contents st (d_fs d1) u \<and> reg_scope_user (d_reg d2) = u
     \<and> d_fs d2 = d_fs d1 \<and> g_reg (d_reg d2) = g_reg (d_reg d1) \<and> \<not> reg_scope_dirty (d_reg d2)"
proof -
  let ?d1 = "persist_scope_leave st d"
  have u: "u \<noteq> []" "snprintf USR_SCOPE_MAX u = u"
    using assms(2) by (auto simp: scope_name_def snprintf_def)
  obtain es b where n: "reg_scope_load None (d_reg ?d1) = (d_reg ?d1)\<lparr>g_user := es, g_user_dirty := b\<rparr>"
    and "es = []"
    using reg_scope_load_other [of None "d_reg ?d1"] by (auto simp: reg_scope_load_def)
  define data where "data = st_read st (d_fs ?d1) (scope_file u) (CFG_BUF - 1)"
  have c: "scope_contents st (d_fs ?d1) u =
      (if data = [] then [] else g_user (reg_scope_load (Some data) r))" for r
    unfolding scope_contents_def data_def Let_def by (simp add: reg_scope_load_indep [of _ r])
  have g: "g_reg (reg_scope_load (Some data) r) = g_reg r" for r
    using reg_scope_load_other [of "Some data" r] by auto
  have "persist_scope_enter st (Some u) d = ?d1\<lparr>d_reg := reg_scope_mark_clean (reg_scope_set (Some u)
      (if data \<noteq> [] then reg_scope_load (Some data) (reg_scope_load None (d_reg ?d1))
       else reg_scope_load None (d_reg ?d1)))\<rparr>"
    using u(1) file_store.malloc_ok [OF assms(1)]
    by (simp add: persist_scope_enter_def scope_path_name [OF assms(2)] load_one_def Let_def data_def)
  then show ?thesis using u(2) \<open>es = []\<close> c [of "reg_scope_load None (d_reg ?d1)"]
    by (simp add: n g reg_scope_set_def reg_scope_mark_clean_def reg_scope_user_def reg_scope_dirty_def)
qed

lemma scope_leave_saves:
  assumes "file_store st" "scope_name (g_scope (d_reg d))" "g_user_dirty (d_reg d)"
  shows "st_read st (d_fs (persist_scope_leave st d)) f n =
     (if f = scope_file (g_scope (d_reg d)) then take n (concat (map entry_line (g_user (d_reg d))))
      else st_read st (d_fs d) f n)"
  using serialize_take [of "map entry_line (g_user (d_reg d))"
      "length (concat (map entry_line (g_user (d_reg d)))) + 1"
      "replicate (length (concat (map entry_line (g_user (d_reg d)))) + 1) NUL"] assms
  by (simp add: persist_scope_leave_def reg_scope_dirty_def persist_save_scope_def reg_scope_user_def
      scope_path_name Let_def save_one_def file_store.malloc_ok reg_scope_serialize_def
      serialize_need split_beta file_store.read_written file_store.read_other file_store.read_mkdir
      del: length_concat)

section \<open>Properties\<close>



definition sample_device :: "(string \<Rightarrow> string) device" where
  "sample_device = \<lparr>d_fs = (\<lambda>_. []),
     d_reg = reg_boot\<lparr>g_reg := [(''Net.Name'', ''pico'')]\<rparr>,
     d_usr = \<lparr>g_users = [\<lparr>u_name = ''g'', u_cred = NOPASS, u_home = ''/'', u_role = ROLE_USER\<rparr>],
              g_udirty = True\<rparr>,
     d_repair = no_repair\<rparr>"

lemma sample_device_good:
  "reg_good (d_reg sample_device)" "users_good (d_usr sample_device)"
  "0 < reg_count (d_reg sample_device)" "0 < users_count (d_usr sample_device)"
  "length (reg_saved (d_reg sample_device)) < CFG_BUF"
  by (simp_all add: sample_device_def reg_good_def users_good_def reg_boot_def tab_wf_def reg_limits
      file_safe_def user_safe_def user_fits_def usr_limits NOPASS_def reg_count_def users_count_def
      reg_saved_def entry_line_def CFG_BUF_def)


text \<open>
  After a save, losing or damaging both primary files costs nothing: if what is left
  in them parses to no entry, the pre-\<open>/os\<close> files are absent and the shadows are intact, the
  next boot restores both tables from the shadows, reports both repairs and writes both
  primaries back.
\<close>

theorem shadow_restores:
  assumes "file_store st" "reg_good (d_reg d)" "users_good (d_usr d)"
    and "0 < reg_count (d_reg d)" "0 < users_count (d_usr d)"
    and "length (reg_saved (d_reg d)) < CFG_BUF"
    and "\<forall>f \<in> {REG_BACKUP, USERS_BACKUP}. st_read st (d_fs b) f =
          st_read st (d_fs (persist_save_users st (persist_save_registry st d))) f"
    and "\<forall>f \<in> {REG_FILE_OLD, USERS_FILE_OLD}. st_read st (d_fs b) f (CFG_BUF - 1) = []"
    and "reg_count (d_reg b) = 0" "users_count (d_usr b) = 0"
    and "reg_count (reg_load (Some (st_read st (d_fs b) REG_FILE (CFG_BUF - 1))) (d_reg b)) = 0"
    and "users_count (users_load (Some (st_read st (d_fs b) USERS_FILE (CFG_BUF - 1))) (d_usr b)) = 0"
  shows "let b' = persist_load_all st b in
      g_reg (d_reg b') = g_reg (d_reg d) \<and> g_users (d_usr b') = g_users (d_usr d)
      \<and> registry_restored (d_repair b') \<and> users_restored (d_repair b')
      \<and> st_read st (d_fs b') REG_FILE (CFG_BUF - 1) = reg_saved (d_reg d)
      \<and> st_read st (d_fs b') USERS_FILE (CFG_BUF - 1) = users_saved (d_usr d)"
proof -
  note reads = saved_reads [OF assms(1-3)]
  have neq: "REG_FILE \<noteq> REG_BACKUP" "USERS_FILE \<noteq> USERS_BACKUP" "USERS_FILE \<noteq> REG_FILE"
    "USERS_BACKUP \<noteq> REG_FILE" "USERS_FILE_OLD \<noteq> REG_FILE" "USERS_BACKUP \<noteq> REG_BACKUP"
    by (simp_all add: cfg_paths)
  have bak: "st_read st (d_fs b) REG_BACKUP (CFG_BUF - 1) = take (CFG_BUF - 1) (reg_saved (d_reg d))"
    "st_read st (d_fs b) USERS_BACKUP (CFG_BUF - 1) = take (CFG_BUF - 1) (users_saved (d_usr d))"
    using assms(7) reads neq by simp_all
  from persisted_table.heal_backup [OF persisted_registry, OF assms(1,2,4,6) neq(1) bak(1) _
      assms(11,9)] assms(8)
  obtain fs1 r where r: "load_healing st REG_FILE REG_FILE_OLD REG_BACKUP reg_load reg_count
      reg_serialize (d_fs b) (d_reg b) = (fs1, r, True, False)" "g_reg r = g_reg (d_reg d)"
    "st_read st fs1 REG_FILE (CFG_BUF - 1) = reg_saved (d_reg d)"
    "\<And>g. g \<noteq> REG_FILE \<Longrightarrow> st_read st fs1 g = st_read st (d_fs b) g" by blast
  from persisted_table.heal_backup [OF persisted_users, OF assms(1,3,5) users_saved_fits
      [OF assms(3)] neq(2), of fs1 USERS_FILE_OLD "d_usr b"] r(4) [OF neq(3)] r(4) [OF neq(4)]
      r(4) [OF neq(5)] bak(2) assms(8,10,12)
  obtain fs2 u where "load_healing st USERS_FILE USERS_FILE_OLD USERS_BACKUP users_load users_count
      users_serialize fs1 (d_usr b) = (fs2, u, True, False)" "g_users u = g_users (d_usr d)"
    "st_read st fs2 USERS_FILE (CFG_BUF - 1) = users_saved (d_usr d)"
    "\<And>g. g \<noteq> USERS_FILE \<Longrightarrow> st_read st fs2 g = st_read st fs1 g" by auto
  with r neq(3) show ?thesis by (simp add: persist_load_all_def)
qed

definition damaged_device :: "(string \<Rightarrow> string) device" where
  "damaged_device = \<lparr>d_fs = (d_fs (persist_save_users ram_store
       (persist_save_registry ram_store sample_device)))(REG_FILE := [], USERS_FILE := ''?''),
     d_reg = reg_boot, d_usr = \<lparr>g_users = [], g_udirty = False\<rparr>, d_repair = no_repair\<rparr>"

theorem shadow_restores_witness:
  "g_users (d_usr (persist_load_all ram_store damaged_device)) = g_users (d_usr sample_device)"
proof -
  let ?fs = "d_fs (persist_save_users ram_store (persist_save_registry ram_store sample_device))"
  have rd: "st_read ram_store m f n = take n (m f)" for m f n by (simp add: ram_store_def)
  have fs: "d_fs damaged_device = ?fs(REG_FILE := [], USERS_FILE := ''?'')"
    by (simp add: damaged_device_def)
  have "\<forall>f \<in> {REG_BACKUP, USERS_BACKUP}. st_read ram_store (d_fs damaged_device) f =
      st_read ram_store ?fs f"
    unfolding fs by (simp add: fun_eq_iff rd cfg_paths)
  moreover have "\<forall>f \<in> {REG_FILE_OLD, USERS_FILE_OLD}.
      st_read ram_store (d_fs damaged_device) f (CFG_BUF - 1) = []"
  proof
    fix f assume f: "f \<in> {REG_FILE_OLD, USERS_FILE_OLD}"
    then have "st_read ram_store (d_fs damaged_device) f (CFG_BUF - 1) =
        st_read ram_store ?fs f (CFG_BUF - 1)"
      unfolding fs by (auto simp: rd cfg_paths)
    also have "\<dots> = st_read ram_store (d_fs sample_device) f (CFG_BUF - 1)"
      using f by (auto simp: saved_reads [OF ram.file_store_axioms sample_device_good(1,2)] cfg_paths)
    finally show "st_read ram_store (d_fs damaged_device) f (CFG_BUF - 1) = []"
      by (simp add: rd sample_device_def)
  qed
  moreover have "reg_count (d_reg damaged_device) = 0" "users_count (d_usr damaged_device) = 0"
    by (simp_all add: damaged_device_def reg_count_def users_count_def reg_boot_def)
  moreover have "reg_count (reg_load (Some (st_read ram_store (d_fs damaged_device) REG_FILE
      (CFG_BUF - 1))) (d_reg damaged_device)) = 0"
    unfolding fs by (simp add: rd cfg_paths reg_load_def reg_count_def)
  moreover have "users_count (users_load (Some (st_read ram_store (d_fs damaged_device) USERS_FILE
      (CFG_BUF - 1))) (d_usr damaged_device)) = 0"
    unfolding fs by (simp add: rd users_load_def users_count_def line_loop.simps line_of_def
        after_line_def CFG_BUF_def USR_LINE_CAP_def cstr_def user_line_def strchr_split_def USR_MAX_def)
  ultimately show ?thesis
    using shadow_restores [OF ram.file_store_axioms sample_device_good, of damaged_device]
    by (simp add: Let_def)
qed

text \<open>
  A registry whose text is more than \<open>CFG_BUF\<close> characters is saved whole and yet does
  not survive a reboot: the load reads \<open>CFG_BUF - 1\<close> characters and the table it makes is
  never the one saved.  (64 entries of 39 and 95 characters make 8704.)
\<close>

theorem oversized_registry_lost:
  assumes "file_store st" "reg_good (d_reg d)" "CFG_BUF < length (reg_saved (d_reg d))"
    and "d_fs b = d_fs (persist_save_registry st d)"
  shows "g_reg (d_reg (persist_load_all st b)) \<noteq> g_reg (d_reg d)"
proof -
  define data where "data = take (CFG_BUF - 1) (reg_saved (d_reg d))"
  have reads: "st_read st (d_fs b) f (CFG_BUF - 1) = data" if "f = REG_FILE \<or> f = REG_BACKUP" for f
    using that assms(1,2)
    by (auto simp: assms(4) persist_save_registry_def reg_save_read cfg_paths data_def)
  have data: "data \<noteq> []" using assms(3) by (auto simp: data_def CFG_BUF_def)
  have one: "load_one st (d_fs b) f reg_load t = (True, reg_load (Some data) t)"
    if "f = REG_FILE \<or> f = REG_BACKUP" for f t
    using reads [OF that] data
    by (simp add: persisted_table.load_one_reads [OF persisted_registry [OF assms(1)]])
  obtain t where t: "d_reg (persist_load_all st b) = reg_load (Some data) t"
    by (cases "0 < reg_count (reg_load (Some data) (d_reg b))";
        cases "0 < reg_count (reg_load (Some data) (reg_load (Some data) (d_reg b)))")
      (simp_all add: persist_load_all_def load_healing_def one split_beta Let_def)
  have "length (reg_saved (d_reg (persist_load_all st b))) \<le> CFG_BUF"
    using reg_load_length [of data t] unfolding t by (simp add: data_def CFG_BUF_def)
  then show ?thesis using assms(3) by (auto simp: reg_saved_def)
qed

definition big_registry :: registry where
  "big_registry = reg_boot\<lparr>g_reg :=
     map (\<lambda>i. (replicate i CHR ''k'', replicate 95 CHR ''x'')) [1..<40]\<rparr>"

theorem oversized_registry_lost_witness:
  "g_reg (d_reg (persist_load_all ram_store (persist_save_registry ram_store
      (sample_device\<lparr>d_reg := big_registry\<rparr>)))) \<noteq> g_reg big_registry"
proof -
  let ?d = "sample_device\<lparr>d_reg := big_registry\<rparr>"
  have "inj_on (\<lambda>i. replicate i CHR ''k'') {1..<40}" by (auto simp: inj_on_def)
  then have "distinct (map fst (g_reg big_registry))"
    by (simp add: big_registry_def distinct_map comp_def)
  then have "reg_good (d_reg ?d)"
    by (auto simp: reg_good_def tab_wf_def big_registry_def reg_limits file_safe_def)
  moreover have "CFG_BUF < length (reg_saved (d_reg ?d))"
    by (simp add: reg_saved_def big_registry_def length_concat comp_def entry_line_def CFG_BUF_def
        upt_rec)
  ultimately show ?thesis
    using oversized_registry_lost [OF ram.file_store_axioms, of ?d] by simp
qed


text \<open>
  C11.  Signing in shows a person their own settings and nobody else's.  When \<open>b\<close> signs in
  over a session of \<open>a\<close> with unsaved settings, \<open>b\<close> sees exactly what \<open>b\<close>'s file holds and
  the device table is untouched; when \<open>a\<close> comes back, \<open>a\<close>'s settings are all there.
\<close>

theorem scope_switch:
  assumes "file_store st" "reg_wf (d_reg d)" "\<forall>e \<in> set (g_user (d_reg d)). file_safe e"
    and "g_scope (d_reg d) = a" "g_user_dirty (d_reg d)"
    and "scope_name a" "scope_name b" "a \<noteq> b"
  shows "let d1 = persist_scope_enter st (Some b) d; d2 = persist_scope_enter st (Some a) d1 in
     g_user (d_reg d1) = scope_contents st (d_fs d) b \<and> reg_scope_user (d_reg d1) = b
     \<and> g_user (d_reg d2) = g_user (d_reg d) \<and> reg_scope_user (d_reg d2) = a
     \<and> g_reg (d_reg d2) = g_reg (d_reg d)"
proof -
  let ?es = "g_user (d_reg d)" and ?d1 = "persist_scope_enter st (Some b) d"
  note reads = scope_leave_saves [OF assms(1), of d, unfolded assms(4), OF assms(6,5)]
  note in1 = scope_enter_named [OF assms(1,7), of d, unfolded Let_def]
  note in2 = scope_enter_named [OF assms(1,6), of ?d1, unfolded Let_def]
  have leave2: "persist_scope_leave st ?d1 = ?d1\<lparr>d_reg := reg_scope_clear (d_reg ?d1)\<rparr>"
    using in1 by (subst persist_scope_leave_def) (simp add: Let_def)
  have g: "g_reg (d_reg (persist_scope_leave st d)) = g_reg (d_reg d)" for d
    by (simp add: persist_scope_leave_def persist_save_scope_def Let_def reg_scope_clear_def
        reg_scope_mark_clean_def split: option.splits)
  have b: "scope_contents st (d_fs (persist_scope_leave st d)) b = scope_contents st (d_fs d) b"
    using assms(8) by (simp add: scope_contents_def reads)
  have wf: "tab_wf REG_USER_MAX ?es" "\<forall>e \<in> set ?es. reg_is_user_key (fst e)"
    using assms(2) by (auto simp: reg_wf_def)
  have "length (entry_line e) \<le> 136" if "e \<in> set ?es" for e
    using that wf(1) by (auto simp: tab_wf_def entry_line_def reg_limits)
  then have "length (concat (map entry_line ?es)) \<le> length ?es * 136"
    unfolding length_concat map_map comp_def by (rule sum_list_bound)
  then have "length (concat (map entry_line ?es)) \<le> CFG_BUF - 1"
    using wf(1) by (simp add: tab_wf_def reg_limits CFG_BUF_def)
  then have "scope_contents st (d_fs (persist_scope_leave st d)) a = ?es"
    using reg_scope_load_table [of ?es reg_boot] wf assms(3)
    by (cases ?es) (auto simp: scope_contents_def reads entry_line_def)
  then show ?thesis using in1 in2 leave2 g [of d] g [of ?d1] b by (simp add: Let_def)
qed


theorem scope_switch_witness:
  "g_user (d_reg (persist_scope_enter ram_store (Some ''ann'') (persist_scope_enter ram_store (Some ''bob'')
     (sample_device\<lparr>d_reg := reg_boot\<lparr>g_scope := ''ann'', g_user := [(''User.Tz'', ''2'')],
        g_user_dirty := True\<rparr>\<rparr>)))) = [(''User.Tz'', ''2'')]"
  using scope_switch [OF ram.file_store_axioms, of "sample_device\<lparr>d_reg := reg_boot\<lparr>g_scope := ''ann'',
      g_user := [(''User.Tz'', ''2'')], g_user_dirty := True\<rparr>\<rparr>" "''ann''" "''bob''"]
  by (simp add: reg_wf_def reg_boot_def tab_wf_def reg_limits reg_is_user_key_def file_safe_def
      scope_name_def Let_def)

text \<open>
  A save that fails is recorded as done: when the storage refuses every write (a full
  disk) the files keep their old contents, and yet both tables are marked clean, so that
  the next \<open>persist_save_dirty\<close> has nothing to save either.
\<close>

theorem failed_save_marked_clean:
  assumes "\<forall>fs f t. st_write st fs f t = fs"
  shows "let d1 = persist_save_users st (persist_save_registry st d) in
     d_fs d1 = d_fs d \<and> \<not> reg_dirty (d_reg d1) \<and> \<not> users_dirty (d_usr d1)
     \<and> (reg_scope_dirty (d_reg d) \<or> persist_save_dirty st d1 = d1)"
proof -
  have "save_one st f ser fs = fs" for f ser fs
    using assms by (simp add: save_one_def Let_def split_beta)
  then show ?thesis
    by (simp add: persist_save_users_def persist_save_registry_def reg_dirty_def users_dirty_def
        reg_mark_clean_def users_mark_clean_def persist_save_dirty_def reg_scope_dirty_def)
qed

theorem failed_save_marked_clean_witness:
  "let st = ram_store\<lparr>st_write := (\<lambda>m f t. m)\<rparr> in
     d_fs (persist_save_users st (persist_save_registry st sample_device)) = d_fs sample_device
     \<and> users_dirty (d_usr sample_device)
     \<and> \<not> users_dirty (d_usr (persist_save_users st (persist_save_registry st sample_device)))"
  using failed_save_marked_clean [of "ram_store\<lparr>st_write := (\<lambda>m f t. m)\<rparr>" sample_device]
  by (simp add: Let_def users_dirty_def) (simp add: sample_device_def)

end
