(* ===== verification/HttpParse.thy ===== *)
theory HttpParse
  imports CLib
begin

text \<open>
  \<open>os/core/httpparse.cpp\<close>: URL splitting and the incremental HTTP/1.1 response parser.
  Bytes are characters.  The sink the body goes to is a parameter \<open>sink ctx data\<close> giving
  its return code and its new context; the header callback appends the line to
  \<open>header_log\<close> when one is set.  \<open>line\<close> holds the first \<open>line_len\<close> characters of the
  line buffer.  \<open>chunk_left\<close> is a natural number: the code assigns it a positive
  number and subtracts at most what it holds.
\<close>

section \<open>Model\<close>

definition HTTP_HOST_MAX :: nat where "HTTP_HOST_MAX = 64"
definition HTTP_PATH_MAX :: nat where "HTTP_PATH_MAX = 192"
definition HTTP_LOC_MAX :: nat where "HTTP_LOC_MAX = 200"
definition HTTP_LINE_MAX :: nat where "HTTP_LINE_MAX = 256"

lemmas http_limits = HTTP_HOST_MAX_def HTTP_PATH_MAX_def HTTP_LOC_MAX_def HTTP_LINE_MAX_def

record http_url =
  tls :: bool
  host :: string
  port :: nat
  path :: string

datatype http_state = ST_STATUS | ST_HEADERS | ST_BODY_LEN | ST_BODY_EOF | ST_CHUNK_SIZE
  | ST_CHUNK_DATA | ST_CHUNK_CRLF | ST_TRAILER | ST_DONE | ST_ERROR

record http_parser =
  state :: http_state
  status :: int
  content_length :: int
  body_seen :: int
  chunked :: bool
  location :: string
  line :: string
  line_over :: bool
  chunk_left :: nat
  sink_rc :: int
  head_only :: bool
  header_cb :: bool
  header_log :: "string list"

subsection \<open>Small helpers\<close>

definition lower :: "char \<Rightarrow> char" where
  "lower c = (if CHR ''A'' \<le> c \<and> c \<le> CHR ''Z'' then char_of (of_char c + 32 :: nat) else c)"

fun hdr_is :: "string \<Rightarrow> string \<Rightarrow> bool" where
  "hdr_is l (n # name) = (l \<noteq> [] \<and> lower (hd l) = lower n \<and> hdr_is (tl l) name)"
| "hdr_is l [] = (case dropWhile (\<lambda>c. c = CHR '' '') l of [] \<Rightarrow> False | c # _ \<Rightarrow> c = CHR '':'')"

definition hdr_value :: "string \<Rightarrow> string" where
  "hdr_value l = (case strchr_split (CHR '':'') l of
     None \<Rightarrow> [] | Some (_, v) \<Rightarrow> dropWhile (\<lambda>c. c = CHR '' '' \<or> c = CHR 0x09) v)"

text \<open>\<open>None\<close>: it does not fit, and nothing is written.\<close>

definition copy_bounded :: "nat \<Rightarrow> string \<Rightarrow> string option" where
  "copy_bounded cap src = (if length src \<ge> cap then None else Some src)"

subsection \<open>URLs\<close>

definition host_char :: "char \<Rightarrow> bool" where
  "host_char c \<longleftrightarrow> c \<noteq> CHR ''/'' \<and> c \<noteq> CHR '':'' \<and> c \<noteq> CHR ''@'' \<and> c \<noteq> CHR ''?'' \<and> c \<noteq> CHR ''#''"

text \<open>The port loop: the value and the rest, or \<open>None\<close> once it passes 65535.\<close>

fun port_loop :: "nat \<Rightarrow> string \<Rightarrow> (nat \<times> string) option" where
  "port_loop v [] = Some (v, [])"
| "port_loop v (c # cs) =
     (if is_digit c then
        (let v' = v * 10 + digit_val c in if v' > 65535 then None else port_loop v' cs)
      else Some (v, c # cs))"

definition url_port :: "nat \<Rightarrow> string \<Rightarrow> (nat \<times> string) option" where
  "url_port dflt p =
     (case p of c # ds \<Rightarrow>
        if c = CHR '':'' then
          (case port_loop 0 ds of
             None \<Rightarrow> None
           | Some (v, rest) \<Rightarrow> if rest = ds \<or> v = 0 then None else Some (v, rest))
        else Some (dflt, p)
      | [] \<Rightarrow> Some (dflt, p))"

definition url_scheme :: "string \<Rightarrow> (bool \<times> nat \<times> string) option" where
  "url_scheme url =
     (if take 7 url = ''http://'' then Some (False, 80, drop 7 url)
      else if take 8 url = ''https://'' then Some (True, 443, drop 8 url)
      else None)"

definition http_parse_url :: "string option \<Rightarrow> http_url option" where
  "http_parse_url urlp =
     (case urlp of None \<Rightarrow> None | Some url \<Rightarrow>
      case url_scheme url of None \<Rightarrow> None | Some (t, dflt, s) \<Rightarrow>
        let hs = takeWhile host_char s; p = dropWhile host_char s in
        if p \<noteq> [] \<and> hd p = CHR ''@'' then None
        else if hs = [] then None
        else case copy_bounded HTTP_HOST_MAX hs of None \<Rightarrow> None | Some h \<Rightarrow>
          case url_port dflt p of None \<Rightarrow> None | Some (pt, p') \<Rightarrow>
            if p' = [] then Some \<lparr>tls = t, host = h, port = pt, path = ''/''\<rparr>
            else if hd p' \<noteq> CHR ''/'' then None
            else map_option (\<lambda>pa. \<lparr>tls = t, host = h, port = pt, path = pa\<rparr>)
                   (copy_bounded HTTP_PATH_MAX p'))"

definition http_resolve_redirect :: "http_url \<Rightarrow> string option \<Rightarrow> http_url option" where
  "http_resolve_redirect from loc =
     (case loc of None \<Rightarrow> None | Some l \<Rightarrow>
        if l = [] then None
        else if take 7 l = ''http://'' \<or> take 8 l = ''https://'' then http_parse_url (Some l)
        else if hd l \<noteq> CHR ''/'' then None
        else map_option (\<lambda>pa. from\<lparr>path := pa\<rparr>) (copy_bounded HTTP_PATH_MAX l))"

subsection \<open>The response parser\<close>

definition http_parser_init :: http_parser where
  "http_parser_init = \<lparr>state = ST_STATUS, status = 0, content_length = -1, body_seen = 0,
     chunked = False, location = [], line = [], line_over = False, chunk_left = 0, sink_rc = 0,
     head_only = False, header_cb = False, header_log = []\<rparr>"

definition http_parser_done :: "http_parser \<Rightarrow> bool" where
  "http_parser_done p = (state p = ST_DONE)"

definition http_parser_failed :: "http_parser \<Rightarrow> bool" where
  "http_parser_failed p = (state p = ST_ERROR)"

definition http_is_redirect :: "http_parser \<Rightarrow> bool" where
  "http_is_redirect p = (status p \<in> {301, 302, 303, 307, 308} \<and> location p \<noteq> [])"

definition feed_line :: "char \<Rightarrow> http_parser \<Rightarrow> bool \<times> http_parser" where
  "feed_line c p =
     (if c = NL then
        (True, p\<lparr>line := (if line p \<noteq> [] \<and> last (line p) = CR then butlast (line p) else line p),
                 line_over := False\<rparr>)
      else if length (line p) + 1 < HTTP_LINE_MAX then (False, p\<lparr>line := line p @ [c]\<rparr>)
      else (False, p\<lparr>line_over := True\<rparr>))"

definition line_reset :: "http_parser \<Rightarrow> http_parser" where
  "line_reset p = p\<lparr>line := []\<rparr>"

definition emit ::
  "('c \<Rightarrow> string \<Rightarrow> int \<times> 'c) \<Rightarrow> string \<Rightarrow> http_parser \<times> 'c \<Rightarrow> bool \<times> http_parser \<times> 'c" where
  "emit sink d pc =
     (let (p, ctx) = pc in
      if d = [] then (True, p, ctx)
      else let (rc, ctx') = sink ctx d in
        if rc \<noteq> 0 then (False, p\<lparr>sink_rc := rc, state := ST_ERROR\<rparr>, ctx')
        else (True, p\<lparr>body_seen := body_seen p + int (length d)\<rparr>, ctx'))"

definition note_header :: "http_parser \<Rightarrow> http_parser" where
  "note_header p =
     (if header_cb p then p\<lparr>header_log := header_log p @ [cstr (line p)]\<rparr> else p)"

definition parse_status_line :: "http_parser \<Rightarrow> http_parser" where
  "parse_status_line p =
     (let l = cstr (line p); err = p\<lparr>state := ST_ERROR\<rparr> in
      if take 5 l \<noteq> ''HTTP/'' then err
      else if CHR '' '' \<notin> set l then err
      else let sp = dropWhile (\<lambda>c. c = CHR '' '') (dropWhile (\<lambda>c. c \<noteq> CHR '' '') l) in
        if sp = [] \<or> \<not> is_digit (hd sp) then err
        else let p1 = p\<lparr>status := the (strtol10 sp)\<rparr> in
          if status p1 < 100 \<or> status p1 > 599 then p1\<lparr>state := ST_ERROR\<rparr>
          else (note_header p1)\<lparr>state := ST_HEADERS\<rparr>)"

definition headers_complete :: "http_parser \<Rightarrow> http_parser" where
  "headers_complete p =
     (if head_only p then p\<lparr>state := ST_DONE\<rparr>
      else if status p = 204 \<or> status p = 304 then p\<lparr>state := ST_DONE\<rparr>
      else if chunked p then line_reset (p\<lparr>state := ST_CHUNK_SIZE\<rparr>)
      else if content_length p = 0 then p\<lparr>state := ST_DONE\<rparr>
      else if content_length p > 0 then p\<lparr>state := ST_BODY_LEN\<rparr>
      else p\<lparr>state := ST_BODY_EOF\<rparr>)"

definition parse_header_line :: "http_parser \<Rightarrow> http_parser" where
  "parse_header_line p =
     (let l = cstr (line p); v = hdr_value l in
      if hdr_is l ''content-length'' then
        (case strtoll 10 v of
           None \<Rightarrow> p
         | Some n \<Rightarrow> if n \<ge> 0 then p\<lparr>content_length := n\<rparr> else p)
      else if hdr_is l ''transfer-encoding'' then
        (if sublist ''chunked'' (map lower (take 47 v)) then p\<lparr>chunked := True\<rparr> else p)
      else if hdr_is l ''location'' then
        (case copy_bounded HTTP_LOC_MAX v of None \<Rightarrow> p | Some s \<Rightarrow> p\<lparr>location := s\<rparr>)
      else p)"

definition chunk_size_line :: "http_parser \<Rightarrow> http_parser" where
  "chunk_size_line p =
     (case strtoll 16 (cstr (line p)) of
        None \<Rightarrow> p\<lparr>state := ST_ERROR\<rparr>
      | Some n \<Rightarrow> if n < 0 then p\<lparr>state := ST_ERROR\<rparr>
                  else if n = 0 then p\<lparr>state := ST_TRAILER\<rparr>
                  else p\<lparr>chunk_left := nat n, state := ST_CHUNK_DATA\<rparr>)"

text \<open>What a completed line does, by state; the line is then reset.\<close>

definition line_done :: "http_parser \<Rightarrow> http_parser" where
  "line_done p = line_reset
     (case state p of
        ST_STATUS \<Rightarrow> parse_status_line p
      | ST_HEADERS \<Rightarrow>
          if line p = [] then headers_complete p else parse_header_line (note_header p)
      | ST_CHUNK_SIZE \<Rightarrow> chunk_size_line p
      | ST_CHUNK_CRLF \<Rightarrow>
          if line p \<noteq> [] then p\<lparr>state := ST_ERROR\<rparr> else p\<lparr>state := ST_CHUNK_SIZE\<rparr>
      | ST_TRAILER \<Rightarrow> if line p = [] then p\<lparr>state := ST_DONE\<rparr> else p
      | _ \<Rightarrow> p)"

text \<open>
  One turn of the loop on the unread data: how many bytes it read, and the parser and
  context after it.  The number of body bytes is the smaller of what is wanted and what
  is there.
\<close>

definition feed_step ::
  "('c \<Rightarrow> string \<Rightarrow> int \<times> 'c) \<Rightarrow> string \<Rightarrow> http_parser \<times> 'c \<Rightarrow> nat \<times> http_parser \<times> 'c" where
  "feed_step sink data pc =
     (let (p, ctx) = pc in
      case state p of
        ST_BODY_LEN \<Rightarrow>
          (let n = min (nat (content_length p - body_seen p)) (length data);
               (ok, p1, ctx1) = emit sink (take n data) pc in
           if \<not> ok then (0, p1, ctx1)
           else (n, if body_seen p1 \<ge> content_length p1 then p1\<lparr>state := ST_DONE\<rparr> else p1, ctx1))
      | ST_BODY_EOF \<Rightarrow>
          (let (ok, p1, ctx1) = emit sink data pc in
           if \<not> ok then (0, p1, ctx1) else (length data, p1, ctx1))
      | ST_CHUNK_DATA \<Rightarrow>
          (let n = min (chunk_left p) (length data);
               (ok, p1, ctx1) = emit sink (take n data) pc in
           if \<not> ok then (0, p1, ctx1)
           else let p2 = p1\<lparr>chunk_left := chunk_left p1 - n\<rparr> in
             (n, if chunk_left p2 = 0 then line_reset (p2\<lparr>state := ST_CHUNK_CRLF\<rparr>) else p2, ctx1))
      | _ \<Rightarrow>
          (let (ready, p1) = feed_line (hd data) p in
           (1, if ready then line_done p1 else p1, ctx)))"

definition final :: "http_parser \<Rightarrow> bool" where
  "final p \<longleftrightarrow> state p = ST_DONE \<or> state p = ST_ERROR"

text \<open>The result is the number of bytes consumed, the parser and the sink's context.\<close>

function http_parser_feed ::
  "('c \<Rightarrow> string \<Rightarrow> int \<times> 'c) \<Rightarrow> string \<Rightarrow> http_parser \<times> 'c \<Rightarrow> nat \<times> http_parser \<times> 'c" where
  "http_parser_feed sink data pc =
     (if data = [] \<or> final (fst pc) then (0, pc)
      else let s = feed_step sink data pc;
               r = http_parser_feed sink (drop (fst s) data) (snd s)
           in (fst s + fst r, snd r))"
  by pat_completeness auto

definition http_parser_eof :: "http_parser \<Rightarrow> http_parser" where
  "http_parser_eof p =
     (if state p = ST_BODY_EOF then p\<lparr>state := ST_DONE\<rparr>
      else if state p \<noteq> ST_DONE \<and> state p \<noteq> ST_ERROR then p\<lparr>state := ST_ERROR\<rparr>
      else p)"

section \<open>Termination\<close>

fun rank :: "http_state \<Rightarrow> nat" where
  "rank ST_DONE = 0" | "rank ST_ERROR = 0" | "rank ST_CHUNK_CRLF = 1" | "rank _ = 2"

lemma emit_fields:
  assumes "emit sink d (p, c) = (ok, p1, c1)"
  shows "ok \<Longrightarrow> p1 = p\<lparr>body_seen := body_seen p + int (length d)\<rparr>"
    and "\<not> ok \<Longrightarrow> state p1 = ST_ERROR"
  using assms by (auto simp: emit_def split: if_splits prod.splits)

lemma feed_step_progress:
  assumes "data \<noteq> []" "\<not> final p" "feed_step sink data (p, c) = (n, p1, c1)"
  shows "n \<le> length data \<and> (0 < n \<or> rank (state p1) < rank (state p))"
  using assms
  by (cases "state p")
    (auto simp: feed_step_def final_def Let_def line_reset_def Suc_le_eq dest: emit_fields
      split: prod.splits if_splits)

termination http_parser_feed
proof (relation "inv_image (less_than <*lex*> less_than)
    (\<lambda>(sink, data, pc). (length data, rank (state (fst pc))))")
  fix sink data and pc :: "http_parser \<times> 'c"
  fix s assume go: "\<not> (data = [] \<or> final (fst pc))" and s: "s = feed_step sink data pc"
  from feed_step_progress [of data "fst pc" sink "snd pc" "fst s" "fst (snd s)" "snd (snd s)"] go s
  have "fst s \<le> length data \<and> (0 < fst s \<or> rank (state (fst (snd s))) < rank (state (fst pc)))"
    by simp
  with go show "((sink, drop (fst s) data, snd s), sink, data, pc) \<in>
      inv_image (less_than <*lex*> less_than) (\<lambda>(sink, data, pc). (length data, rank (state (fst pc))))"
    by auto
qed (auto intro: wf_inv_image)

declare http_parser_feed.simps [simp del]

lemma feed_induct [case_names feed]:
  assumes "\<And>data pc. (data \<noteq> [] \<Longrightarrow> \<not> final (fst pc) \<Longrightarrow>
      P (drop (fst (feed_step sink data pc)) data) (snd (feed_step sink data pc))) \<Longrightarrow> P data pc"
  shows "P data pc"
  using assms
  by (induction sink data pc rule: http_parser_feed.induct) blast

lemma feed_stop [simp]: "data = [] \<or> final (fst pc) \<Longrightarrow> http_parser_feed sink data pc = (0, pc)"
  by (subst http_parser_feed.simps) auto

lemma feed_go:
  "data \<noteq> [] \<Longrightarrow> \<not> final (fst pc) \<Longrightarrow> http_parser_feed sink data pc =
     (let s = feed_step sink data pc; r = http_parser_feed sink (drop (fst s) data) (snd s)
      in (fst s + fst r, snd r))"
  by (subst http_parser_feed.simps) simp


section \<open>Any split of the input\<close>

text \<open>
  A sink that takes everything and to which it makes no difference how the bytes arrive.
\<close>

locale accepting_sink =
  fixes sink :: "'c \<Rightarrow> string \<Rightarrow> int \<times> 'c"
  assumes accepts: "fst (sink c d) = 0"
    and arrivals: "xs \<noteq> [] \<Longrightarrow> ys \<noteq> [] \<Longrightarrow> snd (sink (snd (sink c xs)) ys) = snd (sink c (xs @ ys))"
begin

lemma emit_accepts:
  "emit sink d (p, c) =
     (True, p\<lparr>body_seen := body_seen p + int (length d)\<rparr>, if d = [] then c else snd (sink c d))"
  using accepts [of c d] by (auto simp: emit_def split_beta)

lemma step_split:
  assumes "xs \<noteq> []" "ys \<noteq> []" "\<not> final p" "feed_step sink xs (p, c) = (n, p1, c1)"
  shows "feed_step sink (xs @ ys) (p, c) = (n, p1, c1)
    \<or> (n = length xs \<and> \<not> final p1
       \<and> feed_step sink (xs @ ys) (p, c) =
           (let s = feed_step sink ys (p1, c1) in (length xs + fst s, snd s)))"
proof (cases "state p")
  case ST_BODY_LEN
  let ?want = "nat (content_length p - body_seen p)"
  show ?thesis
  proof (cases "?want \<le> length xs")
    case True
    then have "min (?want) (length (xs @ ys)) = min (?want) (length xs)"
      "take (min (?want) (length xs)) (xs @ ys) = take (min (?want) (length xs)) xs" by auto
    then have "feed_step sink (xs @ ys) (p, c) = feed_step sink xs (p, c)"
      unfolding feed_step_def by (simp only: ST_BODY_LEN http_state.case split Let_def)
    then show ?thesis using assms by simp
  next
    case False
    define k where "k = min (?want - length xs) (length ys)"
    have k: "min ?want (length (xs @ ys)) = length xs + k" "min ?want (length xs) = length xs"
      "k \<noteq> 0" using False assms by (auto simp: k_def)
    have "\<not> content_length p \<le> body_seen p + int (length xs)" using False by linarith
    then have p1: "n = length xs" "p1 = p\<lparr>body_seen := body_seen p + int (length xs)\<rparr>"
      "c1 = snd (sink c xs)" "\<not> final p1" "state p1 = ST_BODY_LEN"
      using assms False ST_BODY_LEN
      by (auto simp: feed_step_def emit_accepts Let_def k final_def not_le)
    have "nat (content_length p1 - body_seen p1) = ?want - length xs" using p1(2) by simp
    then show ?thesis using ST_BODY_LEN p1 k assms arrivals [of xs "take k ys" c]
      by (simp add: feed_step_def emit_accepts Let_def k_def [symmetric])
  qed
next
  case ST_BODY_EOF
  then show ?thesis using assms
    by (auto simp: feed_step_def emit_accepts final_def arrivals)
next
  case ST_CHUNK_DATA
  show ?thesis
  proof (cases "chunk_left p \<le> length xs")
    case True
    then have "min (chunk_left p) (length (xs @ ys)) = min (chunk_left p) (length xs)"
      "take (min (chunk_left p) (length xs)) (xs @ ys) = take (min (chunk_left p) (length xs)) xs" by auto
    then have "feed_step sink (xs @ ys) (p, c) = feed_step sink xs (p, c)"
      unfolding feed_step_def by (simp only: ST_CHUNK_DATA http_state.case split Let_def)
    then show ?thesis using assms by simp
  next
    case False
    define k where "k = min (chunk_left p - length xs) (length ys)"
    have k: "min (chunk_left p) (length (xs @ ys)) = length xs + k"
      "min (chunk_left p) (length xs) = length xs" "k \<noteq> 0"
      using False assms by (auto simp: k_def)
    have p1: "n = length xs" "c1 = snd (sink c xs)" "\<not> final p1"
      "p1 = p\<lparr>body_seen := body_seen p + int (length xs), chunk_left := chunk_left p - length xs\<rparr>"
      using assms False ST_CHUNK_DATA
      by (auto simp: feed_step_def emit_accepts Let_def k final_def)
    then show ?thesis using ST_CHUNK_DATA k assms arrivals [of xs "take k ys" c]
      by (simp add: feed_step_def emit_accepts Let_def k_def [symmetric] line_reset_def)
  qed
qed (use assms in \<open>auto simp: feed_step_def final_def\<close>)

lemma feed_split:
  "http_parser_feed sink (xs @ ys) pc =
     (let r = http_parser_feed sink xs pc; s = http_parser_feed sink ys (snd r)
      in (fst r + fst s, snd s))"
proof (induction xs pc rule: feed_induct [where sink = sink])
  case (feed xs pc)
  show ?case
  proof (cases "xs = [] \<or> ys = [] \<or> final (fst pc)")
    case False
    obtain p c where pc: "pc = (p, c)" by fastforce
    obtain n p1 c1 where st: "feed_step sink xs (p, c) = (n, p1, c1)" by (metis prod_cases3)
    have n: "n \<le> length xs" using feed_step_progress [OF _ _ st] False pc by simp
    from step_split [OF _ _ _ st, of ys] False pc consider
      "feed_step sink (xs @ ys) (p, c) = (n, p1, c1)"
      | "n = length xs" "\<not> final p1" "feed_step sink (xs @ ys) (p, c) =
           (let s = feed_step sink ys (p1, c1) in (length xs + fst s, snd s))" by auto
    then show ?thesis
    proof cases
      case 1
      then show ?thesis using feed False n pc st by (simp add: feed_go Let_def)
    next
      case 2
      then show ?thesis using False pc st by (simp add: feed_go Let_def)
    qed
  qed auto
qed

end


text \<open>The arrivals of a transfer, one after another.\<close>

definition feed_all ::
  "('c \<Rightarrow> string \<Rightarrow> int \<times> 'c) \<Rightarrow> string list \<Rightarrow> http_parser \<times> 'c \<Rightarrow> http_parser \<times> 'c" where
  "feed_all sink ds pc = fold (\<lambda>d pc. snd (http_parser_feed sink d pc)) ds pc"

definition collect :: "string \<Rightarrow> string \<Rightarrow> int \<times> string" where
  "collect body d = (0, body @ d)"

interpretation collect: accepting_sink collect
  by unfold_locales (simp_all add: collect_def)

context accepting_sink
begin

lemma feed_all_concat: "feed_all sink ds pc = snd (http_parser_feed sink (concat ds) pc)"
proof (induction ds arbitrary: pc)
  case (Cons d ds)
  have "feed_all sink (d # ds) pc = feed_all sink ds (snd (http_parser_feed sink d pc))"
    by (simp add: feed_all_def)
  with Cons show ?case by (simp add: feed_split Let_def)
qed (simp add: feed_all_def)

end

section \<open>Lines\<close>

definition line_state :: "http_state \<Rightarrow> bool" where
  "line_state s \<longleftrightarrow> s \<in> {ST_STATUS, ST_HEADERS, ST_CHUNK_SIZE, ST_CHUNK_CRLF, ST_TRAILER}"

lemma line_state_step:
  "line_state (state p) \<Longrightarrow> feed_step sink data (p, c) =
     (let (ready, p1) = feed_line (hd data) p in (1, if ready then line_done p1 else p1, c))"
  by (cases "state p") (auto simp: line_state_def feed_step_def)

lemma line_state_not_final: "line_state (state p) \<Longrightarrow> \<not> final p"
  by (auto simp: line_state_def final_def)

lemma feed_chars:
  assumes "line_state (state p)" "NL \<notin> set l" "length (line p) + length l < HTTP_LINE_MAX"
  shows "http_parser_feed sink (l @ rest) (p, c) =
     (let r = http_parser_feed sink rest (p\<lparr>line := line p @ l\<rparr>, c) in (length l + fst r, snd r))"
  using assms
proof (induction l arbitrary: p)
  case (Cons x l)
  let ?p = "p\<lparr>line := line p @ [x]\<rparr>"
  have "feed_step sink ((x # l) @ rest) (p, c) = (1, ?p, c)"
    using Cons.prems by (auto simp: line_state_step feed_line_def)
  moreover have "state ?p = state p" by simp
  ultimately show ?case using Cons.IH [of ?p] Cons.prems
    by (simp add: feed_go line_state_not_final Let_def)
qed (simp add: Let_def)

text \<open>A whole line, with or without its carriage return, is handed over once.\<close>

lemma feed_whole_line:
  assumes "line_state (state p)" "line p = []" "NL \<notin> set l" "CR \<notin> set l"
    and "length l + 1 < HTTP_LINE_MAX" "e = [CR, NL] \<or> e = [NL]"
  shows "snd (http_parser_feed sink (l @ e @ rest) (p, c)) =
     snd (http_parser_feed sink rest (line_done (p\<lparr>line := l, line_over := False\<rparr>), c))"
proof -
  have nl: "snd (http_parser_feed sink (NL # rest) (p\<lparr>line := l'\<rparr>, c)) =
      snd (http_parser_feed sink rest (line_done (p\<lparr>line := l, line_over := False\<rparr>), c))"
    if "l' = l \<or> l' = l @ [CR]" for l'
  proof -
    have "feed_line NL (p\<lparr>line := l'\<rparr>) = (True, p\<lparr>line := l, line_over := False\<rparr>)"
      using that assms(4) by (cases "l = []") (auto simp: feed_line_def dest: last_in_set)
    then have "feed_step sink (NL # rest) (p\<lparr>line := l'\<rparr>, c) =
        (1, line_done (p\<lparr>line := l, line_over := False\<rparr>), c)"
      using assms(1) by (simp add: line_state_step)
    then show ?thesis using assms(1) by (simp add: feed_go line_state_not_final Let_def)
  qed
  show ?thesis
  proof (cases "e = [NL]")
    case True
    then show ?thesis using feed_chars [OF assms(1,3), of sink "NL # rest" c] assms nl [of l]
      by (simp add: Let_def)
  next
    case False
    then show ?thesis
      using feed_chars [OF assms(1), of "l @ [CR]" sink "NL # rest" c] assms nl [of "l @ [CR]"]
      by (simp add: Let_def)
  qed
qed


section \<open>Chunked bodies\<close>

text \<open>What a server sends: each chunk with its size in hexadecimal, then an empty one.\<close>

definition CRLF :: string where "CRLF = [CR, NL]"

definition chunk_text :: "string \<Rightarrow> string" where
  "chunk_text d = to_hex (length d) @ CRLF @ d @ CRLF"

definition chunked_text :: "string list \<Rightarrow> string" where
  "chunked_text cs = concat (map chunk_text cs) @ ''0'' @ CRLF @ CRLF"

abbreviation between_chunks :: "http_parser \<Rightarrow> int \<Rightarrow> http_parser" where
  "between_chunks p seen \<equiv> p\<lparr>state := ST_CHUNK_SIZE, line := [], line_over := False,
     chunk_left := 0, body_seen := seen\<rparr>"

lemma feed_chunk:
  assumes "d \<noteq> []" "length d < 2 ^ 32"
  shows "snd (http_parser_feed collect (chunk_text d @ rest) (between_chunks p k, c)) =
     snd (http_parser_feed collect rest (between_chunks p (k + int (length d)), c @ d))"
proof -
  let ?p = "between_chunks p k" and ?n = "length d"
  let ?q = "?p\<lparr>state := ST_CHUNK_DATA, chunk_left := ?n\<rparr>"
  let ?r = "?p\<lparr>state := ST_CHUNK_CRLF, body_seen := k + int ?n\<rparr>"
  have "line_done (?p\<lparr>line := to_hex ?n, line_over := False\<rparr>) = ?q"
    using assms by (simp add: line_done_def chunk_size_line_def cstr_to_base strtoll_to_base line_reset_def)
  then have 1: "snd (http_parser_feed collect (to_hex ?n @ CRLF @ d @ CRLF @ rest) (?p, c)) =
      snd (http_parser_feed collect (d @ CRLF @ rest) (?q, c))"
    using feed_whole_line [of ?p "to_hex ?n" CRLF collect "d @ CRLF @ rest" c] to_base_line [of 16 ?n]
      to_base_length [of 16 ?n 7] assms(2)
    by (simp add: line_state_def CRLF_def HTTP_LINE_MAX_def)
  have "feed_step collect (d @ CRLF @ rest) (?q, c) = (?n, ?r, c @ d)"
    using assms(1) by (simp add: feed_step_def collect.emit_accepts Let_def line_reset_def collect_def)
  then have 2: "snd (http_parser_feed collect (d @ CRLF @ rest) (?q, c)) =
      snd (http_parser_feed collect (CRLF @ rest) (?r, c @ d))"
    using assms(1) by (simp add: feed_go final_def Let_def)
  have "line_done (?r\<lparr>line := [], line_over := False\<rparr>) = between_chunks p (k + int ?n)"
    by (simp add: line_done_def line_reset_def)
  then have "snd (http_parser_feed collect (CRLF @ rest) (?r, c @ d)) =
      snd (http_parser_feed collect rest (between_chunks p (k + int ?n), c @ d))"
    using feed_whole_line [of ?r "[]" CRLF collect rest "c @ d"]
    by (simp add: line_state_def CRLF_def HTTP_LINE_MAX_def)
  with 1 2 show ?thesis by (simp add: chunk_text_def)
qed

lemma feed_chunked:
  assumes "\<forall>d \<in> set cs. d \<noteq> [] \<and> length d < 2 ^ 32"
  shows "snd (http_parser_feed collect (chunked_text cs) (between_chunks p k, c)) =
     (between_chunks p (k + int (length (concat cs)))\<lparr>state := ST_DONE\<rparr>, c @ concat cs)"
  using assms
proof (induction cs arbitrary: k c)
  case Nil
  let ?p = "between_chunks p k"
  have "line_done (?p\<lparr>line := ''0'', line_over := False\<rparr>) = ?p\<lparr>state := ST_TRAILER\<rparr>"
    by (simp add: line_done_def chunk_size_line_def line_reset_def strtoll_def skip_0x_def cstr_def
        is_space_def digit_of_def is_digit_def digit_val_def base_value_def Let_def less_eq_char_def)
  moreover have "line_done (?p\<lparr>state := ST_TRAILER, line := [], line_over := False\<rparr>) =
      ?p\<lparr>state := ST_DONE\<rparr>"
    by (simp add: line_done_def line_reset_def)
  ultimately show ?case
    using feed_whole_line [of ?p "''0''" CRLF collect CRLF c]
      feed_whole_line [of "?p\<lparr>state := ST_TRAILER\<rparr>" "[]" CRLF collect "[]" c]
    by (simp add: line_state_def CRLF_def HTTP_LINE_MAX_def chunked_text_def)
next
  case (Cons d cs)
  then show ?case using feed_chunk [where d = d and rest = "chunked_text cs" and p = p and k = k and c = c]
    by (simp add: chunked_text_def add.assoc)
qed


section \<open>A whole response\<close>

definition chunked_head :: string where
  "chunked_head = ''HTTP/1.1 200 OK'' @ CRLF @ ''Transfer-Encoding: chunked'' @ CRLF @ CRLF"

definition sized_head :: "string \<Rightarrow> string" where
  "sized_head n = ''HTTP/1.1 200 OK'' @ CRLF @ ''Content-Length: '' @ n @ CRLF @ CRLF"

lemma status_200:
  "line_done (http_parser_init\<lparr>line := ''HTTP/1.1 200 OK'', line_over := False\<rparr>) =
     http_parser_init\<lparr>state := ST_HEADERS, status := 200\<rparr>"
  by (simp add: line_done_def http_parser_init_def parse_status_line_def cstr_def is_digit_def
      strtol10_def dec_value_def digit_val_def is_space_def Let_def note_header_def line_reset_def
      less_eq_char_def)

lemma feed_status_200:
  "snd (http_parser_feed sink (''HTTP/1.1 200 OK'' @ CRLF @ rest) (http_parser_init, c)) =
   snd (http_parser_feed sink rest (http_parser_init\<lparr>state := ST_HEADERS, status := 200\<rparr>, c))"
proof -
  have 1: "state http_parser_init = ST_STATUS" "line http_parser_init = []"
    by (simp_all add: http_parser_init_def)
  show ?thesis
    using feed_whole_line [of http_parser_init "''HTTP/1.1 200 OK''" CRLF sink rest c] status_200
    by (simp add: 1 line_state_def CRLF_def HTTP_LINE_MAX_def)
qed


lemma header_tests:
  "hdr_is ''Transfer-Encoding: chunked'' ''content-length'' = False"
  "hdr_is ''Transfer-Encoding: chunked'' ''transfer-encoding''"
  "sublist ''chunked'' (map lower (take 47 (hdr_value ''Transfer-Encoding: chunked'')))"
  by code_simp+

lemma hdr_is_content_length: "hdr_is (''Content-Length: '' @ v) ''content-length''"
proof -
  have "\<forall>(a, b) \<in> set (zip ''Content-Length'' ''content-length''). lower a = lower b" by code_simp
  then show ?thesis by simp
qed

lemma feed_chunked_head:
  "snd (http_parser_feed sink (chunked_head @ rest) (http_parser_init, c)) =
   snd (http_parser_feed sink rest
     (http_parser_init\<lparr>state := ST_CHUNK_SIZE, status := 200, chunked := True\<rparr>, c))"
proof -
  let ?h = "http_parser_init\<lparr>state := ST_HEADERS, status := 200\<rparr>"
  have f: "line http_parser_init = []" "line_over http_parser_init = False"
    "header_cb http_parser_init = False" "head_only http_parser_init = False"
    by (simp_all add: http_parser_init_def)
  have 1: "line_done (?h\<lparr>line := ''Transfer-Encoding: chunked'', line_over := False\<rparr>) =
      ?h\<lparr>chunked := True, line_over := False\<rparr>"
    using header_tests
    by (simp add: line_done_def note_header_def f parse_header_line_def line_reset_def cstr_def Let_def)
  have 2: "line_done (?h\<lparr>chunked := True, line := [], line_over := False\<rparr>) =
      http_parser_init\<lparr>state := ST_CHUNK_SIZE, status := 200, chunked := True\<rparr>"
    by (simp add: line_done_def headers_complete_def line_reset_def http_parser_init_def)
  have "snd (http_parser_feed sink (''Transfer-Encoding: chunked'' @ CRLF @ CRLF @ rest) (?h, c)) =
      snd (http_parser_feed sink (CRLF @ rest) (?h\<lparr>chunked := True, line_over := False\<rparr>, c))"
    by (subst feed_whole_line) (simp_all only: 1, simp_all add: line_state_def CRLF_def HTTP_LINE_MAX_def f)
  then show ?thesis
    using feed_whole_line [of "?h\<lparr>chunked := True, line_over := False\<rparr>" "[]" CRLF sink rest c] 2
    unfolding chunked_head_def append_assoc feed_status_200
    by (simp add: line_state_def CRLF_def HTTP_LINE_MAX_def f)
qed


lemma feed_sized_head:
  assumes "0 < n" "n < 2 ^ 32"
  shows "snd (http_parser_feed sink (sized_head (to_dec n) @ rest) (http_parser_init, c)) =
   snd (http_parser_feed sink rest
     (http_parser_init\<lparr>state := ST_BODY_LEN, status := 200, content_length := int n\<rparr>, c))"
proof -
  let ?h = "http_parser_init\<lparr>state := ST_HEADERS, status := 200\<rparr>"
  let ?l = "''Content-Length: '' @ to_dec n"
  have f: "line http_parser_init = []" "line_over http_parser_init = False"
    "header_cb http_parser_init = False" "head_only http_parser_init = False"
    by (simp_all add: http_parser_init_def)
  have "NUL \<notin> set ?l" using to_base_plain(3) [of 10 NUL n] by auto
  then have c: "cstr ?l = ?l" by (rule cstr_id)
  obtain x xs where x: "to_dec n = x # xs" using to_base_not_Nil by (cases "to_dec n") auto
  then have "x \<noteq> CHR '' ''" "x \<noteq> CHR 0x09" using to_base_plain(2) [of 10 x n] by (auto simp: is_space_def)
  then have v: "hdr_value ?l = to_dec n" by (simp add: hdr_value_def strchr_split_def x)
  have 1: "line_done (?h\<lparr>line := ?l, line_over := False\<rparr>) = ?h\<lparr>content_length := int n, line_over := False\<rparr>"
    using assms(2)
    by (simp add: line_done_def note_header_def f parse_header_line_def line_reset_def c [simplified]
        hdr_is_content_length [simplified] v [simplified] strtoll_to_base Let_def)
  have 2: "line_done (?h\<lparr>content_length := int n, line := [], line_over := False\<rparr>) =
      http_parser_init\<lparr>state := ST_BODY_LEN, status := 200, content_length := int n\<rparr>"
    using assms(1) by (simp add: line_done_def headers_complete_def line_reset_def http_parser_init_def)
  have "length (to_dec n) \<le> 10" using to_base_length [of 10 n 9] assms(2) by simp
  then have "snd (http_parser_feed sink (?l @ CRLF @ CRLF @ rest) (?h, c)) =
      snd (http_parser_feed sink (CRLF @ rest) (?h\<lparr>content_length := int n, line_over := False\<rparr>, c))"
    using to_base_line [of 10 n]
    by (subst feed_whole_line) (simp_all only: 1, simp_all add: line_state_def CRLF_def HTTP_LINE_MAX_def f)
  then show ?thesis
    using feed_whole_line [of "?h\<lparr>content_length := int n, line_over := False\<rparr>" "[]" CRLF sink rest c] 2
    unfolding sized_head_def append_assoc feed_status_200
    by (simp add: line_state_def CRLF_def HTTP_LINE_MAX_def f)
qed

section \<open>Bounds\<close>

definition http_inv :: "http_parser \<Rightarrow> bool" where
  "http_inv p \<longleftrightarrow> length (line p) < HTTP_LINE_MAX \<and> length (location p) < HTTP_LOC_MAX
     \<and> (\<forall>l \<in> set (header_log p). length l < HTTP_LINE_MAX)
     \<and> 0 \<le> body_seen p
     \<and> (state p = ST_BODY_LEN \<longrightarrow> body_seen p < content_length p)
     \<and> (state p = ST_CHUNK_DATA \<longrightarrow> 0 < chunk_left p)
     \<and> (state p \<in> {ST_STATUS, ST_HEADERS} \<longrightarrow> body_seen p = 0)"

lemma http_inv_state:
  "http_inv p \<Longrightarrow> s \<notin> {ST_BODY_LEN, ST_CHUNK_DATA, ST_STATUS, ST_HEADERS} \<Longrightarrow> http_inv (p\<lparr>state := s\<rparr>)"
  by (simp add: http_inv_def)

lemma line_reset_inv: "http_inv q \<Longrightarrow> http_inv (line_reset q)"
  by (simp add: http_inv_def line_reset_def HTTP_LINE_MAX_def)

lemma cstr_length: "length (cstr s) \<le> length s"
  by (simp add: cstr_def length_takeWhile_le)

lemma feed_line_inv: "http_inv p \<Longrightarrow> http_inv (snd (feed_line c p)) \<and> state (snd (feed_line c p)) = state p"
  using length_butlast [of "line p"] by (auto simp: http_inv_def feed_line_def)

lemma note_header_inv: "http_inv p \<Longrightarrow> http_inv (note_header p) \<and> state (note_header p) = state p"
  using cstr_length [of "line p"] by (auto simp: http_inv_def note_header_def)

lemma copy_bounded_length: "copy_bounded n v = Some s \<Longrightarrow> length s < n"
  by (auto simp: copy_bounded_def split: if_splits)

lemma parse_status_line_inv:
  assumes "http_inv p" "state p = ST_STATUS"
  shows "http_inv (parse_status_line p)"
proof -
  have 1: "http_inv (p\<lparr>status := k\<rparr>)" for k using assms by (simp add: http_inv_def)
  have "http_inv ((note_header (p\<lparr>status := k\<rparr>))\<lparr>state := ST_HEADERS\<rparr>)" for k
    using note_header_inv [OF 1, of k] assms(2) by (simp add: http_inv_def)
  then show ?thesis using assms(1) http_inv_state [OF 1] http_inv_state [OF assms(1)]
    by (simp add: parse_status_line_def Let_def)
qed

lemma parse_header_line_inv:
  assumes "http_inv p" "state p = ST_HEADERS"
  shows "http_inv (parse_header_line p)"
proof -
  have 1: "http_inv (p\<lparr>content_length := n\<rparr>)" "http_inv (p\<lparr>chunked := b\<rparr>)" for n b
    using assms by (simp_all add: http_inv_def)
  have 2: "http_inv (p\<lparr>location := s\<rparr>)" if "copy_bounded HTTP_LOC_MAX v = Some s" for v s
    using assms copy_bounded_length [OF that] by (simp add: http_inv_def)
  show ?thesis using assms(1) 1 2
    by (auto simp: parse_header_line_def Let_def simp del: hdr_is.simps split: option.splits)
qed

lemma line_done_inv:
  assumes "http_inv p" "line_state (state p)"
  shows "http_inv (line_done p)"
proof -
  have "http_inv (headers_complete p)" if "state p = ST_HEADERS"
    using that assms(1) line_reset_inv [OF http_inv_state [OF assms(1), of ST_CHUNK_SIZE]]
    by (auto simp: headers_complete_def http_inv_state) (simp add: http_inv_def)
  moreover have "http_inv (chunk_size_line p)" if "state p = ST_CHUNK_SIZE"
    using assms(1) by (auto simp: chunk_size_line_def http_inv_state split: option.splits)
      (simp add: http_inv_def)
  ultimately show ?thesis
    unfolding line_done_def using assms parse_status_line_inv parse_header_line_inv
      note_header_inv [OF assms(1)] http_inv_state [OF assms(1)]
    by (intro line_reset_inv) (cases "state p"; simp add: line_state_def)
qed

lemma feed_step_inv:
  assumes "http_inv p" "\<not> final p"
  shows "http_inv (fst (snd (feed_step sink data (p, c))))"
proof (cases "line_state (state p)")
  case True
  then show ?thesis using feed_line_inv [OF assms(1), of "hd data"] line_done_inv
    by (auto simp: line_state_step split_beta)
next
  case False
  then consider "state p = ST_BODY_LEN" | "state p = ST_BODY_EOF" | "state p = ST_CHUNK_DATA"
    using assms(2) by (cases "state p") (auto simp: line_state_def final_def)
  then show ?thesis
  proof cases
    case 1
    then show ?thesis using assms(1)
      by (auto simp: feed_step_def emit_def http_inv_def Let_def split_beta min_def split: if_splits)
  qed (use assms(1) in \<open>simp_all add: feed_step_def emit_def http_inv_def Let_def split_beta
        line_reset_def HTTP_LINE_MAX_def\<close>)
qed

lemma feed_inv: "http_inv (fst pc) \<Longrightarrow> http_inv (fst (snd (http_parser_feed sink data pc)))"
proof (induction data pc rule: feed_induct [where sink = sink])
  case (feed data pc)
  show ?case
  proof (cases "data = [] \<or> final (fst pc)")
    case False
    then show ?thesis using feed feed_step_inv [of "fst pc" sink data "snd pc"]
      by (simp add: feed_go Let_def)
  qed (use feed in auto)
qed


section \<open>URLs\<close>

definition url_wf :: "http_url \<Rightarrow> bool" where
  "url_wf u \<longleftrightarrow> host u \<noteq> [] \<and> (\<forall>c \<in> set (host u). host_char c) \<and> length (host u) < HTTP_HOST_MAX
     \<and> 0 < port u \<and> port u \<le> 65535
     \<and> path u \<noteq> [] \<and> hd (path u) = CHR ''/'' \<and> length (path u) < HTTP_PATH_MAX"

definition url_text :: "http_url \<Rightarrow> string" where
  "url_text u = (if tls u then ''https://'' else ''http://'') @ host u @ '':'' @ to_dec (port u) @ path u"

lemma port_loop_bound: "port_loop v s = Some (n, rest) \<Longrightarrow> v \<le> 65535 \<Longrightarrow> n \<le> 65535"
  by (induction v s arbitrary: n rest rule: port_loop.induct) (auto simp: Let_def split: if_splits)

lemma foldl_base_ge: "(v :: nat) \<le> foldl (\<lambda>v d. v * 10 + digit_of d) v ds"
proof (induction ds arbitrary: v)
  case (Cons d ds)
  show ?case using Cons [of "v * 10 + digit_of d"] by simp
qed simp

lemma port_loop_digits:
  assumes "\<forall>c \<in> set ds. is_digit c" "foldl (\<lambda>v d. v * 10 + digit_of d) v ds \<le> 65535"
    and "rest = [] \<or> \<not> is_digit (hd rest)"
  shows "port_loop v (ds @ rest) = Some (foldl (\<lambda>v d. v * 10 + digit_of d) v ds, rest)"
  using assms
proof (induction ds arbitrary: v)
  case Nil
  then show ?case by (cases rest) auto
next
  case (Cons d ds)
  then have "v * 10 + digit_of d \<le> 65535"
    using foldl_base_ge [of "v * 10 + digit_of d" ds] by simp
  with Cons show ?case by (simp add: digit_of_def Let_def)
qed

lemma digit_of_10: "digit_of c < 10 \<longleftrightarrow> is_digit c"
  by (auto simp: digit_of_def digit_val_def is_digit_def less_eq_char_def)

lemma parse_url_text:
  assumes "url_wf u"
  shows "http_parse_url (Some (url_text u)) = Some u"
proof -
  let ?p = "CHR '':'' # to_dec (port u) @ path u"
  have digits: "\<forall>c \<in> set (to_dec (port u)). is_digit c"
    using to_base_plain(1) [of 10 _ "port u"] digit_of_10 by simp
  have val: "foldl (\<lambda>v d. v * 10 + digit_of d) 0 (to_dec (port u)) = port u"
    using to_base_value [of 10 "port u"] by (simp add: base_value_def)
  have sl: "\<not> is_digit (CHR ''/'')" by (simp add: is_digit_def less_eq_char_def)
  have "port_loop 0 (to_dec (port u) @ path u) = Some (port u, path u)"
    using port_loop_digits [OF digits, of 0 "path u"] val sl assms by (simp add: url_wf_def)
  then have port: "url_port d ?p = Some (port u, path u)" for d
    using assms to_base_not_Nil by (simp add: url_port_def url_wf_def)
  have tw: "takeWhile host_char (host u @ ?p) = host u" "dropWhile host_char (host u @ ?p) = ?p"
    using assms by (simp_all add: url_wf_def host_char_def takeWhile_append2)
  have "url_scheme (url_text u) = Some (tls u, if tls u then 443 else 80, host u @ ?p)"
    by (simp add: url_scheme_def url_text_def)
  moreover have "\<not> host_char (CHR '':'')" by (simp add: host_char_def)
  ultimately show ?thesis using assms port
    by (cases u) (simp add: http_parse_url_def tw Let_def copy_bounded_def url_wf_def)
qed

lemma parse_url_wf:
  assumes "http_parse_url s = Some u"
  shows "url_wf u"
proof -
  from assms obtain url t d r where s: "s = Some url" "url_scheme url = Some (t, d, r)"
    by (auto simp: http_parse_url_def split: option.splits)
  define hs where "hs = takeWhile host_char r"
  have hs: "\<forall>c \<in> set hs. host_char c" unfolding hs_def by (auto dest: set_takeWhileD)
  have d: "0 < d \<and> d \<le> 65535" using s(2) by (auto simp: url_scheme_def split: if_splits)
  have pt: "0 < n \<and> n \<le> 65535" if "url_port d p = Some (n, q)" for p n q
    using that d port_loop_bound by (auto simp: url_port_def split: list.splits if_splits option.splits)
  show ?thesis using assms hs pt
    by (auto simp: http_parse_url_def s Let_def hs_def [symmetric] copy_bounded_def url_wf_def http_limits
        split: option.splits if_splits)
qed


section \<open>Properties\<close>

text \<open>
  C15.  Feeding the parser is independent of how TCP cuts the response up: any sequence of
  arrivals leaves the parser and the receiver exactly as one arrival of all the bytes does,
  from any parser state, for a receiver that accepts what it is given.
\<close>

theorem http_any_split:
  assumes "accepting_sink sink"
  shows "feed_all sink ds pc = snd (http_parser_feed sink (concat ds) pc)"
  using accepting_sink.feed_all_concat [OF assms] by blast

theorem http_any_split_witness:
  "feed_all collect [''HT'', ''TP/1.1 20'', ''4 x'', [CR], [NL, NL]] (http_parser_init, []) =
   snd (http_parser_feed collect (''HTTP/1.1 204 x'' @ [CR, NL, NL]) (http_parser_init, []))"
  using http_any_split [OF collect.accepting_sink_axioms,
      of "[''HT'', ''TP/1.1 20'', ''4 x'', [CR], [NL, NL]]" "(http_parser_init, [])"] by simp

text \<open>
  C16.  A chunked response is decoded exactly: however the arrivals cut it up, the receiver
  ends with the concatenation of the chunks and the parser is done.
\<close>

theorem http_chunked_delivery:
  assumes "\<forall>d \<in> set cs. d \<noteq> [] \<and> length d < 2 ^ 32"
    and "concat ds = chunked_head @ chunked_text cs"
  shows "let (p, body) = feed_all collect ds (http_parser_init, [])
         in http_parser_done p \<and> body = concat cs"
proof -
  let ?q = "http_parser_init\<lparr>status := 200, chunked := True\<rparr>"
  have "http_parser_init\<lparr>state := ST_CHUNK_SIZE, status := 200, chunked := True\<rparr> = between_chunks ?q 0"
    by (simp add: http_parser_init_def)
  then have "feed_all collect ds (http_parser_init, []) =
      snd (http_parser_feed collect (chunked_text cs) (between_chunks ?q 0, []))"
    unfolding collect.feed_all_concat assms(2) feed_chunked_head by simp
  then show ?thesis
    using feed_chunked [OF assms(1), where p = ?q and k = 0 and c = "[]"] by (simp add: http_parser_done_def)
qed

theorem http_chunked_delivery_witness:
  "snd (feed_all collect [chunked_head, chunked_text [''hello '', ''world'']] (http_parser_init, []))
   = ''hello world''"
  using http_chunked_delivery [of "[''hello '', ''world'']"
      "[chunked_head, chunked_text [''hello '', ''world'']]"]
  by (simp add: split_beta)

text \<open>
  A response with a \<open>Content-Length\<close> delivers exactly that many bytes: the whole body
  makes the parser done and anything after it is left alone; with the connection closing
  early the receiver has what arrived and the parser reports failure, never completion.
\<close>

theorem http_sized_delivery:
  assumes "0 < n" "n < 2 ^ 32" "concat ds = sized_head (to_dec n) @ body"
  shows "let (p, got) = feed_all collect ds (http_parser_init, [])
         in got = take n body
            \<and> (http_parser_done (http_parser_eof p) \<longleftrightarrow> n \<le> length body)
            \<and> (http_parser_failed (http_parser_eof p) \<longleftrightarrow> length body < n)"
proof -
  let ?q = "http_parser_init\<lparr>state := ST_BODY_LEN, status := 200, content_length := int n\<rparr>"
  have f: "body_seen http_parser_init = 0" by (simp add: http_parser_init_def)
  have all: "feed_all collect ds (http_parser_init, []) = snd (http_parser_feed collect body (?q, []))"
    unfolding collect.feed_all_concat assms(3) feed_sized_head [OF assms(1,2)] ..
  show ?thesis
  proof (cases "body = []")
    case True
    then show ?thesis using assms(1) unfolding all
      by (simp add: http_parser_done_def http_parser_eof_def http_parser_failed_def)
  next
    case False
    define k where "k = min n (length body)"
    have "feed_step collect body (?q, []) = (k, (if n \<le> length body
        then ?q\<lparr>body_seen := int k, state := ST_DONE\<rparr> else ?q\<lparr>body_seen := int k\<rparr>), take k body)"
      using False assms(1)
      by (auto simp: feed_step_def collect.emit_accepts collect_def Let_def f k_def min_def)
    then show ?thesis using False assms(1) unfolding all
      by (auto simp: feed_go Let_def final_def http_parser_done_def http_parser_failed_def
          http_parser_eof_def k_def min_def)
  qed
qed

theorem http_sized_delivery_witness:
  "snd (feed_all collect [sized_head (to_dec 3) @ ''a'', ''bcd''] (http_parser_init, [])) = ''abc''"
  using http_sized_delivery [of 3 "[sized_head (to_dec 3) @ ''a'', ''bcd'']" "''abcd''"]
  by (simp add: split_beta)

text \<open>
  Whatever bytes arrive and whatever the receiver answers, the parser stays inside its
  buffers: the line, every header line reported and the redirect target are shorter than
  their arrays; the body count never goes negative, stays below the promised length while
  one is being read, and a chunk being read has bytes left.
\<close>

theorem http_always_bounded:
  "http_inv (fst (feed_all sink ds (http_parser_init\<lparr>head_only := h, header_cb := b\<rparr>, ctx)))"
proof -
  have "http_inv (fst pc) \<Longrightarrow> http_inv (fst (feed_all sink ds pc))" for pc
    unfolding feed_all_def by (induction ds arbitrary: pc) (simp_all add: feed_inv)
  moreover have "http_inv (http_parser_init\<lparr>head_only := h, header_cb := b\<rparr>)"
    by (simp add: http_inv_def http_parser_init_def http_limits)
  ultimately show ?thesis by simp
qed


end
