(* ===== verification/Protect.thy ===== *)
theory Protect
  imports Users
begin

text \<open>
  Which paths an account may touch: \<open>os/core/path.cpp\<close> (normalisation), \<open>os/core/protect.cpp\<close>
  (the protected files), \<open>os/core/perms.cpp\<close> (command levels) and \<open>os/shell/fsguard.cpp\<close>
  (the question the shell and the package calls ask).
\<close>

section \<open>Model\<close>

subsection \<open>Path normalisation\<close>

abbreviation SL :: char where "SL \<equiv> CHR ''/''"

definition PATH_WORK :: nat where "PATH_WORK = 192"
definition PATH_PARTS :: nat where "PATH_PARTS = 16"
definition PART_MAX :: nat where "PART_MAX = 40"

lemmas path_limits = PATH_WORK_def PATH_PARTS_def PART_MAX_def

text \<open>The path before it is cut to the work buffer.\<close>

definition path_full :: "string \<Rightarrow> string \<Rightarrow> string" where
  "path_full cwd inp =
     (if inp \<noteq> [] \<and> hd inp = SL then inp
      else if cwd = ''/'' then SL # inp
      else cwd @ SL # inp)"

definition path_step :: "string \<Rightarrow> string list \<Rightarrow> string list" where
  "path_step c parts =
     (if c = ''.'' then parts
      else if c = ''..'' then butlast parts
      else if length parts < PATH_PARTS \<and> length c < PART_MAX then parts @ [c]
      else parts)"

function path_loop :: "string \<Rightarrow> string list \<Rightarrow> string list" where
  "path_loop p parts =
     (let p1 = dropWhile (\<lambda>c. c = SL) p in
      if p1 = [] then parts
      else path_loop (dropWhile (\<lambda>c. c \<noteq> SL) p1) (path_step (takeWhile (\<lambda>c. c \<noteq> SL) p1) parts))"
  by pat_completeness auto

lemma dropWhile_progress:
  assumes "dropWhile (\<lambda>c. c = SL) p \<noteq> []"
  shows "length (dropWhile (\<lambda>c. c \<noteq> SL) (dropWhile (\<lambda>c. c = SL) p)) < length p"
proof -
  obtain x xs where x: "dropWhile (\<lambda>c. c = SL) p = x # xs" using assms by (cases "dropWhile (\<lambda>c. c = SL) p") auto
  then have "x \<noteq> SL" using hd_dropWhile [OF assms] by simp
  then have "length (dropWhile (\<lambda>c. c \<noteq> SL) (x # xs)) \<le> length xs" by (simp add: length_dropWhile_le)
  also have "\<dots> < length p" using length_dropWhile_le [of "\<lambda>c. c = SL" p] x by simp
  finally show ?thesis by (simp add: x)
qed

termination path_loop
  by (relation "measure (\<lambda>(p, parts). length p)") (auto intro: dropWhile_progress)

declare path_loop.simps [simp del]

text \<open>The output loop: \<open>w\<close> is what would have been written, even past the buffer.\<close>

fun path_join :: "nat \<Rightarrow> nat \<Rightarrow> string list \<Rightarrow> string" where
  "path_join cap w [] = []"
| "path_join cap w (c # cs) =
     (if w < cap then snprintf (cap - w) (SL # c) @ path_join cap (w + length (SL # c)) cs else [])"

definition path_resolve :: "string \<Rightarrow> string \<Rightarrow> nat \<Rightarrow> string" where
  "path_resolve cwd inp cap =
     (let work = snprintf PATH_WORK (path_full cwd inp);
          parts = path_loop work []
      in if parts = [] then snprintf cap ''/'' else path_join cap 0 parts)"

subsection \<open>Protected files\<close>

definition kSecret :: "string list" where
  "kSecret = [''/os/registry.cfg'', ''/os/registry.bak'', ''/os/users.cfg'', ''/os/users.bak'',
     ''/os/device.key'']"

definition kDir :: string where "kDir = ''/os''"

definition CANON_MAX :: nat where "CANON_MAX = 192"

definition fold_case :: "char \<Rightarrow> char" where
  "fold_case c = (if CHR ''A'' \<le> c \<and> c \<le> CHR ''Z'' then char_of (of_char c + 32 :: nat) else c)"

function strip_slash :: "string \<Rightarrow> string" where
  "strip_slash s = (if 1 < length s \<and> last s = SL then strip_slash (butlast s) else s)"
  by pat_completeness auto
termination by (relation "measure length") auto

declare strip_slash.simps [simp del]

definition canon :: "string \<Rightarrow> string option" where
  "canon path =
     (if length path \<ge> CANON_MAX then None
      else Some (map fold_case (strip_slash (path_resolve ''/'' path CANON_MAX))))"

definition protect_secret :: "string option \<Rightarrow> bool" where
  "protect_secret pathp =
     (case pathp of None \<Rightarrow> False | Some path \<Rightarrow>
        case canon path of None \<Rightarrow> True | Some c \<Rightarrow> c \<in> set kSecret)"

text \<open>\<open>strrchr (c, '/')\<close>: what is before and after the last slash.\<close>

definition strrchr_split :: "char \<Rightarrow> string \<Rightarrow> (string \<times> string) option" where
  "strrchr_split x s =
     map_option (\<lambda>(a, b). (rev b, rev a)) (strchr_split x (rev s))"

definition protect_reaches :: "string option \<Rightarrow> bool" where
  "protect_reaches pathp =
     (case pathp of None \<Rightarrow> False | Some path \<Rightarrow>
        case canon path of None \<Rightarrow> True | Some c \<Rightarrow>
          if protect_secret (Some c) then True
          else if c = ''/'' \<or> c = kDir then True
          else case strrchr_split SL c of
            None \<Rightarrow> False
          | Some (dir, name) \<Rightarrow>
              (CHR ''*'' \<in> set name \<or> CHR ''?'' \<in> set name) \<and> (dir = [] \<or> dir = kDir))"

subsection \<open>Levels and sessions\<close>

datatype cmd_level = LEVEL_USER | LEVEL_ADMIN

definition perms_allows :: "string \<Rightarrow> bool \<Rightarrow> cmd_level \<Rightarrow> bool \<Rightarrow> bool" where
  "perms_allows user is_admin level elevated =
     (if level = LEVEL_USER then True else is_admin \<and> (is_admin \<or> elevated))"

definition fs_session_restricted :: "users \<Rightarrow> string option \<Rightarrow> bool" where
  "fs_session_restricted us session_user =
     (case session_user of None \<Rightarrow> False | Some u \<Rightarrow> u \<noteq> [] \<and> \<not> users_is_admin us u)"

definition fs_may_read :: "users \<Rightarrow> string option \<Rightarrow> string \<Rightarrow> bool" where
  "fs_may_read us su p = (\<not> fs_session_restricted us su \<or> \<not> protect_secret (Some p))"

definition fs_may_change :: "users \<Rightarrow> string option \<Rightarrow> string \<Rightarrow> bool" where
  "fs_may_change us su p = (\<not> fs_session_restricted us su \<or> \<not> protect_reaches (Some p))"

section \<open>Lexical reference\<close>

text \<open>
  The components of a path between slashes, and the directory they lead to by name: \<open>.\<close>
  stays, \<open>..\<close> goes up but not above the root.
\<close>

function components :: "string \<Rightarrow> string list" where
  "components p =
     (let p1 = dropWhile (\<lambda>c. c = SL) p in
      if p1 = [] then []
      else takeWhile (\<lambda>c. c \<noteq> SL) p1 # components (dropWhile (\<lambda>c. c \<noteq> SL) p1))"
  by pat_completeness auto
termination by (relation "measure length") (auto intro: dropWhile_progress)

declare components.simps [simp del]

definition lex_step :: "string \<Rightarrow> string list \<Rightarrow> string list" where
  "lex_step c parts = (if c = ''.'' then parts else if c = ''..'' then butlast parts else parts @ [c])"

definition lexical :: "string \<Rightarrow> string list" where
  "lexical p = fold lex_step (components p) []"

definition path_text :: "string list \<Rightarrow> string" where
  "path_text ps = (if ps = [] then ''/'' else concat (map ((#) SL) ps))"

definition path_fits :: "string \<Rightarrow> bool" where
  "path_fits p \<longleftrightarrow> length p < PATH_WORK \<and> p \<noteq> [] \<and> hd p = SL
     \<and> length (components p) \<le> PATH_PARTS \<and> (\<forall>c \<in> set (components p). length c < PART_MAX)"

lemma path_loop_fold: "path_loop p parts = fold path_step (components p) parts"
proof (induction p parts rule: path_loop.induct)
  case (1 p parts)
  then show ?case
    by (subst path_loop.simps, subst components.simps) (simp add: Let_def)
qed

lemma fold_step_lex:
  assumes "length parts + length cs \<le> PATH_PARTS" "\<forall>c \<in> set cs. length c < PART_MAX"
  shows "fold path_step cs parts = fold lex_step cs parts"
  using assms
proof (induction cs arbitrary: parts)
  case (Cons c cs)
  have "path_step c parts = lex_step c parts"
    using Cons.prems by (simp add: path_step_def lex_step_def)
  moreover have "length (lex_step c parts) + length cs \<le> PATH_PARTS"
    using Cons.prems(1) by (auto simp: lex_step_def)
  ultimately show ?case using Cons by simp
qed simp

lemma path_join_eq: "path_join cap w ps = take (cap - w - 1) (concat (map ((#) SL) ps))"
proof (induction ps arbitrary: w)
  case (Cons c ps)
  show ?case
  proof (cases "w + length (SL # c) < cap")
    case True
    then show ?thesis using Cons [of "w + length (SL # c)"]
      by (simp add: snprintf_def take_Cons' algebra_simps)
  next
    case False
    then have "path_join cap (w + length (SL # c)) ps = []" by (cases ps) auto
    with False show ?thesis by (simp add: snprintf_def take_Cons')
  qed
qed simp

lemma components_Nil [simp]: "components [] = []"
  by (simp add: components.simps)

lemma components_length:
  "sum_list (map (\<lambda>c. length c + 1) (components p)) \<le> length p + (if p = [] \<or> hd p = SL then 0 else 1)"
proof (induction p rule: components.induct)
  case (1 p)
  define p1 where "p1 = dropWhile (\<lambda>c. c = SL) p"
  define c where "c = takeWhile (\<lambda>c. c \<noteq> SL) p1"
  define r where "r = dropWhile (\<lambda>c. c \<noteq> SL) p1"
  show ?case
  proof (cases "p1 = []")
    case True
    then show ?thesis unfolding p1_def by (subst components.simps) simp
  next
    case False
    have "components p = c # components r"
      using False unfolding c_def r_def p1_def by (subst components.simps) (simp add: Let_def)
    moreover have "sum_list (map (\<lambda>c. length c + 1) (components r)) \<le> length r"
      using 1 [OF p1_def] False hd_dropWhile [of "\<lambda>c. c \<noteq> SL" p1]
      unfolding r_def by (auto split: if_splits)
    moreover have "length c + length r = length p1"
      unfolding c_def r_def by (metis length_append takeWhile_dropWhile_id)
    moreover have "length p1 + (if hd p = SL then 1 else 0) \<le> length p" "p \<noteq> []"
      using False unfolding p1_def
      by (cases p; simp add: length_dropWhile_le le_SucI)+
    ultimately show ?thesis by (auto split: if_splits)
  qed
qed

lemma lex_step_sum:
  "sum_list (map (\<lambda>c. length c + 1) (lex_step c ps)) \<le> length c + 1 + sum_list (map (\<lambda>c. length c + 1) ps)"
  by (cases ps rule: rev_cases) (auto simp: lex_step_def)

lemma fold_lex_sum:
  "sum_list (map (\<lambda>c. length c + 1) (fold lex_step cs ps)) \<le>
     sum_list (map (\<lambda>c. length c + 1) cs) + sum_list (map (\<lambda>c. length c + 1) ps)"
proof (induction cs arbitrary: ps)
  case (Cons c cs)
  show ?case using Cons [of "lex_step c ps"] lex_step_sum [of c ps] by simp
qed simp

lemma path_text_length:
  assumes "p \<noteq> []" "hd p = SL"
  shows "length (path_text (lexical p)) \<le> length p"
proof -
  have "length (concat (map ((#) SL) ps)) = sum_list (map (\<lambda>c. length c + 1) ps)" for ps
    by (induction ps) auto
  then show ?thesis
    using fold_lex_sum [of "components p" "[]"] components_length [of p] assms
    by (cases p) (auto simp: path_text_def lexical_def split: if_splits)
qed

text \<open>Within its limits the code computes the lexical path.\<close>

lemma path_resolve_fits:
  assumes "path_fits (path_full cwd inp)"
  shows "path_resolve cwd inp cap = snprintf cap (path_text (lexical (path_full cwd inp)))"
proof -
  let ?p = "path_full cwd inp"
  have "snprintf PATH_WORK ?p = ?p" using assms by (auto simp: path_fits_def snprintf_def PATH_WORK_def)
  moreover have "path_loop ?p [] = lexical ?p"
    using assms fold_step_lex [of "[]" "components ?p"]
    by (simp add: path_loop_fold lexical_def path_fits_def)
  ultimately show ?thesis
    by (simp add: path_resolve_def Let_def path_join_eq path_text_def snprintf_def)
qed

text \<open>Whatever it is given, its result is a clean absolute path.\<close>

definition clean_part :: "string \<Rightarrow> bool" where
  "clean_part c \<longleftrightarrow> c \<noteq> [] \<and> c \<noteq> ''.'' \<and> c \<noteq> ''..'' \<and> SL \<notin> set c"

lemma components_parts: "c \<in> set (components p) \<Longrightarrow> c \<noteq> [] \<and> SL \<notin> set c"
proof (induction p rule: components.induct)
  case (1 p)
  define p1 where "p1 = dropWhile (\<lambda>c. c = SL) p"
  have "SL \<notin> set (takeWhile (\<lambda>c. c \<noteq> SL) p1)" by (auto dest: set_takeWhileD)
  moreover have "takeWhile (\<lambda>c. c \<noteq> SL) p1 \<noteq> []" if "p1 \<noteq> []"
  proof (cases p1)
    case (Cons x xs)
    then have "x \<noteq> SL" using hd_dropWhile [of "\<lambda>c. c = SL" p] that unfolding p1_def [symmetric] by simp
    then show ?thesis using Cons by simp
  qed (use that in simp)
  moreover have ne: "p1 \<noteq> []"
  proof
    assume "p1 = []"
    then have "components p = []" unfolding p1_def by (subst components.simps) simp
    with 1(2) show False by simp
  qed
  moreover from ne have "components p = takeWhile (\<lambda>c. c \<noteq> SL) p1 # components (dropWhile (\<lambda>c. c \<noteq> SL) p1)"
    unfolding p1_def by (subst components.simps) (simp add: Let_def)
  ultimately show ?case using 1 p1_def by auto
qed

lemma path_parts_clean:
  assumes "\<forall>c \<in> set cs. c \<noteq> [] \<and> SL \<notin> set c" "\<forall>c \<in> set ps. clean_part c \<and> length c < PART_MAX"
    and "length ps \<le> PATH_PARTS"
  shows "(\<forall>c \<in> set (fold path_step cs ps). clean_part c \<and> length c < PART_MAX)
    \<and> length (fold path_step cs ps) \<le> PATH_PARTS"
  using assms
proof (induction cs arbitrary: ps)
  case (Cons c cs)
  have "path_step c ps = ps \<or> path_step c ps = butlast ps
      \<or> (path_step c ps = ps @ [c] \<and> clean_part c \<and> length c < PART_MAX \<and> length ps < PATH_PARTS)"
    using Cons.prems(1) unfolding path_step_def clean_part_def by simp
  then have sub: "set (path_step c ps) \<subseteq> set ps \<or>
      (set (path_step c ps) = insert c (set ps) \<and> clean_part c \<and> length c < PART_MAX)"
    and len: "length (path_step c ps) \<le> PATH_PARTS"
    using Cons.prems(3) by (auto dest: in_set_butlastD)
  have "\<forall>c \<in> set (path_step c ps). clean_part c \<and> length c < PART_MAX"
  proof
    fix d assume "d \<in> set (path_step c ps)"
    with sub have "d \<in> set ps \<or> clean_part d \<and> length d < PART_MAX" by (elim disjE conjE) auto
    with Cons.prems(2) show "clean_part d \<and> length d < PART_MAX" by (elim disjE) auto
  qed
  from Cons.IH [OF _ this len] Cons.prems(1) show ?case by simp
qed simp

lemma path_resolve_clean:
  "\<exists>ps. path_resolve cwd inp cap = snprintf cap (path_text ps) \<and> (\<forall>c \<in> set ps. clean_part c)
     \<and> length ps \<le> PATH_PARTS"
  using path_parts_clean [of "components (snprintf PATH_WORK (path_full cwd inp))" "[]"] components_parts
  by (fastforce simp: path_resolve_def Let_def path_loop_fold path_join_eq path_text_def snprintf_def)


lemma perms_level: "perms_allows u a l e \<longleftrightarrow> l = LEVEL_USER \<or> a"
  by (cases l) (auto simp: perms_allows_def)

section \<open>What canon computes\<close>

lemma path_text_last:
  assumes "\<forall>c \<in> set ps. clean_part c"
  shows "path_text ps = ''/'' \<or> last (path_text ps) \<noteq> SL"
proof (cases ps rule: rev_cases)
  case (snoc qs q)
  then have "q \<noteq> []" "SL \<notin> set q" using assms by (auto simp: clean_part_def)
  then have "last q \<noteq> SL" using last_in_set by fastforce
  then show ?thesis using snoc \<open>q \<noteq> []\<close> by (simp add: path_text_def)
qed (simp add: path_text_def)

lemma canon_fits:
  assumes "path_fits (path_full ''/'' p)" "length p < CANON_MAX"
  shows "canon p = Some (map fold_case (path_text (lexical (path_full ''/'' p))))"
proof -
  let ?f = "path_full ''/'' p"
  let ?t = "path_text (lexical ?f)"
  have f: "?f \<noteq> []" "hd ?f = SL" "length ?f < PATH_WORK" using assms(1) by (simp_all add: path_fits_def)
  have "length ?t < CANON_MAX" using path_text_length [OF f(1,2)] f(3) by (simp add: CANON_MAX_def PATH_WORK_def)
  then have res: "path_resolve ''/'' p CANON_MAX = ?t"
    using path_resolve_fits [OF assms(1)] by (simp add: snprintf_def CANON_MAX_def)
  have "lexical ?f = fold path_step (components ?f) []"
    using assms(1) fold_step_lex [of "[]" "components ?f"] by (simp add: lexical_def path_fits_def)
  then have "\<forall>c \<in> set (lexical ?f). clean_part c"
    using path_parts_clean [of "components ?f" "[]"] components_parts by auto
  from path_text_last [OF this] have "strip_slash ?t = ?t" by (subst strip_slash.simps) auto
  then show ?thesis using assms(2) res by (simp add: canon_def)
qed

lemma secrets_are_secret: "\<forall>c \<in> set kSecret. protect_secret (Some c)"
  by code_simp

section \<open>Properties\<close>

text \<open>
  C18.  Path normalisation always gives a clean absolute path (at most sixteen components,
  none empty, dot or dot-dot, none with a slash in it), and for a path within its limits
  (under 192 characters, at most sixteen components, each under 40) exactly the path that
  applying dot and dot-dot by name gives.
\<close>

theorem path_resolve_correct:
  "(\<exists>ps. path_resolve cwd inp cap = snprintf cap (path_text ps) \<and> (\<forall>c \<in> set ps. clean_part c)
      \<and> length ps \<le> PATH_PARTS)
   \<and> (path_fits (path_full cwd inp) \<longrightarrow>
        path_resolve cwd inp cap = snprintf cap (path_text (lexical (path_full cwd inp))))"
  using path_resolve_clean path_resolve_fits by blast

theorem path_resolve_correct_witness:
  "path_resolve ''/home/ann'' ''../bob//./x'' 64 = ''/home/bob/x''"
proof -
  have "path_fits (path_full ''/home/ann'' ''../bob//./x'')" by code_simp
  moreover have "snprintf 64 (path_text (lexical (path_full ''/home/ann'' ''../bob//./x''))) = ''/home/bob/x''"
    by code_simp
  ultimately show ?thesis using path_resolve_correct [of "''/home/ann''" "''../bob//./x''" 64] by simp
qed



text \<open>
  Outside those limits the guard is wrong in the dangerous direction: a component of
  40 characters is dropped before dot-dot is applied, so this path leads to the account
  file by name and is judged to be \<open>/users.cfg\<close>, which any account may read and change.
\<close>

theorem protect_bypass:
  "let p = ''/os/'' @ replicate 40 CHR ''x'' @ ''/../users.cfg'';
       us = \<lparr>g_users = [], g_udirty = False\<rparr>
   in path_text (lexical p) = ''/os/users.cfg'' \<and> path_resolve ''/'' p 192 = ''/users.cfg''
      \<and> fs_session_restricted us (Some ''guest'')
      \<and> fs_may_read us (Some ''guest'') p \<and> fs_may_change us (Some ''guest'') p"
  by code_simp

end
