(* ===== verification/CmdLine.thy ===== *)
theory CmdLine
  imports CLib
begin

text \<open>
  \<open>os/core/cmdline.cpp\<close>: how the shell cuts a command line into words, connectors, pipes
  and redirections.  The functions return pointers into the line; the model returns
  offsets into it and the strings the pointers designate.  \<open>prev\<close> is the character before
  the one scanned (\<open>None\<close> at the start of the text) and \<open>q\<close> the quote character one is
  inside of.
\<close>

section \<open>Model\<close>

abbreviation SP :: char where "SP \<equiv> CHR '' ''"
abbreviation DQ :: char where "DQ \<equiv> CHR 0x22"
abbreviation SQ :: char where "SQ \<equiv> CHR 0x27"

datatype connector = CON_AND | CON_OR | CON_SEQ

definition is_quote :: "char \<Rightarrow> bool" where
  "is_quote c \<longleftrightarrow> c = DQ \<or> c = SQ"

definition word_start :: "char option \<Rightarrow> bool" where
  "word_start prev =
     (case prev of None \<Rightarrow> True
      | Some c \<Rightarrow> c = SP \<or> c = CHR '';'' \<or> c = CHR ''&'' \<or> c = CHR ''|'' \<or> c = CHR ''>'')"

definition quote_edge :: "char option \<Rightarrow> char \<Rightarrow> char option \<Rightarrow> bool \<times> char option" where
  "quote_edge prev c q =
     (case q of
        Some k \<Rightarrow> if c \<noteq> k then (False, q) else (True, None)
      | None \<Rightarrow> if is_quote c \<and> word_start prev then (True, Some c) else (False, None))"

text \<open>The inner loop of \<open>cmdline_split_args\<close>: the rest of one word, and what follows it.\<close>

fun word_loop :: "char option \<Rightarrow> string \<Rightarrow> string \<times> string" where
  "word_loop q [] = ([], [])"
| "word_loop q (c # cs) =
     (if q = None \<and> c = SP then ([], c # cs)
      else if q = Some c then word_loop None cs
      else let (w, r) = word_loop q cs in (c # w, r))"

lemma word_loop_le: "length (snd (word_loop q s)) \<le> length s"
  by (induction q s rule: word_loop.induct) (auto simp: Let_def split_beta le_SucI)

definition one_word :: "string \<Rightarrow> string \<times> string" where
  "one_word r =
     (let (w, rest) = (if is_quote (hd r) then word_loop (Some (hd r)) (tl r) else word_loop None r)
      in (w, if rest = [] then rest else tl rest))"

function split_loop :: "string \<Rightarrow> nat \<Rightarrow> string list" where
  "split_loop r left =
     (if r = [] \<or> left = 0 then []
      else let r1 = dropWhile (\<lambda>c. c = SP) r in
        if r1 = [] then []
        else fst (one_word r1) # split_loop (snd (one_word r1)) (left - 1))"
  by pat_completeness auto
termination by (relation "measure snd") auto

declare split_loop.simps [simp del]

definition cmdline_split_args :: "string \<Rightarrow> nat \<Rightarrow> string list" where
  "cmdline_split_args l mx = split_loop l mx"

fun connector_loop :: "char option \<Rightarrow> char option \<Rightarrow> nat \<Rightarrow> string \<Rightarrow> (nat \<times> connector \<times> nat) option" where
  "connector_loop prev q i [] = None"
| "connector_loop prev q i (c # cs) =
     (let (edge, q') = quote_edge prev c q in
      if edge \<or> q' \<noteq> None then connector_loop (Some c) q' (i + 1) cs
      else if c = CHR ''&'' \<and> take 1 cs = ''&'' then Some (i, CON_AND, 2)
      else if c = CHR ''|'' \<and> take 1 cs = ''|'' then Some (i, CON_OR, 2)
      else if c = CHR '';'' then Some (i, CON_SEQ, 1)
      else connector_loop (Some c) q' (i + 1) cs)"

definition cmdline_next_connector :: "string \<Rightarrow> (nat \<times> connector \<times> nat) option" where
  "cmdline_next_connector s = connector_loop None None 0 s"

fun pipe_loop :: "char option \<Rightarrow> char option \<Rightarrow> nat \<Rightarrow> string \<Rightarrow> nat option" where
  "pipe_loop prev q i [] = None"
| "pipe_loop prev q i (c # cs) =
     (let (edge, q') = quote_edge prev c q in
      if edge \<or> q' \<noteq> None then pipe_loop (Some c) q' (i + 1) cs
      else if c = CHR ''|'' \<and> take 1 cs = ''|'' then pipe_loop (Some (CHR ''|'')) q' (i + 2) (drop 1 cs)
      else if c = CHR ''|'' then Some i
      else pipe_loop (Some c) q' (i + 1) cs)"

definition cmdline_next_pipe :: "string \<Rightarrow> nat option" where
  "cmdline_next_pipe s = pipe_loop None None 0 s"

definition cmdline_trim :: "string \<Rightarrow> string" where
  "cmdline_trim s = rev (dropWhile (\<lambda>c. c = SP) (rev (dropWhile (\<lambda>c. c = SP) s)))"


text \<open>The scan for the last unquoted redirection: its offset and its length, one or two.\<close>

fun redirect_loop ::
  "char option \<Rightarrow> char option \<Rightarrow> nat \<Rightarrow> string \<Rightarrow> (nat \<times> nat) option \<Rightarrow> (nat \<times> nat) option" where
  "redirect_loop prev q i [] lst = lst"
| "redirect_loop prev q i (c # cs) lst =
     (let (edge, q') = quote_edge prev c q in
      if edge \<or> q' \<noteq> None \<or> c \<noteq> CHR ''>'' then redirect_loop (Some c) q' (i + 1) cs lst
      else if take 1 cs = ''>'' then redirect_loop (Some (CHR ''>'')) q' (i + 2) (drop 1 cs) (Some (i, 2))
      else redirect_loop (Some c) q' (i + 1) cs (Some (i, 1)))"

definition unquote :: "string \<Rightarrow> string" where
  "unquote f =
     (if 2 \<le> length f \<and> is_quote (hd f) \<and> last f = hd f then butlast (tl f) else f)"

text \<open>
  The command that is left, whether to append, and the file.  Without a redirection the
  segment and the flag are untouched; with one but no name the segment is cut all the same.
\<close>

definition cmdline_split_redirect :: "string \<Rightarrow> bool \<Rightarrow> string \<times> bool \<times> string option" where
  "cmdline_split_redirect seg app =
     (case redirect_loop None None 0 seg None of
        None \<Rightarrow> (seg, app, None)
      | Some (pos, len) \<Rightarrow>
          (let f = unquote (cmdline_trim (drop (pos + len) seg))
           in (take pos seg, len = 2, if f = [] then None else Some f)))"

section \<open>Quoted words\<close>

text \<open>A word in quotes of the kind it does not contain, and a line of such words.\<close>

definition quote_with :: "string \<Rightarrow> char" where
  "quote_with a = (if DQ \<in> set a then SQ else DQ)"

definition quote_word :: "string \<Rightarrow> string" where
  "quote_word a = quote_with a # a @ [quote_with a]"

definition quotable :: "string \<Rightarrow> bool" where
  "quotable a \<longleftrightarrow> DQ \<notin> set a \<or> SQ \<notin> set a"

fun quote_line :: "string list \<Rightarrow> string" where
  "quote_line [] = []"
| "quote_line (a # as) = quote_word a @ SP # quote_line as"

lemma quote_with_props:
  "quotable a \<Longrightarrow> quote_with a \<notin> set a" "is_quote (quote_with a)" "quote_with a \<noteq> SP"
  by (auto simp: quote_with_def quotable_def is_quote_def)

lemma word_loop_quoted: "k \<notin> set a \<Longrightarrow> word_loop (Some k) (a @ k # SP # rest) = (a, SP # rest)"
  by (induction a) auto

lemma split_quoted:
  assumes "\<forall>a \<in> set args. quotable a" "length args \<le> n"
  shows "split_loop (quote_line args) n = args"
  using assms
proof (induction args arbitrary: n)
  case Nil
  then show ?case by (simp add: split_loop.simps)
next
  case (Cons a args)
  have k: "quote_with a \<notin> set a" "is_quote (quote_with a)" "quote_with a \<noteq> SP"
    using quote_with_props [of a] Cons.prems by simp_all
  then have "one_word (quote_line (a # args)) = (a, quote_line args)"
    by (simp add: one_word_def quote_word_def word_loop_quoted)
  with Cons k show ?case by (subst split_loop.simps) (simp add: quote_word_def)
qed

text \<open>Scanning over a quoted word at a word start changes nothing but the offset.\<close>

lemma quote_edge_in: "c \<noteq> k \<Longrightarrow> quote_edge prev c (Some k) = (False, Some k)"
  "quote_edge prev k (Some k) = (True, None)"
  by (simp_all add: quote_edge_def)

lemma connector_body:
  "k \<notin> set a \<Longrightarrow> connector_loop prev (Some k) i (a @ k # rest) =
     connector_loop (Some k) None (i + length a + 1) rest"
  by (induction a arbitrary: prev i) (auto simp: quote_edge_in)

lemma pipe_body:
  "k \<notin> set a \<Longrightarrow> pipe_loop prev (Some k) i (a @ k # rest) =
     pipe_loop (Some k) None (i + length a + 1) rest"
  by (induction a arbitrary: prev i) (auto simp: quote_edge_in)

lemma redirect_body:
  "k \<notin> set a \<Longrightarrow> redirect_loop prev (Some k) i (a @ k # rest) l =
     redirect_loop (Some k) None (i + length a + 1) rest l"
  by (induction a arbitrary: prev i) (auto simp: quote_edge_in)

lemma quote_open: "is_quote k \<Longrightarrow> word_start prev \<Longrightarrow> quote_edge prev k None = (True, Some k)"
  by (simp add: quote_edge_def)

lemma space_edge: "quote_edge prev SP None = (False, None)"
  by (simp add: quote_edge_def is_quote_def)

lemma quoted_scans:
  assumes "\<forall>a \<in> set args. quotable a" "word_start prev"
  shows "connector_loop prev None i (quote_line args) = None"
    and "pipe_loop prev None i (quote_line args) = None"
    and "redirect_loop prev None i (quote_line args) l = l"
proof -
  have "connector_loop prev None i (quote_line args) = None
      \<and> pipe_loop prev None i (quote_line args) = None
      \<and> redirect_loop prev None i (quote_line args) l = l"
    using assms
  proof (induction args arbitrary: prev i)
    case (Cons a args)
    have k: "quote_with a \<notin> set a" "is_quote (quote_with a)"
      using quote_with_props [of a] Cons.prems by simp_all
    have "word_start (Some SP)" by (simp add: word_start_def)
    with Cons k show ?case
      by (simp add: quote_word_def quote_open connector_body pipe_body redirect_body space_edge)
  qed simp
  then show "connector_loop prev None i (quote_line args) = None"
    and "pipe_loop prev None i (quote_line args) = None"
    and "redirect_loop prev None i (quote_line args) l = l" by simp_all
qed

section \<open>Properties\<close>

text \<open>
  C20.  Quoting is complete: a line of quoted words, whatever characters the words hold
  (operators, spaces, the other kind of quote, nothing at all), is split back into exactly
  those words, and no connector, pipe or redirection is found in it.
\<close>

theorem quoted_line_roundtrip:
  assumes "\<forall>a \<in> set args. quotable a" "length args \<le> mx"
  shows "cmdline_split_args (quote_line args) mx = args
    \<and> cmdline_next_connector (quote_line args) = None \<and> cmdline_next_pipe (quote_line args) = None
    \<and> cmdline_split_redirect (quote_line args) ap = (quote_line args, ap, None)"
  using assms quoted_scans [OF assms(1), of None]
  by (simp add: cmdline_split_args_def split_quoted cmdline_next_connector_def cmdline_next_pipe_def
      cmdline_split_redirect_def word_start_def)

theorem quoted_line_roundtrip_witness:
  "cmdline_split_args (quote_line [''rm'', ''a && b; > c'', [], ''it'' @ [SQ] @ ''s'']) 4 =
     [''rm'', ''a && b; > c'', [], ''it'' @ [SQ] @ ''s'']"
  using quoted_line_roundtrip [of "[''rm'', ''a && b; > c'', [], ''it'' @ [SQ] @ ''s'']" 4]
  by (simp add: quotable_def)

end
