(* ===== verification/RingBuffers.thy ===== *)
theory RingBuffers
  imports CLib
begin

text \<open>
  The fixed-size rings: the command history (\<open>os/core/history.cpp\<close>), the log that survives a
  warm reset (\<open>os/core/logring.cpp\<close>) and the audio ring (\<open>os/core/pcmring.cpp\<close>).  All three
  are read through one view of an array as a window of a circle.
\<close>

section \<open>A window of a circle\<close>

definition window :: "'a list \<Rightarrow> nat \<Rightarrow> nat \<Rightarrow> 'a list" where
  "window xs start k = map (\<lambda>i. xs ! ((start + i) mod length xs)) [0..<k]"

lemma length_window [simp]: "length (window xs start k) = k"
  by (simp add: window_def)

lemma window_0 [simp]: "window xs start 0 = []"
  by (simp add: window_def)

lemma window_nth: "i < k \<Longrightarrow> window xs start k ! i = xs ! ((start + i) mod length xs)"
  by (simp add: window_def)

lemma window_start_mod: "window xs (start mod length xs) k = window xs start k"
  by (simp add: window_def mod_add_left_eq)

lemma mod_window_inj:
  assumes "(start + i) mod n = (start + j) mod n" "i < n" "j < (n :: nat)"
  shows "i = j"
proof -
  have *: "i = j" if "i \<le> j" "(start + j) mod n = (start + i) mod n" "j < n" for i j
  proof -
    have "n dvd (start + j) - (start + i)" using that by (simp add: mod_eq_dvd_iff_nat)
    then show ?thesis using that by (auto dest: dvd_imp_le)
  qed
  show ?thesis using * [of i j] * [of j i] assms by (cases "i \<le> j") auto
qed

lemma window_push:
  assumes "k < length xs"
  shows "window (xs[(start + k) mod length xs := x]) start (Suc k) = window xs start k @ [x]"
proof (rule nth_equalityI)
  fix i assume "i < length (window (xs[(start + k) mod length xs := x]) start (Suc k))"
  then have "i < Suc k" by simp
  have "(start + k) mod length xs < length xs" using assms by (intro mod_less_divisor) linarith
  show "window (xs[(start + k) mod length xs := x]) start (Suc k) ! i = (window xs start k @ [x]) ! i"
  proof (cases "i = k")
    case True
    then show ?thesis using \<open>(start + k) mod length xs < length xs\<close> by (simp add: window_nth nth_append)
  next
    case False
    then have "i < k" using \<open>i < Suc k\<close> by simp
    moreover have "(start + k) mod length xs \<noteq> (start + i) mod length xs"
      using mod_window_inj [of start k "length xs" i] assms \<open>i < k\<close> by auto
    ultimately show ?thesis by (simp add: window_nth nth_append)
  qed
qed simp

lemma window_tl: "window xs (Suc start) k = tl (window xs start (Suc k))"
  by (rule nth_equalityI) (simp_all add: window_nth nth_tl)

lemma window_drop: "n \<le> k \<Longrightarrow> window xs (start + n) (k - n) = drop n (window xs start k)"
  by (rule nth_equalityI) (simp_all add: window_nth add.assoc)

lemma window_take: "n \<le> k \<Longrightarrow> window xs start n = take n (window xs start k)"
  by (rule nth_equalityI) (simp_all add: window_nth)

text \<open>The last \<open>n\<close> items of a list.\<close>

definition latest :: "nat \<Rightarrow> 'a list \<Rightarrow> 'a list" where
  "latest n xs = drop (length xs - n) xs"

lemma latest_small: "length xs \<le> n \<Longrightarrow> latest n xs = xs"
  by (simp add: latest_def)

lemma latest_snoc:
  assumes "0 < n"
  shows "latest n (latest n xs @ [x]) = latest n (xs @ [x])"
proof (cases "length xs < n")
  case False
  then have "length (latest n xs) = n" by (simp add: latest_def)
  then have "latest n (latest n xs @ [x]) = drop 1 (latest n xs) @ [x]"
    using assms by (simp add: latest_def)
  also have "\<dots> = latest n (xs @ [x])" using False assms by (simp add: latest_def Suc_diff_le)
  finally show ?thesis .
qed (simp add: latest_small)

lemma latest_append:
  assumes "0 < n"
  shows "latest n (latest n xs @ ys) = latest n (xs @ ys)"
proof (induction ys rule: rev_induct)
  case Nil
  show ?case by (simp add: latest_def)
next
  case (snoc y ys)
  then show ?case using latest_snoc [OF assms] by (metis append_assoc)
qed

lemma rev_latest: "rev (latest n xs) = take n (rev xs)"
  by (cases "n \<le> length xs") (simp_all add: latest_def rev_drop)

text \<open>Writing at \<open>next\<close>, with \<open>k\<close> items behind it, keeps the latest that fit.\<close>

definition ring_items :: "'a list \<Rightarrow> nat \<Rightarrow> nat \<Rightarrow> 'a list" where
  "ring_items xs nxt k = window xs (nxt + length xs - k) k"

lemma ring_push:
  assumes "nxt < length xs" "k \<le> length xs"
  shows "ring_items (xs[nxt := x]) (Suc nxt mod length xs) (min (length xs) (Suc k)) =
     latest (length xs) (ring_items xs nxt k @ [x])"
proof -
  define m where "m = min k (length xs - 1)"
  define s where "s = nxt + length xs - m"
  have m: "m < length xs" "m \<le> k" "min (length xs) (Suc k) = Suc m" using assms by (auto simp: m_def)
  have "(s + m) mod length xs = nxt" using assms m(1) by (simp add: s_def)
  then have push: "window (xs[nxt := x]) s (Suc m) = window xs s m @ [x]"
    using window_push [OF m(1), of s x] by simp
  have "(Suc nxt mod length xs + length xs - Suc m) mod length xs = s mod length xs"
  proof (cases "Suc nxt = length xs")
    case True
    then have s: "s = (length xs - Suc m) + length xs" using m(1) by (simp add: s_def)
    have "s mod length xs = length xs - Suc m" unfolding s mod_add_self2 using m(1) by simp
    then show ?thesis using True m(1) by simp
  next
    case False
    then show ?thesis using assms m(1) by (simp add: s_def)
  qed
  then have new: "ring_items (xs[nxt := x]) (Suc nxt mod length xs) (Suc m) = window xs s m @ [x]"
    using push window_start_mod [of "xs[nxt := x]"] by (metis length_list_update ring_items_def)
  have "window xs s m = drop (k - m) (ring_items xs nxt k)"
    using window_drop [of "k - m" k xs "nxt + length xs - k"] assms m
    by (simp add: ring_items_def s_def)
  moreover have "k - m = Suc k - length xs" using assms by (auto simp: m_def)
  ultimately show ?thesis unfolding m(3) new
    using assms by (simp add: latest_def ring_items_def)
qed

text \<open>A store that keeps the latest \<open>n\<close> of what is added to it.\<close>

locale recency =
  fixes add :: "'x \<Rightarrow> 's \<Rightarrow> 's" and items :: "'s \<Rightarrow> 'y list" and enc :: "'x \<Rightarrow> 'y"
    and n :: nat and wf :: "'s \<Rightarrow> bool"
  assumes pos: "0 < n"
    and wf_add: "wf s \<Longrightarrow> wf (add x s)"
    and items_add: "wf s \<Longrightarrow> items (add x s) = latest n (items s @ [enc x])"
    and items_bound: "wf s \<Longrightarrow> length (items s) \<le> n"
begin

lemma wf_fold: "wf s \<Longrightarrow> wf (fold add xs s)"
  by (induction xs arbitrary: s) (simp_all add: wf_add)

lemma items_fold: "wf s \<Longrightarrow> items (fold add xs s) = latest n (items s @ map enc xs)"
proof (induction xs rule: rev_induct)
  case (snoc x xs)
  then show ?case using items_add [OF wf_fold [OF snoc.prems]] latest_snoc [OF pos, of "items s @ map enc xs" "enc x"]
    by simp
qed (simp add: latest_small items_bound)

end


section \<open>Command history\<close>

definition HIST_N :: nat where "HIST_N = 16"
definition HIST_LINE_MAX :: nat where "HIST_LINE_MAX = 128"

record history =
  g_hist :: "string list"
  g_count :: nat
  g_next :: nat

definition hist_reset :: "history \<Rightarrow> history" where
  "hist_reset h = h\<lparr>g_count := 0, g_next := 0\<rparr>"

definition hist_count :: "history \<Rightarrow> nat" where
  "hist_count h = g_count h"

definition hist_add :: "string option \<Rightarrow> history \<Rightarrow> history" where
  "hist_add linep h =
     (case linep of None \<Rightarrow> h | Some l \<Rightarrow>
        if l = [] then h
        else if g_count h \<noteq> 0 \<and> g_hist h ! ((g_next h + HIST_N - 1) mod HIST_N) = l then h
        else h\<lparr>g_hist := (g_hist h)[g_next h := take (HIST_LINE_MAX - 1) l],
               g_next := (g_next h + 1) mod HIST_N,
               g_count := (if g_count h < HIST_N then g_count h + 1 else g_count h)\<rparr>)"

definition hist_get :: "history \<Rightarrow> int \<Rightarrow> string option" where
  "hist_get h depth =
     (if depth < 0 \<or> depth \<ge> int (g_count h) then None
      else Some (g_hist h ! nat ((int (g_next h) - 1 - depth + 2 * int HIST_N) mod int HIST_N)))"

definition hist_wf :: "history \<Rightarrow> bool" where
  "hist_wf h \<longleftrightarrow> length (g_hist h) = HIST_N \<and> g_next h < HIST_N \<and> g_count h \<le> HIST_N"

text \<open>The lines held, oldest first.\<close>

definition hist_items :: "history \<Rightarrow> string list" where
  "hist_items h = ring_items (g_hist h) (g_next h) (g_count h)"

lemma length_hist_items [simp]: "length (hist_items h) = g_count h"
  by (simp add: hist_items_def ring_items_def)

lemma hist_items_nth:
  assumes "hist_wf h" "i < g_count h"
  shows "hist_items h ! i = g_hist h ! ((g_next h + HIST_N - g_count h + i) mod HIST_N)"
  using assms by (simp add: hist_items_def ring_items_def window_nth hist_wf_def)

lemma hist_get_items:
  assumes "hist_wf h"
  shows "hist_get h (int d) = (if d < g_count h then Some (rev (hist_items h) ! d) else None)"
proof (cases "d < g_count h")
  case True
  have c: "g_count h \<le> HIST_N" using assms by (simp add: hist_wf_def)
  let ?j = "g_next h + HIST_N - g_count h + (g_count h - 1 - d)"
  have "int (g_next h) - 1 - int d + 2 * int HIST_N = int (?j + HIST_N)"
    using True c by (simp add: of_nat_diff)
  then have "nat ((int (g_next h) - 1 - int d + 2 * int HIST_N) mod int HIST_N) = ?j mod HIST_N"
    by (simp only: of_nat_mod [symmetric] nat_int mod_add_self2)
  then have "hist_get h (int d) = Some (hist_items h ! (g_count h - 1 - d))"
    using True hist_items_nth [OF assms, of "g_count h - 1 - d"] unfolding hist_get_def by simp
  then show ?thesis using True by (simp add: rev_nth)
qed (simp add: hist_get_def)

lemma hist_last:
  assumes "hist_wf h" "g_count h \<noteq> 0"
  shows "g_hist h ! ((g_next h + HIST_N - 1) mod HIST_N) = last (hist_items h)"
proof -
  have "hist_items h \<noteq> []" using assms(2) by (metis length_hist_items list.size(3))
  then show ?thesis
    using hist_items_nth [OF assms(1), of "g_count h - 1"] assms by (simp add: last_conv_nth hist_wf_def)
qed

lemma hist_get_0:
  assumes "hist_wf h"
  shows "hist_get h 0 = (if hist_items h = [] then None else Some (last (hist_items h)))"
proof (cases "hist_items h = []")
  case True
  then have "g_count h = 0" using length_hist_items [of h] by simp
  then show ?thesis using True by (simp add: hist_get_def)
next
  case False
  then have "0 < g_count h" using length_hist_items [of h] by (metis length_greater_0_conv)
  then show ?thesis using False hist_get_items [OF assms, of 0] by (simp add: rev_nth last_conv_nth)
qed

lemma hist_add_items:
  assumes "hist_wf h" "l \<noteq> []"
  shows "hist_wf (hist_add (Some l) h) \<and> hist_items (hist_add (Some l) h) =
     (if hist_items h \<noteq> [] \<and> last (hist_items h) = l then hist_items h
      else latest HIST_N (hist_items h @ [take (HIST_LINE_MAX - 1) l]))"
proof -
  have ne: "hist_items h \<noteq> [] \<longleftrightarrow> g_count h \<noteq> 0"
    by (metis length_hist_items length_greater_0_conv neq0_conv)
  have last: "g_hist h ! ((g_next h + HIST_N - 1) mod HIST_N) = last (hist_items h)"
    if "g_count h \<noteq> 0" using hist_last [OF assms(1) that] .
  show ?thesis
  proof (cases "g_count h \<noteq> 0 \<and> last (hist_items h) = l")
    case True
    then show ?thesis using assms last ne by (simp add: hist_add_def)
  next
    case False
    define h' where "h' = hist_add (Some l) h"
    have h': "g_hist h' = (g_hist h)[g_next h := take (HIST_LINE_MAX - 1) l]"
      "g_next h' = Suc (g_next h) mod HIST_N" "g_count h' = min HIST_N (Suc (g_count h))"
      using False assms last by (auto simp: h'_def hist_add_def hist_wf_def)
    have "hist_wf h'" using assms(1) by (simp add: hist_wf_def h' HIST_N_def)
    moreover have "hist_items h' = latest HIST_N (hist_items h @ [take (HIST_LINE_MAX - 1) l])"
      using ring_push [of "g_next h" "g_hist h" "g_count h"] assms(1)
      by (simp add: hist_items_def h' hist_wf_def)
    ultimately show ?thesis using False ne unfolding h'_def by auto
  qed
qed


section \<open>The log ring\<close>

definition LOG_LINES :: nat where "LOG_LINES = 48"
definition LOG_LINE_MAX :: nat where "LOG_LINE_MAX = 96"
definition LOG_MAGIC :: u32 where "LOG_MAGIC = 0x4C4F4731"

datatype log_kind = LOG_K_INFO | LOG_K_OK | LOG_K_WARN | LOG_K_ERR | LOG_K_BOOT

record log_line =
  at_ms :: u32
  l_kind :: log_kind
  l_text :: string

record log_ring =
  magic :: u32
  log_head :: nat
  log_held :: nat
  log_lost :: u32
  boot :: u32
  log_lines :: "log_line list"

text \<open>
  \<open>log_add\<close> after its check of the magic number; \<open>now\<close> is \<open>task_now_ms ()\<close>.
\<close>

definition log_push :: "u32 \<Rightarrow> log_kind \<Rightarrow> string option \<Rightarrow> log_ring \<Rightarrow> log_ring" where
  "log_push now kind txtp r =
     r\<lparr>log_lines := (log_lines r)[log_head r :=
           \<lparr>at_ms = now, l_kind = kind,
            l_text = snprintf LOG_LINE_MAX (case txtp of None \<Rightarrow> [] | Some t \<Rightarrow> t)\<rparr>],
       log_head := (log_head r + 1) mod LOG_LINES,
       log_held := (if log_held r < LOG_LINES then log_held r + 1 else log_held r),
       log_lost := (if log_held r < LOG_LINES then log_lost r else log_lost r + 1)\<rparr>"

definition log_rule :: string where
  "log_rule = concat (replicate 4 [CHR 0xE2, CHR 0x94, CHR 0x80])"

definition boot_marker :: "u32 \<Rightarrow> string" where
  "boot_marker n = log_rule @ '' boot #'' @ to_dec (unat n) @ '' '' @ log_rule"

definition zero_line :: log_line where
  "zero_line = \<lparr>at_ms = 0, l_kind = LOG_K_INFO, l_text = []\<rparr>"

definition log_init :: "u32 \<Rightarrow> log_ring \<Rightarrow> bool \<times> log_ring" where
  "log_init now r =
     (let survived = (magic r = LOG_MAGIC \<and> log_head r < LOG_LINES \<and> log_held r \<le> LOG_LINES);
          r0 = (if survived then r
                else \<lparr>magic = LOG_MAGIC, log_head = 0, log_held = 0, log_lost = 0, boot = 0,
                      log_lines = replicate LOG_LINES zero_line\<rparr>);
          r1 = r0\<lparr>boot := boot r0 + 1\<rparr>
      in (survived, log_push now LOG_K_BOOT (Some (snprintf LOG_LINE_MAX (boot_marker (boot r1)))) r1))"

definition log_add :: "u32 \<Rightarrow> log_kind \<Rightarrow> string option \<Rightarrow> log_ring \<Rightarrow> log_ring" where
  "log_add now kind txtp r =
     log_push now kind txtp (if magic r \<noteq> LOG_MAGIC then snd (log_init now r) else r)"

definition log_boot_count :: "log_ring \<Rightarrow> u32" where "log_boot_count r = boot r"
definition log_count :: "log_ring \<Rightarrow> nat" where "log_count r = log_held r"
definition log_dropped :: "log_ring \<Rightarrow> u32" where "log_dropped r = log_lost r"

definition log_at :: "log_ring \<Rightarrow> nat \<Rightarrow> log_line option" where
  "log_at r i =
     (if i \<ge> log_held r then None
      else let oldest = (if log_held r = LOG_LINES then log_head r else 0)
           in Some (log_lines r ! ((oldest + i) mod LOG_LINES)))"

definition log_clear :: "log_ring \<Rightarrow> log_ring" where
  "log_clear r = r\<lparr>log_head := 0, log_held := 0, log_lost := 0\<rparr>"

definition log_wf :: "log_ring \<Rightarrow> bool" where
  "log_wf r \<longleftrightarrow> magic r = LOG_MAGIC \<and> length (log_lines r) = LOG_LINES \<and> log_head r < LOG_LINES
     \<and> log_held r \<le> LOG_LINES \<and> (log_held r < LOG_LINES \<longrightarrow> log_head r = log_held r)"

text \<open>What a reader gets by asking for line 0, 1, 2 and so on.\<close>

definition log_items :: "log_ring \<Rightarrow> log_line list" where
  "log_items r = map (\<lambda>i. the (log_at r i)) [0..<log_count r]"

lemma log_items_ring:
  assumes "log_wf r"
  shows "log_items r = ring_items (log_lines r) (log_head r) (log_held r)"
proof (rule nth_equalityI)
  fix i assume "i < length (log_items r)"
  then have i: "i < log_held r" by (simp add: log_items_def log_count_def)
  then show "log_items r ! i = ring_items (log_lines r) (log_head r) (log_held r) ! i"
    using assms
    by (cases "log_held r = LOG_LINES")
      (auto simp: log_items_def log_count_def log_at_def ring_items_def window_nth log_wf_def)
qed (simp add: log_items_def ring_items_def log_count_def)

definition log_entry :: "u32 \<times> log_kind \<times> string option \<Rightarrow> log_line" where
  "log_entry e = (case e of (now, kind, txtp) \<Rightarrow>
     \<lparr>at_ms = now, l_kind = kind, l_text = snprintf LOG_LINE_MAX (case txtp of None \<Rightarrow> [] | Some t \<Rightarrow> t)\<rparr>)"

definition log_append :: "u32 \<times> log_kind \<times> string option \<Rightarrow> log_ring \<Rightarrow> log_ring" where
  "log_append e r = (case e of (now, kind, txtp) \<Rightarrow> log_add now kind txtp r)"

lemma log_push_items:
  assumes "log_wf r"
  shows "log_wf (log_push now kind txtp r) \<and>
     log_items (log_push now kind txtp r) = latest LOG_LINES (log_items r @ [log_entry (now, kind, txtp)])"
proof -
  let ?r = "log_push now kind txtp r"
  have held: "log_held ?r = min LOG_LINES (Suc (log_held r))" using assms by (auto simp: log_push_def log_wf_def)
  have wf: "log_wf ?r" using assms by (auto simp: log_push_def log_wf_def LOG_LINES_def)
  have "log_items ?r = latest LOG_LINES (ring_items (log_lines r) (log_head r) (log_held r)
      @ [log_entry (now, kind, txtp)])"
    unfolding log_items_ring [OF wf] held
    using ring_push [of "log_head r" "log_lines r" "log_held r" "log_entry (now, kind, txtp)"] assms
    by (simp add: log_push_def log_wf_def log_entry_def)
  with wf show ?thesis by (simp add: log_items_ring [OF assms])
qed

interpretation log: recency log_append log_items log_entry LOG_LINES log_wf
proof unfold_locales
  fix s x assume wf: "log_wf s"
  then have "log_append x s = log_push (fst x) (fst (snd x)) (snd (snd x)) s"
    by (simp add: log_append_def log_add_def log_wf_def split_beta)
  then show "log_wf (log_append x s)" "log_items (log_append x s) = latest LOG_LINES (log_items s @ [log_entry x])"
    using log_push_items [OF wf] by simp_all
next
  fix s assume "log_wf s" then show "length (log_items s) \<le> LOG_LINES"
    by (simp add: log_items_def log_wf_def log_count_def)
qed (simp add: LOG_LINES_def)


section \<open>The audio ring\<close>

type_synonym sample = "16 word"

record pcm_ring =
  pcm_buf :: "sample list"
  pcm_cap :: u32
  pcm_head :: u32
  pcm_tail :: u32
  pcm_dropped :: u32

text \<open>The doubling loop of \<open>pcm_ring_init\<close>, at 32 bits.\<close>

partial_function (option) pcm_pow :: "u32 \<Rightarrow> u32 \<Rightarrow> u32 option" where
  "pcm_pow cap p = (if p * 2 \<le> cap then pcm_pow cap (p * 2) else Some p)"

text \<open>A null buffer is \<open>None\<close>; the ring uses the first \<open>p\<close> samples of the buffer.\<close>

definition pcm_ring_init :: "sample list option \<Rightarrow> u32 \<Rightarrow> pcm_ring option" where
  "pcm_ring_init bufp cap =
     map_option (\<lambda>p. \<lparr>pcm_buf = (case bufp of None \<Rightarrow> [] | Some b \<Rightarrow> take (unat p) b),
          pcm_cap = (if bufp = None then 0 else p), pcm_head = 0, pcm_tail = 0, pcm_dropped = 0\<rparr>)
       (pcm_pow cap 1)"

definition pcm_ring_clear :: "pcm_ring \<Rightarrow> pcm_ring" where
  "pcm_ring_clear r = r\<lparr>pcm_tail := pcm_head r\<rparr>"

definition pcm_ring_used :: "pcm_ring \<Rightarrow> u32" where
  "pcm_ring_used r =
     (if pcm_cap r = 0 then 0 else (pcm_head r - pcm_tail r) AND (pcm_cap r - 1))"

definition pcm_ring_free :: "pcm_ring \<Rightarrow> u32" where
  "pcm_ring_free r = (if pcm_cap r = 0 then 0 else pcm_cap r - 1 - pcm_ring_used r)"

text \<open>The writing loop; \<open>h\<close> is the local copy of the head.\<close>

fun pcm_write_loop :: "sample list \<Rightarrow> u32 \<Rightarrow> pcm_ring \<Rightarrow> u32 \<times> pcm_ring" where
  "pcm_write_loop [] h r = (h, r)"
| "pcm_write_loop (x # xs) h r =
     (let msk = pcm_cap r - 1; nxt = (h + 1) AND msk;
          r1 = (if nxt = pcm_tail r AND msk
                then r\<lparr>pcm_tail := (pcm_tail r + 1) AND msk, pcm_dropped := pcm_dropped r + 1\<rparr> else r)
      in pcm_write_loop xs nxt (r1\<lparr>pcm_buf := (pcm_buf r1)[unat h := x]\<rparr>))"

definition pcm_ring_write :: "pcm_ring \<Rightarrow> sample list option \<Rightarrow> nat \<times> pcm_ring" where
  "pcm_ring_write r srcp =
     (case srcp of None \<Rightarrow> (0, r) | Some src \<Rightarrow>
        if pcm_cap r = 0 then (0, r)
        else let (h, r1) = pcm_write_loop src (pcm_head r) r
             in (length src, r1\<lparr>pcm_head := h\<rparr>))"

fun pcm_read_loop :: "nat \<Rightarrow> u32 \<Rightarrow> u32 \<Rightarrow> sample list \<Rightarrow> sample list \<times> u32" where
  "pcm_read_loop 0 msk t buf = ([], t)"
| "pcm_read_loop (Suc n) msk t buf =
     (let (xs, t') = pcm_read_loop n msk ((t + 1) AND msk) buf in (buf ! unat t # xs, t'))"

text \<open>The samples read, \<open>None\<close> for an underrun; \<open>n\<close> is below \<open>2 ^ 32\<close>.\<close>

definition pcm_ring_read :: "pcm_ring \<Rightarrow> nat \<Rightarrow> sample list option \<times> pcm_ring" where
  "pcm_ring_read r n =
     (if pcm_cap r = 0 then (None, r)
      else let msk = pcm_cap r - 1; avail = (pcm_head r - pcm_tail r) AND msk
           in if unat avail < n then (None, r)
              else let (xs, t) = pcm_read_loop n msk (pcm_tail r) (pcm_buf r)
                   in (Some xs, r\<lparr>pcm_tail := t\<rparr>))"

subsection \<open>Masks\<close>

lemma unat_and_mask:
  assumes "b < 32"
  shows "unat ((x :: u32) AND (2 ^ b - 1)) = unat x mod 2 ^ b"
proof -
  have "x AND (2 ^ b - 1) = take_bit b x" by (simp only: take_bit_eq_mask mask_eq_exp_minus_1)
  moreover have "unat (take_bit b x) = take_bit b (unat x)"
    by (simp only: unsigned_take_bit_eq)
  ultimately show ?thesis by (simp add: take_bit_eq_mod)
qed

lemma mod_pow_mod: "b < 32 \<Longrightarrow> (n mod 4294967296) mod 2 ^ b = (n :: nat) mod 2 ^ b"
proof -
  assume "b < 32"
  then have "(2 :: nat) ^ b dvd 4294967296"
    using le_imp_power_dvd [of b 32 "2 :: nat"] by simp
  then show ?thesis by (rule mod_mod_cancel)
qed

definition pcm_wf :: "nat \<Rightarrow> pcm_ring \<Rightarrow> bool" where
  "pcm_wf b r \<longleftrightarrow> pcm_cap r = 2 ^ b \<and> length (pcm_buf r) = 2 ^ b
     \<and> unat (pcm_head r) < 2 ^ b \<and> unat (pcm_tail r) < 2 ^ b"

definition pcm_items :: "pcm_ring \<Rightarrow> sample list" where
  "pcm_items r = window (pcm_buf r) (unat (pcm_tail r)) (unat (pcm_ring_used r))"

lemma unat_exp: "b < 32 \<Longrightarrow> unat (2 ^ b :: u32) = 2 ^ b"
  using unat_of_nat_u32 [of "2 ^ b"] power_strict_increasing [of b 32 "2 :: nat"] by simp

lemma cap_nonzero: "b < 32 \<Longrightarrow> (2 ^ b :: u32) \<noteq> 0"
  using unat_exp [of b] by (metis power_not_zero unat_0 zero_neq_numeral)

lemma mod_shift:
  assumes "(d + T) mod n = H" "d < n" "T < n" "H < (n :: nat)"
  shows "d = (H + n - T) mod n"
proof (cases "d + T < n")
  case True
  then have "H + n - T = d + n" using assms by simp
  then show ?thesis using assms by simp
next
  case False
  then have "(d + T) mod n = d + T - n" using assms by (simp add: le_mod_geq)
  then show ?thesis using assms False by simp
qed

lemma pcm_used_nat:
  assumes "pcm_wf b r" "b < 32"
  shows "unat (pcm_ring_used r) = (unat (pcm_head r) + 2 ^ b - unat (pcm_tail r)) mod 2 ^ b"
proof -
  let ?d = "pcm_head r - pcm_tail r" and ?n = "2 ^ b :: nat"
  have "unat (pcm_head r) = (unat ?d + unat (pcm_tail r)) mod 4294967296"
    using unat_u32_add [of ?d "pcm_tail r"] by simp
  then have "unat (pcm_head r) mod ?n = (unat ?d + unat (pcm_tail r)) mod ?n"
    using mod_pow_mod [OF assms(2)] by simp
  then have "(unat ?d mod ?n + unat (pcm_tail r)) mod ?n = unat (pcm_head r)"
    using assms(1) by (simp add: pcm_wf_def mod_add_left_eq)
  from mod_shift [OF this] assms(1)
  have "unat ?d mod ?n = (unat (pcm_head r) + ?n - unat (pcm_tail r)) mod ?n"
    by (simp add: pcm_wf_def)
  then show ?thesis
    using assms cap_nonzero by (simp add: pcm_ring_used_def pcm_wf_def unat_and_mask)
qed

lemma unat_next:
  assumes "b < 32"
  shows "unat (((x :: u32) + 1) AND (2 ^ b - 1)) = Suc (unat x) mod 2 ^ b"
proof -
  have "unat (x + 1) = Suc (unat x) mod 4294967296" using unat_u32_add [of x 1] by simp
  then show ?thesis using unat_and_mask [OF assms, of "x + 1"] mod_pow_mod [OF assms] by simp
qed

text \<open>One sample, as the loop writes it.\<close>

definition pcm_push :: "sample \<Rightarrow> pcm_ring \<Rightarrow> pcm_ring" where
  "pcm_push x r = (let (h, r1) = pcm_write_loop [x] (pcm_head r) r in r1\<lparr>pcm_head := h\<rparr>)"

lemma pcm_write_fold:
  "(let (h', r1) = pcm_write_loop xs h r in r1\<lparr>pcm_head := h'\<rparr>) = fold pcm_push xs (r\<lparr>pcm_head := h\<rparr>)"
proof (induction xs arbitrary: h r)
  case (Cons x xs)
  let ?m = "pcm_cap r - 1"
  let ?r = "if (h + 1) AND ?m = pcm_tail r AND ?m
      then r\<lparr>pcm_tail := (pcm_tail r + 1) AND ?m, pcm_dropped := pcm_dropped r + 1\<rparr> else r"
  have "pcm_push x (r\<lparr>pcm_head := h\<rparr>) =
      (?r\<lparr>pcm_buf := (pcm_buf ?r)[unat h := x]\<rparr>)\<lparr>pcm_head := (h + 1) AND ?m\<rparr>"
    by (simp add: pcm_push_def Let_def)
  then show ?case using Cons [of "(h + 1) AND ?m" "?r\<lparr>pcm_buf := (pcm_buf ?r)[unat h := x]\<rparr>"]
    by (simp add: Let_def)
qed simp

lemma pcm_push_items:
  assumes "pcm_wf b r" "0 < b" "b < 32"
  shows "pcm_wf b (pcm_push x r) \<and> pcm_items (pcm_push x r) = latest (2 ^ b - 1) (pcm_items r @ [x])"
proof -
  let ?n = "2 ^ b :: nat" and ?H = "unat (pcm_head r)" and ?T = "unat (pcm_tail r)"
  define k where "k = unat (pcm_ring_used r)"
  let ?r = "pcm_push x r"
  have H: "?H < ?n" "?T < ?n" "length (pcm_buf r) = ?n" "pcm_cap r = 2 ^ b"
    using assms(1) by (simp_all add: pcm_wf_def)
  have n: "1 < ?n" using assms(2) one_less_power [of "2 :: nat" b] by simp
  have k: "k = (?H + ?n - ?T) mod ?n" using pcm_used_nat [OF assms(1,3)] by (simp add: k_def)
  have kn: "k < ?n" using k by simp
  have at: "(?T + k) mod ?n = ?H"
    using H by (simp add: k mod_add_right_eq)
  have atS: "(?T + Suc k) mod ?n = Suc ?H mod ?n" using at by (metis add_Suc_right mod_Suc_eq)
  have full: "Suc ?H mod ?n = ?T \<longleftrightarrow> Suc k = ?n"
  proof
    assume "Suc ?H mod ?n = ?T"
    then have "(?T + Suc k) mod ?n = (?T + 0) mod ?n" using atS H by simp
    then show "Suc k = ?n" using mod_window_inj [of ?T "Suc k" ?n 0] kn by (cases "Suc k < ?n") auto
  qed (use atS H in auto)
  define T' where "T' = (if Suc k = ?n then Suc ?T mod ?n else ?T)"
  define k' where "k' = (if Suc k = ?n then k else Suc k)"
  have "(pcm_head r + 1) AND (pcm_cap r - 1) = pcm_tail r AND (pcm_cap r - 1) \<longleftrightarrow> Suc k = ?n"
    unfolding H(4) word_unat_eq_iff unat_and_mask [OF assms(3)]
    using full H(2) unat_next [OF assms(3), of "pcm_head r", unfolded unat_and_mask [OF assms(3)]]
    by simp
  then have r: "unat (pcm_head ?r) = Suc ?H mod ?n" "unat (pcm_tail ?r) = T'" "pcm_cap ?r = 2 ^ b"
    "pcm_buf ?r = (pcm_buf r)[?H := x]"
    using unat_next [OF assms(3)] H(4) by (auto simp: pcm_push_def Let_def T'_def)
  have wf: "pcm_wf b ?r" using H r by (simp add: pcm_wf_def T'_def)
  have k': "k' < ?n" using kn by (auto simp: k'_def)
  have "(k' + T') mod ?n = Suc ?H mod ?n"
    using atS by (auto simp: k'_def T'_def mod_add_right_eq add.commute)
  from mod_shift [OF this k'] have used: "unat (pcm_ring_used ?r) = k'"
    using pcm_used_nat [OF wf assms(3)] H r by (simp add: T'_def)
  have items: "pcm_items ?r = window ((pcm_buf r)[?H := x]) T' k'" by (simp add: pcm_items_def used r)
  have old: "pcm_items r = window (pcm_buf r) ?T k" by (simp add: pcm_items_def k_def)
  have "pcm_items ?r = latest (?n - 1) (pcm_items r @ [x])"
  proof (cases "Suc k = ?n")
    case False
    then show ?thesis using window_push [of k "pcm_buf r" ?T x] at kn H(3)
      by (simp add: items old T'_def k'_def latest_small)
  next
    case True
    then obtain j where j: "k = Suc j" using n by (cases k) auto
    have "window ((pcm_buf r)[?H := x]) (Suc ?T) (Suc j) = window (pcm_buf r) (Suc ?T) j @ [x]"
      using window_push [of j "pcm_buf r" "Suc ?T" x] at kn H(3) j by simp
    then have "pcm_items ?r = tl (pcm_items r) @ [x]"
      using True j H(3) window_start_mod [of "(pcm_buf r)[?H := x]" "Suc ?T" k]
      by (simp add: items old T'_def k'_def window_tl)
    moreover have "length (pcm_items r) = ?n - 1" "pcm_items r \<noteq> []"
      using True j by (auto simp: old simp flip: length_0_conv)
    ultimately show ?thesis by (cases "pcm_items r") (auto simp: latest_def)
  qed
  with wf show ?thesis by simp
qed

interpretation pcm: recency pcm_push pcm_items "\<lambda>x. x" "2 ^ Suc b - 1" "\<lambda>r. pcm_wf (Suc b) r \<and> Suc b < 32"
  for b
proof unfold_locales
  show "0 < (2 :: nat) ^ Suc b - 1" using one_less_power [of "2 :: nat" "Suc b"] by simp
next
  fix s assume "pcm_wf (Suc b) s \<and> Suc b < 32"
  then show "length (pcm_items s) \<le> 2 ^ Suc b - 1"
    using pcm_used_nat [of "Suc b" s] by (simp add: pcm_items_def less_Suc_eq_le [symmetric])
qed (use pcm_push_items in auto)


lemma pcm_read_loop_window:
  assumes "length buf = 2 ^ b" "b < 32" "unat t < 2 ^ b"
  shows "fst (pcm_read_loop n (2 ^ b - 1) t buf) = window buf (unat t) n
    \<and> unat (snd (pcm_read_loop n (2 ^ b - 1) t buf)) = (unat t + n) mod 2 ^ b"
  using assms(3)
proof (induction n arbitrary: t)
  case (Suc n)
  let ?t = "(t + 1) AND (2 ^ b - 1)"
  have t: "unat ?t = Suc (unat t) mod 2 ^ b" by (rule unat_next [OF assms(2)])
  have "window buf (unat ?t) n = window buf (Suc (unat t)) n"
    using window_start_mod [of buf "Suc (unat t)" n] by (simp add: t assms(1))
  moreover have "window buf (unat t) (Suc n) = buf ! unat t # window buf (Suc (unat t)) n"
    using Suc.prems assms(1) by (simp add: window_def upt_conv_Cons comp_def flip: map_Suc_upt del: upt_Suc)
  ultimately show ?case using Suc.IH [of ?t] t by (simp add: Let_def split_beta mod_add_left_eq)
qed simp

lemma pcm_read_items:
  assumes "pcm_wf b r" "b < 32"
  shows "if n \<le> length (pcm_items r)
    then \<exists>r'. pcm_ring_read r n = (Some (take n (pcm_items r)), r') \<and> pcm_wf b r'
           \<and> pcm_items r' = drop n (pcm_items r)
    else pcm_ring_read r n = (None, r)"
proof -
  let ?N = "2 ^ b :: nat" and ?T = "unat (pcm_tail r)"
  define k where "k = unat (pcm_ring_used r)"
  have H: "unat (pcm_head r) < ?N" "?T < ?N" "length (pcm_buf r) = ?N" "pcm_cap r = 2 ^ b"
    using assms(1) by (simp_all add: pcm_wf_def)
  have k: "k = (unat (pcm_head r) + ?N - ?T) mod ?N" "k < ?N"
    using pcm_used_nat [OF assms] by (simp_all add: k_def)
  have avail: "(pcm_head r - pcm_tail r) AND (2 ^ b - 1) = pcm_ring_used r"
    using H(4) cap_nonzero [OF assms(2)] by (simp add: pcm_ring_used_def)
  show ?thesis
  proof (cases "n \<le> k")
    case False
    then show ?thesis using H(4) cap_nonzero [OF assms(2)] avail
      by (simp add: pcm_ring_read_def pcm_items_def k_def Let_def)
  next
    case True
    note rd = pcm_read_loop_window [OF H(3) assms(2) H(2), of n]
    define r' where "r' = r\<lparr>pcm_tail := snd (pcm_read_loop n (2 ^ b - 1) (pcm_tail r) (pcm_buf r))\<rparr>"
    have read: "pcm_ring_read r n = (Some (window (pcm_buf r) ?T n), r')"
      using True H(4) cap_nonzero [OF assms(2)] avail rd
      by (simp add: pcm_ring_read_def k_def Let_def split_beta r'_def)
    have t': "unat (pcm_tail r') = (?T + n) mod ?N" using rd by (simp add: r'_def)
    have wf: "pcm_wf b r'" using H t' by (simp add: pcm_wf_def r'_def)
    have "(?T + k) mod ?N = unat (pcm_head r)" using H by (simp add: k(1) mod_add_right_eq)
    moreover have "k - n + (?T + n) = ?T + k" using True by simp
    ultimately have "(k - n + (?T + n) mod ?N) mod ?N = unat (pcm_head r)"
      by (simp only: mod_add_right_eq)
    moreover have "k - n < ?N" using k(2) by linarith
    ultimately have "k - n = (unat (pcm_head r) + ?N - (?T + n) mod ?N) mod ?N"
      using H(1) by (intro mod_shift) simp_all
    then have "unat (pcm_ring_used r') = k - n"
      using pcm_used_nat [OF wf assms(2)] t' by (simp add: r'_def)
    then have "pcm_items r' = drop n (pcm_items r)"
      using True window_drop [of n k "pcm_buf r" ?T] window_start_mod [of "pcm_buf r" "?T + n" "k - n"] H
      by (simp add: pcm_items_def t' k_def) (simp add: r'_def)
    moreover have "window (pcm_buf r) ?T n = take n (pcm_items r)"
      using True by (simp add: pcm_items_def k_def window_take)
    ultimately show ?thesis using True read wf by (simp add: pcm_items_def k_def)
  qed
qed

section \<open>Properties\<close>


definition sample_ring :: pcm_ring where
  "sample_ring = \<lparr>pcm_buf = [0, 0, 0, 9], pcm_cap = 4, pcm_head = 0, pcm_tail = 3, pcm_dropped = 0\<rparr>"


text \<open>
  The rule that each side writes only its own index is broken by an overflowing write, which
  moves the reader's: here a reader has taken its copy of the tail, a write of two samples
  overtakes it, and when the read finishes it has returned the newest sample as the oldest
  and the two that were waiting are gone.
\<close>

theorem pcm_reader_race:
  "let r0 = \<lparr>pcm_buf = [1, 2, 3, 0], pcm_cap = 4, pcm_head = 3, pcm_tail = 0, pcm_dropped = 0\<rparr>;
       r1 = snd (pcm_ring_write r0 (Some [4, 5]));
       (xs, t) = pcm_read_loop 1 3 (pcm_tail r0) (pcm_buf r1);
       r2 = r1\<lparr>pcm_tail := t\<rparr>
   in pcm_items r1 = [3, 4, 5] \<and> xs = [5] \<and> pcm_items r2 = []"
  by (simp add: pcm_ring_write_def Let_def pcm_items_def pcm_ring_used_def window_def upt_rec)

text \<open>
  The log survives a warm reset: when the ring in memory is intact, starting up keeps
  every line and adds the boot marker, and from then on readers see, oldest first, the
  latest lines of everything that was ever logged, 48 at most.  Memory that is not a ring
  is replaced by one that holds the marker alone.
\<close>

theorem log_survives_reset:
  "let (ok, r') = log_init now r; mark = log_entry (now, LOG_K_BOOT, Some (boot_marker (log_boot_count r')))
   in (if ok then log_wf r \<longrightarrow> log_items (fold log_append es r') =
                    latest LOG_LINES (log_items r @ mark # map log_entry es)
       else log_items (fold log_append es r') = latest LOG_LINES (mark # map log_entry es))
      \<and> (log_wf r \<longrightarrow> ok)"
proof -
  define r0 where "r0 = (if fst (log_init now r) then r
     else \<lparr>magic = LOG_MAGIC, log_head = 0, log_held = 0, log_lost = 0, boot = 0,
           log_lines = replicate LOG_LINES zero_line\<rparr>)"
  define mark where "mark = log_entry (now, LOG_K_BOOT, Some (boot_marker (boot r0 + 1)))"
  let ?r' = "snd (log_init now r)"
  have r': "?r' = log_push now LOG_K_BOOT (Some (snprintf LOG_LINE_MAX (boot_marker (boot r0 + 1))))
      (r0\<lparr>boot := boot r0 + 1\<rparr>)"
    by (simp add: log_init_def Let_def r0_def)
  have items: "log_items (fold log_append es ?r') = latest LOG_LINES (log_items r0 @ mark # map log_entry es)"
    if "log_wf r0"
  proof -
    let ?r1 = "r0\<lparr>boot := boot r0 + 1\<rparr>"
    have w1: "log_wf ?r1" and i1: "log_items ?r1 = log_items r0"
      using that by (simp_all add: log_wf_def log_items_def log_at_def log_count_def)
    have "log_wf ?r'" "log_items ?r' = latest LOG_LINES (log_items r0 @ [mark])"
      using log_push_items [OF w1] i1 unfolding r' by (simp_all add: mark_def log_entry_def snprintf_def)
    then show ?thesis using log.items_fold [of ?r' es]
        latest_append [of LOG_LINES "log_items r0 @ [mark]" "map log_entry es"]
      by (simp add: LOG_LINES_def)
  qed
  have "log_boot_count ?r' = boot r0 + 1" unfolding r' by (simp add: log_boot_count_def log_push_def)
  moreover have "log_wf r \<Longrightarrow> fst (log_init now r)" by (simp add: log_init_def log_wf_def Let_def)
  moreover have "log_wf r0 \<and> log_items r0 = []" if "\<not> fst (log_init now r)"
    using that by (simp add: r0_def log_wf_def log_items_def log_count_def LOG_LINES_def)
  ultimately show ?thesis using items by (auto simp: split_beta Let_def mark_def r0_def split: if_splits)
qed

definition crash_ring :: log_ring where
  "crash_ring = \<lparr>magic = LOG_MAGIC, log_head = 1, log_held = 1, log_lost = 0, boot = 6,
     log_lines = log_entry (5, LOG_K_ERR, Some ''hard fault'') # replicate 47 zero_line\<rparr>"

theorem log_survives_reset_witness:
  "map l_text (log_items (snd (log_init 3 crash_ring))) = [''hard fault'', boot_marker 7]"
proof -
  have wf: "log_wf crash_ring" by (simp add: log_wf_def LOG_LINES_def crash_ring_def)
  have it: "log_items crash_ring = [log_entry (5, LOG_K_ERR, Some ''hard fault'')]"
    by (simp add: log_items_def log_count_def log_at_def LOG_LINES_def crash_ring_def)
  have "log_boot_count (snd (log_init 3 crash_ring)) = 7" using wf
    by (simp add: log_init_def log_wf_def Let_def log_boot_count_def log_push_def)
      (simp add: crash_ring_def)
  moreover have "length (boot_marker 7) < LOG_LINE_MAX" by code_simp
  ultimately show ?thesis using log_survives_reset [of 3 crash_ring "[]"] wf it
    by (simp add: split_beta Let_def latest_def LOG_LINES_def log_entry_def snprintf_def LOG_LINE_MAX_def
        split: if_splits)
qed

text \<open>
  The command history returns the latest sixteen lines, newest first: after adding a
  line it is at depth zero (cut to 127 characters) and what was at each depth moves one
  deeper, except that a repeat of the newest line changes nothing and an empty line is not
  kept.
\<close>

theorem history_recent:
  assumes "hist_wf h"
  shows "hist_wf (hist_add lp h)
    \<and> (lp = None \<or> lp = Some [] \<or> lp = hist_get h 0 \<longrightarrow> hist_add lp h = h)
    \<and> (lp \<noteq> None \<and> lp \<noteq> Some [] \<and> lp \<noteq> hist_get h 0 \<longrightarrow>
        hist_get (hist_add lp h) 0 = map_option (take 127) lp
        \<and> (\<forall>d < 15. hist_get (hist_add lp h) (int (Suc d)) = hist_get h (int d))
        \<and> hist_get (hist_add lp h) 16 = None)"
proof (cases "lp = None \<or> lp = Some [] \<or> lp = hist_get h 0")
  case True
  have "hist_items h \<noteq> [] \<Longrightarrow> g_count h \<noteq> 0" using length_hist_items [of h] by (metis length_0_conv)
  then have "hist_add lp h = h"
    using True hist_get_0 [OF assms] hist_last [OF assms] by (auto simp: hist_add_def split: if_splits)
  with True assms show ?thesis by auto
next
  case False
  then obtain l where l: "lp = Some l" "l \<noteq> []" by (cases lp) auto
  define x where "x = take (HIST_LINE_MAX - 1) l"
  have new: "\<not> (hist_items h \<noteq> [] \<and> last (hist_items h) = l)"
    using False l hist_get_0 [OF assms] by auto
  have add: "hist_wf (hist_add lp h)" "hist_items (hist_add lp h) = latest HIST_N (hist_items h @ [x])"
    using hist_add_items [OF assms l(2)] new by (auto simp: l x_def)
  have view: "hist_get g (int e) = (if e < length (hist_items g) then Some (rev (hist_items g) ! e) else None)"
    if "hist_wf g" for g e using hist_get_items [OF that] by simp
  have rev: "rev (hist_items (hist_add lp h)) = take HIST_N (x # rev (hist_items h))"
    unfolding add(2) rev_latest by simp
  have len: "g_count (hist_add lp h) = min HIST_N (Suc (g_count h))"
    using arg_cong [OF rev, of length] by simp
  have "hist_get (hist_add lp h) 0 = Some x"
    using view [OF add(1), of 0] by (simp add: rev len HIST_N_def)
  moreover have "hist_get (hist_add lp h) (int (Suc d)) = hist_get h (int d)" if "d < 15" for d
    using that view [OF add(1), of "Suc d"] view [OF assms, of d] by (simp add: rev len HIST_N_def)
  moreover have "hist_get (hist_add lp h) 16 = None"
    using view [OF add(1), of 16] by (simp add: len HIST_N_def)
  ultimately show ?thesis using False add(1) by (auto simp: l x_def HIST_LINE_MAX_def)
qed

definition empty_history :: history where
  "empty_history = \<lparr>g_hist = replicate HIST_N [], g_count = 0, g_next = 0\<rparr>"

theorem history_recent_witness:
  "hist_get (hist_add (Some ''ls'') (hist_add (Some ''pwd'') empty_history)) 1 = Some ''pwd''"
proof -
  have wf: "hist_wf empty_history" by (simp add: hist_wf_def empty_history_def HIST_N_def)
  have 0: "hist_get empty_history 0 = None" by (simp add: hist_get_def empty_history_def)
  have 1: "hist_get (hist_add (Some ''pwd'') empty_history) 0 = Some ''pwd''"
    "hist_wf (hist_add (Some ''pwd'') empty_history)"
    using history_recent [OF wf, of "Some ''pwd''"] 0 by simp_all
  have "hist_get (hist_add (Some ''ls'') (hist_add (Some ''pwd'') empty_history)) (int (Suc 0)) =
      hist_get (hist_add (Some ''pwd'') empty_history) (int 0)"
    using history_recent [OF 1(2), of "Some ''ls''"] 1(1) by (simp del: of_nat_Suc of_nat_0)
  then show ?thesis using 1(1) by simp
qed

end
