(* ===== verification/Scheduler.thy ===== *)
theory Scheduler
  imports CLib PtrCheck
begin

text \<open>
  \<open>os/core/task.cpp\<close>: the two-core cooperative scheduler.  The table of tasks is a list of
  \<open>TASK_MAX\<close> records (the fields of \<open>TaskInfo\<close> and \<open>Task\<close> together) and a pointer to a
  task is its slot.  Every guarded section of the source is one step; the context switch,
  which happens after the guard is released, is a step of its own, so the window between
  the two is part of the model.  \<open>phase\<close> says what each core is doing, \<open>ctx\<close> whose stack it
  is physically on (\<open>None\<close> for the core's own scheduler context) and \<open>real_sp\<close> where each
  task's stack pointer really is; the last two are what the hardware holds and no code
  reads them.  The memoised lookup of the running task is the lookup it memoises.
\<close>

section \<open>Model\<close>

definition TASK_MAX :: nat where "TASK_MAX = 12"
definition TASK_NAME_MAX :: nat where "TASK_NAME_MAX = 16"
definition TASK_PATH_MAX :: nat where "TASK_PATH_MAX = 48"
definition TASK_STACK_MIN :: u32 where "TASK_STACK_MIN = 2048"
definition TASK_GUARD_BYTES :: nat where "TASK_GUARD_BYTES = 16"
definition TASK_STACK_ALIGN :: u32 where "TASK_STACK_ALIGN = 32"
definition MAX_CORES :: nat where "MAX_CORES = 2"
definition STACK_PAINT :: u32 where "STACK_PAINT = 0xA5A5A5A5"
definition STACK_GUARD :: u32 where "STACK_GUARD = 0xDEADBE57"

datatype task_state = TASK_FREE | TASK_READY | TASK_RUNNING | TASK_SLEEPING | TASK_BLOCKED | TASK_DONE

datatype task_affinity = AFFINITY_ANY | AFFINITY_CORE0 | AFFINITY_CORE1

record task =
  pid :: int
  t_name :: string
  t_path :: string
  t_state :: task_state
  affinity :: task_affinity
  on_core :: nat
  t_stack_size :: u32
  stack_used :: u32
  heap_bytes :: u32
  cpu_ms :: u32
  switches :: u32
  exit_code :: int
  kill_requested :: bool
  sp :: u32
  stk :: "u32 option"
  stack_raw :: "u32 option"
  stack_words :: "u32 list"
  fn :: nat
  arg :: u32
  wake_at_ms :: u32
  entered_ms :: u32
  live :: bool
  crit :: u32
  app_mem :: task_app_mem
  app_mem_set :: bool
  t_arena :: "u32 option"

text \<open>What the black box is told (\<open>bb_note_yield\<close>, \<open>bb_note_task\<close>).\<close>

datatype bb_note = BbYield u32 | BbTask int nat string u32 u32

text \<open>
  What a core is doing: running its context, stopped in \<open>task_stack_overflow\<close>, polling inside
  \<open>reschedule\<close> (a sleeper with its deadline, or a finished task), or past the guard and
  about to switch from one context to another.
\<close>

datatype phase =
  Executing | Halted | WaitSleep nat u32 | WaitDone nat | Switching "nat option" "nat option"

text \<open>A \<open>task_spawn\<close> in progress: its slot is reserved, or filled and about to be made READY.\<close>

datatype spawn_stage = Claimed | Filled

record sched =
  g_up :: bool
  g_tasks :: "task list"
  g_used :: nat
  g_next_pid :: int
  g_current :: "int list"
  g_sched_sp :: "u32 option list"
  g_shell_pid :: int
  g_pre_init_crit :: u32
  phases :: "phase list"
  ctx :: "nat option list"
  real_sp :: "u32 list"
  spawning :: "(nat \<times> spawn_stage) list"
  freed :: "u32 list"
  recycled :: "nat list"
  wd_feeds :: nat
  bb :: "bb_note list"
  hw_guard :: "(u32 \<times> u32) option list"
  hw_app :: "task_app_mem option list"

abbreviation upd :: "nat \<Rightarrow> (task \<Rightarrow> task) \<Rightarrow> sched \<Rightarrow> sched" where
  "upd i f w \<equiv> w\<lparr>g_tasks := (g_tasks w)[i := f (g_tasks w ! i)]\<rparr>"

subsection \<open>Lookup\<close>

fun find_slot :: "(task \<Rightarrow> bool) \<Rightarrow> task list \<Rightarrow> nat option" where
  "find_slot P [] = None"
| "find_slot P (t # ts) = (if P t then Some 0 else map_option Suc (find_slot P ts))"

definition slot_of :: "sched \<Rightarrow> int \<Rightarrow> nat option" where
  "slot_of w p = find_slot (\<lambda>t. t_state t \<noteq> TASK_FREE \<and> pid t = p) (g_tasks w)"

definition cur :: "sched \<Rightarrow> nat \<Rightarrow> nat option" where
  "cur w core =
     (let p = g_current w ! (core mod MAX_CORES) in if p < 0 then None else slot_of w p)"

subsection \<open>Stack accounting\<close>

definition paint :: "nat \<Rightarrow> u32 list" where
  "paint n = replicate (TASK_GUARD_BYTES div 4) STACK_GUARD @
     replicate (n div 4 - TASK_GUARD_BYTES div 4) STACK_PAINT"

definition guard_ok :: "task \<Rightarrow> bool" where
  "guard_ok t = (stk t = None \<or> (\<forall>x \<in> set (take (TASK_GUARD_BYTES div 4) (stack_words t)). x = STACK_GUARD))"

definition high_water :: "task \<Rightarrow> u32" where
  "high_water t =
     (if stk t = None then 0
      else let n = unat (t_stack_size t) div 4; first = TASK_GUARD_BYTES div 4;
               untouched = length (takeWhile (\<lambda>x. x = STACK_PAINT) (drop first (take n (stack_words t))))
           in t_stack_size t - of_nat TASK_GUARD_BYTES - of_nat untouched * 4)"

subsection \<open>Protection\<close>

text \<open>
  \<open>arm_protection\<close> on a core; \<open>sbg\<close> is \<open>sandbox_guard_stack\<close>, the package stack of a slot
  that is inside one.
\<close>

definition arm_protection :: "(nat \<Rightarrow> (u32 \<times> u32) option) \<Rightarrow> nat \<Rightarrow> nat option \<Rightarrow> sched \<Rightarrow> sched" where
  "arm_protection sbg core tp w =
     (let guard = (case tp of None \<Rightarrow> None
        | Some i \<Rightarrow> (case sbg i of Some g \<Rightarrow> Some g
            | None \<Rightarrow> (case stk (g_tasks w ! i) of Some s \<Rightarrow> Some (s, t_stack_size (g_tasks w ! i)) | None \<Rightarrow> None)));
          app = (case tp of None \<Rightarrow> None
        | Some i \<Rightarrow> if app_mem_set (g_tasks w ! i) then Some (app_mem (g_tasks w ! i)) else None)
      in w\<lparr>hw_guard := (hw_guard w)[core := guard], hw_app := (hw_app w)[core := app]\<rparr>)"

subsection \<open>Choosing a task\<close>

definition runnable_on :: "u32 \<Rightarrow> task \<Rightarrow> nat \<Rightarrow> bool" where
  "runnable_on now t core =
     (if live t then False
      else if t_state t \<noteq> TASK_READY \<and> \<not> (t_state t = TASK_SLEEPING \<and> sint (now - wake_at_ms t) \<ge> 0)
      then False
      else case affinity t of AFFINITY_ANY \<Rightarrow> True | AFFINITY_CORE0 \<Rightarrow> core = 0 | AFFINITY_CORE1 \<Rightarrow> core = 1)"

fun pick_loop :: "u32 \<Rightarrow> task list \<Rightarrow> nat \<Rightarrow> nat list \<Rightarrow> nat option" where
  "pick_loop now ts core [] = None"
| "pick_loop now ts core (i # is) =
     (if t_state (ts ! i) \<noteq> TASK_FREE \<and> runnable_on now (ts ! i) core then Some i
      else pick_loop now ts core is)"

definition pick_start :: "sched \<Rightarrow> int \<Rightarrow> nat" where
  "pick_start w after_pid = (case slot_of w after_pid of None \<Rightarrow> 0 | Some i \<Rightarrow> i + 1)"

definition pick :: "u32 \<Rightarrow> sched \<Rightarrow> nat \<Rightarrow> int \<Rightarrow> nat option" where
  "pick now w core after_pid =
     pick_loop now (g_tasks w) core (map (\<lambda>n. (pick_start w after_pid + n) mod TASK_MAX) [0..<TASK_MAX])"

subsection \<open>How busy the machine is\<close>

record cpu_sample =
  busy_ms :: u32
  wall_ms :: u32
  cpu_pct :: u32

definition task_cpu_percent :: "u32 \<Rightarrow> u32 \<Rightarrow> sched \<Rightarrow> cpu_sample \<Rightarrow> u32 \<times> cpu_sample" where
  "task_cpu_percent wall cores w s =
     (let busy = sum_list (map (\<lambda>t. if t_state t \<noteq> TASK_FREE then cpu_ms t else 0) (g_tasks w));
          d_busy = busy - busy_ms s; d_wall = wall - wall_ms s
      in if d_wall < 100 then (if busy_ms s \<noteq> 0 then cpu_pct s else 0, s)
         else let cores = (if cores = 0 then 1 else cores);
                  pct = of_nat (unat d_busy * 100 div (unat d_wall * unat cores));
                  pct = (if pct > 100 then 100 else pct)
              in (pct, s\<lparr>busy_ms := busy, wall_ms := wall, cpu_pct := pct\<rparr>))"

subsection \<open>Start and creation\<close>

definition no_mem :: task_app_mem where
  "no_mem = \<lparr>text_base = 0, text_size = 0, data_base = 0, data_size = 0, veneer_base = 0, veneer_size = 0,
     stack_base = 0, stack_size = 0, arena_base = 0, arena_bytes = 0\<rparr>"

definition zero_task :: task where
  "zero_task = \<lparr>pid = 0, t_name = [], t_path = [], t_state = TASK_FREE, affinity = AFFINITY_ANY,
     on_core = 0, t_stack_size = 0, stack_used = 0, heap_bytes = 0, cpu_ms = 0, switches = 0,
     exit_code = 0, kill_requested = False, sp = 0, stk = None, stack_raw = None, stack_words = [],
     fn = 0, arg = 0, wake_at_ms = 0, entered_ms = 0, live = False, crit = 0, app_mem = no_mem,
     app_mem_set = False, t_arena = None\<rparr>"

text \<open>The state the C runtime starts from: the static variables and their initialisers.\<close>

definition sched_boot :: sched where
  "sched_boot = \<lparr>g_up = False, g_tasks = replicate TASK_MAX zero_task, g_used = 0, g_next_pid = 1,
     g_current = replicate MAX_CORES (- 1), g_sched_sp = replicate MAX_CORES None, g_shell_pid = 0,
     g_pre_init_crit = 0, phases = replicate MAX_CORES Executing, ctx = replicate MAX_CORES None,
     real_sp = replicate TASK_MAX 0, spawning = [], freed = [], recycled = [], wd_feeds = 0, bb = [],
     hw_guard = replicate MAX_CORES None, hw_app = replicate MAX_CORES None\<rparr>"

definition task_init :: "u32 \<Rightarrow> u32 \<Rightarrow> (nat \<Rightarrow> (u32 \<times> u32) option) \<Rightarrow> string option \<Rightarrow> sched \<Rightarrow> sched" where
  "task_init main_size now sbg name w =
     (let t = zero_task\<lparr>pid := g_next_pid w, t_state := TASK_RUNNING, affinity := AFFINITY_CORE0,
                on_core := 0, stk := None, t_stack_size := main_size, entered_ms := now, live := True,
                crit := 0,
                t_name := take (TASK_NAME_MAX - 1) (case name of Some n \<Rightarrow> n | None \<Rightarrow> ''init''),
                t_path := take (TASK_PATH_MAX - 1) ''(kernel)''\<rparr>
      in arm_protection sbg 0 (Some 0)
           (w\<lparr>g_tasks := (replicate TASK_MAX zero_task)[0 := t],
              g_next_pid := g_next_pid w + 1,
              g_current := (replicate MAX_CORES (- 1))[0 := g_next_pid w],
              g_up := True, g_used := 1, ctx := (ctx w)[0 := Some 0]\<rparr>))"

definition spawn_stack_bytes :: "u32 \<Rightarrow> u32" where
  "spawn_stack_bytes n = ((if n < TASK_STACK_MIN then TASK_STACK_MIN else n) + 7) AND NOT 7"

text \<open>
  \<open>task_spawn\<close>, in the three sections between which another core can run: the claim under
  the guard, the filling of the slot once \<open>malloc\<close> has answered, and the store of READY.
  \<open>oldest_done\<close> is the search for the finished task of the smallest pid.
\<close>

fun oldest_done :: "task list \<Rightarrow> nat \<Rightarrow> nat option \<Rightarrow> task list \<Rightarrow> nat option" where
  "oldest_done all i best [] = best"
| "oldest_done all i best (c # cs) =
     oldest_done all (i + 1)
       (if t_state c \<noteq> TASK_DONE then best
        else case best of None \<Rightarrow> Some i | Some b \<Rightarrow> if pid c < pid (all ! b) then Some i else best) cs"

definition spawn_recycle :: "nat \<Rightarrow> sched \<Rightarrow> sched" where
  "spawn_recycle i w =
     (let raw = stack_raw (g_tasks w ! i);
          w = upd i (\<lambda>t. t\<lparr>stk := None, t_state := TASK_BLOCKED, live := False, crit := 0,
                            app_mem_set := False, t_arena := None, stack_raw := None\<rparr>) w
      in w\<lparr>freed := freed w @ (case raw of Some r \<Rightarrow> [r] | None \<Rightarrow> []), recycled := recycled w @ [i]\<rparr>)"

definition spawn_claim :: "sched \<Rightarrow> nat option \<times> sched" where
  "spawn_claim w =
     (case find_slot (\<lambda>t. t_state t = TASK_FREE) (g_tasks w) of
        Some i \<Rightarrow> (Some i, upd i (\<lambda>t. t\<lparr>t_state := TASK_BLOCKED\<rparr>) w)
      | None \<Rightarrow> (case oldest_done (g_tasks w) 0 None (g_tasks w) of
            Some i \<Rightarrow> (Some i, spawn_recycle i w)
          | None \<Rightarrow> (None, w)))"

definition aligned_stack :: "u32 \<Rightarrow> u32" where
  "aligned_stack raw = (raw + (TASK_STACK_ALIGN - 1)) AND NOT (TASK_STACK_ALIGN - 1)"

definition spawn_fill ::
  "(u32 \<Rightarrow> u32) \<Rightarrow> string option \<Rightarrow> string option \<Rightarrow> nat \<Rightarrow> u32 \<Rightarrow> u32 \<Rightarrow> task_affinity \<Rightarrow> u32 \<Rightarrow> nat \<Rightarrow> sched \<Rightarrow> sched" where
  "spawn_fill ctx_init name path f a stack_bytes aff raw i w =
     (let stack = aligned_stack raw; top = ctx_init (stack + stack_bytes);
          t = g_tasks w ! i;
          t = t\<lparr>pid := g_next_pid w, t_name := take (TASK_NAME_MAX - 1) (case name of Some n \<Rightarrow> n | None \<Rightarrow> ''task''),
               t_path := take (TASK_PATH_MAX - 1) (case path of Some n \<Rightarrow> n | None \<Rightarrow> ''-''),
               t_state := TASK_FREE, affinity := aff, on_core := 0, t_stack_size := stack_bytes,
               stack_used := 0, heap_bytes := 0, cpu_ms := 0, switches := 0, exit_code := 0,
               kill_requested := False, sp := top, stk := Some stack, stack_raw := Some raw,
               stack_words := paint (unat stack_bytes), fn := f, arg := a, live := False, crit := 0,
               app_mem_set := False, t_arena := None\<rparr>
      in w\<lparr>g_tasks := (g_tasks w)[i := t], g_next_pid := g_next_pid w + 1,
           g_used := max (g_used w) (i + 1), real_sp := (real_sp w)[i := top]\<rparr>)"

definition spawn_ready :: "nat \<Rightarrow> sched \<Rightarrow> int \<times> sched" where
  "spawn_ready i w = (pid (g_tasks w ! i), upd i (\<lambda>t. t\<lparr>t_state := TASK_READY\<rparr>) w)"

text \<open>The whole call when nothing else runs meanwhile; \<open>malloc\<close> is a parameter.\<close>

definition task_spawn ::
  "(u32 \<Rightarrow> u32 option) \<Rightarrow> (u32 \<Rightarrow> u32) \<Rightarrow> string option \<Rightarrow> string option \<Rightarrow> nat \<Rightarrow> u32 \<Rightarrow> u32 \<Rightarrow> task_affinity \<Rightarrow>
     sched \<Rightarrow> int \<times> sched" where
  "task_spawn malloc ctx_init name path f a stack_bytes aff w =
     (if f = 0 then (- 1, w)
      else let n = spawn_stack_bytes stack_bytes in
        case spawn_claim w of
          (None, w) \<Rightarrow> (- 1, w)
        | (Some i, w) \<Rightarrow> (case malloc (n + TASK_STACK_ALIGN) of
              None \<Rightarrow> (- 1, upd i (\<lambda>t. t\<lparr>t_state := TASK_FREE\<rparr>) w)
            | Some raw \<Rightarrow> spawn_ready i (spawn_fill ctx_init name path f a n aff raw i w)))"

subsection \<open>Rescheduling\<close>

abbreviation set_phase :: "nat \<Rightarrow> phase \<Rightarrow> sched \<Rightarrow> sched" where
  "set_phase core p w \<equiv> w\<lparr>phases := (phases w)[core := p]\<rparr>"

definition note_task :: "nat \<Rightarrow> nat \<Rightarrow> sched \<Rightarrow> sched" where
  "note_task core i w = (let t = g_tasks w ! i in
     w\<lparr>bb := bb w @ [BbTask (pid t) core (t_name t) (stack_used t) (t_stack_size t)]\<rparr>)"

text \<open>What is done before the guard is taken: the watchdog and the black box, on core 0.\<close>

definition resched_notes :: "u32 \<Rightarrow> nat \<Rightarrow> sched \<Rightarrow> sched" where
  "resched_notes now core w =
     (if core \<noteq> 0 then w
      else let w = w\<lparr>wd_feeds := wd_feeds w + 1, bb := bb w @ [BbYield now]\<rparr>
           in case cur w core of Some i \<Rightarrow> note_task core i w | None \<Rightarrow> w)"

text \<open>The task's own books: run time, high-water mark, and the state it parks in.\<close>

definition resched_park :: "u32 \<Rightarrow> task_state \<Rightarrow> task \<Rightarrow> task" where
  "resched_park now park_as t =
     (let t = t\<lparr>cpu_ms := cpu_ms t + (now - entered_ms t)\<rparr>;
          t = (if t_state t \<noteq> TASK_DONE then t\<lparr>stack_used := high_water t\<rparr> else t)
      in if t_state t = TASK_RUNNING then t\<lparr>t_state := park_as\<rparr> else t)"

text \<open>
  The two tripwires.  \<open>None\<close> when \<open>task_stack_overflow\<close>, which does not return, is reached.
\<close>

definition main_headroom :: "u32 \<Rightarrow> task \<Rightarrow> task" where
  "main_headroom left t = t\<lparr>stack_used := if t_stack_size t > left then t_stack_size t - left else 0\<rparr>"

definition resched_account :: "u32 \<Rightarrow> u32 \<Rightarrow> nat \<Rightarrow> task_state \<Rightarrow> task \<Rightarrow> task option" where
  "resched_account now left core park_as t =
     (if \<not> guard_ok t then None
      else if stk t = None \<and> core = 0
      then (if left < 256 then None else Some (resched_park now park_as (main_headroom left t)))
      else Some (resched_park now park_as t))"

definition carry_on :: "u32 \<Rightarrow> nat \<Rightarrow> nat \<Rightarrow> sched \<Rightarrow> sched" where
  "carry_on now core i w =
     set_phase core Executing (upd i (\<lambda>t. t\<lparr>t_state := TASK_RUNNING, entered_ms := now\<rparr>) w)"

text \<open>Claiming the task to run next; the switch itself comes after the guard is released.\<close>

definition resched_claim :: "u32 \<Rightarrow> nat \<Rightarrow> nat option \<Rightarrow> nat \<Rightarrow> sched \<Rightarrow> sched" where
  "resched_claim now core me i w =
     (if me = Some i then carry_on now core i w
      else let w = upd i (\<lambda>t. t\<lparr>t_state := TASK_RUNNING, live := True, on_core := core\<rparr>) w;
               w = (if core = 0 then note_task core i w else w);
               w = upd i (\<lambda>t. t\<lparr>switches := switches t + 1, entered_ms := now\<rparr>) w
           in set_phase core (Switching me (Some i))
                (w\<lparr>g_current := (g_current w)[core := pid (g_tasks w ! i)]\<rparr>))"

text \<open>Nothing to switch to: carry on, wait the sleep out, leave for good, or return.\<close>

definition resched_idle :: "u32 \<Rightarrow> nat \<Rightarrow> nat option \<Rightarrow> sched \<Rightarrow> sched" where
  "resched_idle now core me w =
     (case me of None \<Rightarrow> set_phase core Executing w
      | Some i \<Rightarrow> let t = g_tasks w ! i in
          (case t_state t of
             TASK_READY \<Rightarrow> carry_on now core i w
           | TASK_SLEEPING \<Rightarrow> set_phase core (WaitSleep i (wake_at_ms t)) w
           | TASK_DONE \<Rightarrow> (case g_sched_sp w ! core of
                 Some back \<Rightarrow> set_phase core (Switching (Some i) None)
                     (w\<lparr>g_current := (g_current w)[core := - 1], g_sched_sp := (g_sched_sp w)[core := None]\<rparr>)
               | None \<Rightarrow> set_phase core (WaitDone i) w)
           | _ \<Rightarrow> set_phase core Executing w))"

definition resched_choose :: "u32 \<Rightarrow> nat \<Rightarrow> nat option \<Rightarrow> sched \<Rightarrow> sched" where
  "resched_choose now core me w =
     (case pick now w core (case me of Some i \<Rightarrow> pid (g_tasks w ! i) | None \<Rightarrow> 0) of
        Some j \<Rightarrow> resched_claim now core me j w
      | None \<Rightarrow> resched_idle now core me w)"

definition reschedule :: "u32 \<Rightarrow> u32 \<Rightarrow> nat \<Rightarrow> task_state \<Rightarrow> sched \<Rightarrow> sched" where
  "reschedule now left core park_as w =
     (if \<not> g_up w then w
      else let w = resched_notes now core w in
        case cur w core of
          None \<Rightarrow> resched_choose now core None w
        | Some i \<Rightarrow> (case resched_account now left core park_as (g_tasks w ! i) of
              None \<Rightarrow> set_phase core Halted w
            | Some t \<Rightarrow> resched_choose now core (Some i) (w\<lparr>g_tasks := (g_tasks w)[i := t]\<rparr>)))"

text \<open>One turn of the two waiting loops.\<close>

definition feed_core0 :: "nat \<Rightarrow> sched \<Rightarrow> sched" where
  "feed_core0 core w = (if core = 0 then w\<lparr>wd_feeds := wd_feeds w + 1\<rparr> else w)"

definition sleep_poll :: "u32 \<Rightarrow> nat \<Rightarrow> sched \<Rightarrow> sched" where
  "sleep_poll now core w =
     (case phases w ! core of
        WaitSleep i wake \<Rightarrow>
          (let w = feed_core0 core w in
           if sint (now - wake) \<ge> 0 then carry_on now core i w
           else case pick now w core (pid (g_tasks w ! i)) of
                  Some j \<Rightarrow> resched_claim now core (Some i) j w
                | None \<Rightarrow> w)
      | _ \<Rightarrow> w)"

definition done_poll :: "u32 \<Rightarrow> nat \<Rightarrow> sched \<Rightarrow> sched" where
  "done_poll now core w =
     (case phases w ! core of
        WaitDone i \<Rightarrow>
          (let w = w\<lparr>wd_feeds := wd_feeds w + 1\<rparr> in
           case pick now w core 0 of
             Some j \<Rightarrow> resched_claim now core (Some i) j w
           | None \<Rightarrow> w)
      | _ \<Rightarrow> w)"

text \<open>
  The context switch: \<open>task_ctx_switch\<close> stores the stack pointer of the context it leaves and
  clears that task's \<open>live\<close>, then runs on the other stack, whose owner arms the protection
  (\<open>reschedule\<close>'s tail, or \<open>task_trampoline\<close> for a task that never ran).  \<open>here\<close> is the stack
  pointer of the scheduler's own context when that is what is left.
\<close>

definition ctx_leave :: "nat \<Rightarrow> u32 \<Rightarrow> nat option \<Rightarrow> sched \<Rightarrow> sched" where
  "ctx_leave core here from w =
     (case from of
        Some i \<Rightarrow> upd i (\<lambda>t. t\<lparr>sp := real_sp w ! i, live := False\<rparr>) w
      | None \<Rightarrow> w\<lparr>g_sched_sp := (g_sched_sp w)[core := Some here]\<rparr>)"

definition ctx_enter :: "(nat \<Rightarrow> (u32 \<times> u32) option) \<Rightarrow> nat \<Rightarrow> nat option \<Rightarrow> sched \<Rightarrow> sched" where
  "ctx_enter sbg core dest w =
     (case dest of
        Some j \<Rightarrow> arm_protection sbg core (Some j)
                    (w\<lparr>ctx := (ctx w)[core := Some j], real_sp := (real_sp w)[j := sp (g_tasks w ! j)]\<rparr>)
      | None \<Rightarrow> arm_protection sbg core None
                  (w\<lparr>ctx := (ctx w)[core := None]\<rparr>))"

definition ctx_switch :: "(nat \<Rightarrow> (u32 \<times> u32) option) \<Rightarrow> nat \<Rightarrow> u32 \<Rightarrow> sched \<Rightarrow> sched" where
  "ctx_switch sbg core here w =
     (case phases w ! core of
        Switching from dest \<Rightarrow> set_phase core Executing (ctx_enter sbg core dest (ctx_leave core here from w))
      | _ \<Rightarrow> w)"

subsection \<open>What a task asks of the scheduler\<close>

definition task_yield :: "u32 \<Rightarrow> u32 \<Rightarrow> nat \<Rightarrow> sched \<Rightarrow> sched" where
  "task_yield now left core w = reschedule now left core TASK_READY w"

definition task_set_affinity :: "int \<Rightarrow> task_affinity \<Rightarrow> sched \<Rightarrow> bool \<times> sched" where
  "task_set_affinity p aff w =
     (case slot_of w p of Some i \<Rightarrow> (True, upd i (\<lambda>t. t\<lparr>affinity := aff\<rparr>) w) | None \<Rightarrow> (False, w))"

definition task_affinity_of :: "int \<Rightarrow> sched \<Rightarrow> task_affinity" where
  "task_affinity_of p w =
     (case slot_of w p of Some i \<Rightarrow> affinity (g_tasks w ! i) | None \<Rightarrow> AFFINITY_ANY)"

definition task_crit_enter :: "nat \<Rightarrow> sched \<Rightarrow> sched" where
  "task_crit_enter core w =
     (case cur w core of Some i \<Rightarrow> upd i (\<lambda>t. t\<lparr>crit := crit t + 1\<rparr>) w
      | None \<Rightarrow> w\<lparr>g_pre_init_crit := g_pre_init_crit w + 1\<rparr>)"

definition task_crit_leave :: "nat \<Rightarrow> sched \<Rightarrow> sched" where
  "task_crit_leave core w =
     (case cur w core of
        Some i \<Rightarrow> upd i (\<lambda>t. if crit t \<noteq> 0 then t\<lparr>crit := crit t - 1\<rparr> else t) w
      | None \<Rightarrow> if g_pre_init_crit w \<noteq> 0 then w\<lparr>g_pre_init_crit := g_pre_init_crit w - 1\<rparr> else w)"

definition task_crit_active :: "nat \<Rightarrow> sched \<Rightarrow> bool" where
  "task_crit_active core w =
     (case cur w core of Some i \<Rightarrow> crit (g_tasks w ! i) \<noteq> 0 | None \<Rightarrow> g_pre_init_crit w \<noteq> 0)"

text \<open>\<open>task_alive\<close> with its static \<open>last_us\<close>; the boolean says the stack had overflowed.\<close>

definition task_alive :: "u32 \<Rightarrow> u32 \<Rightarrow> u32 \<Rightarrow> nat \<Rightarrow> u32 \<Rightarrow> sched \<Rightarrow> u32 \<times> sched" where
  "task_alive now_us now left core last_us w =
     (if \<not> g_up w \<or> core \<noteq> 0 \<or> now_us - last_us < 25000 then (last_us, w)
      else let w = w\<lparr>bb := bb w @ [BbYield now], wd_feeds := wd_feeds w + 1\<rparr> in
        (now_us,
         case cur w core of None \<Rightarrow> w
         | Some i \<Rightarrow> let t = g_tasks w ! i in
             if stk t = None then (if left < 256 then set_phase core Halted w else w)
             else if \<not> guard_ok t then set_phase core Halted w
             else upd i (\<lambda>t. t\<lparr>stack_used := high_water t\<rparr>) w))"

definition task_sleep_ms :: "u32 \<Rightarrow> u32 \<Rightarrow> nat \<Rightarrow> u32 \<Rightarrow> sched \<Rightarrow> sched" where
  "task_sleep_ms now left core ms w =
     (case cur w core of None \<Rightarrow> w
      | Some i \<Rightarrow> reschedule now left core TASK_SLEEPING (upd i (\<lambda>t. t\<lparr>wake_at_ms := now + ms\<rparr>) w))"

definition task_kill :: "u32 \<Rightarrow> int \<Rightarrow> sched \<Rightarrow> bool \<times> sched" where
  "task_kill now p w =
     (case slot_of w p of None \<Rightarrow> (False, w)
      | Some i \<Rightarrow> let t = g_tasks w ! i in
          if pid t = 1 then (False, w)
          else if g_shell_pid w \<noteq> 0 \<and> pid t = g_shell_pid w then (False, w)
          else if t_state t = TASK_DONE then (False, w)
          else (True, upd i (\<lambda>t. let t = t\<lparr>kill_requested := True\<rparr> in
                  if t_state t = TASK_SLEEPING then t\<lparr>wake_at_ms := now, t_state := TASK_READY\<rparr> else t) w))"

definition task_should_stop :: "nat \<Rightarrow> sched \<Rightarrow> bool" where
  "task_should_stop core w = (case cur w core of Some i \<Rightarrow> kill_requested (g_tasks w ! i) | None \<Rightarrow> False)"

definition task_clear_stop :: "nat \<Rightarrow> sched \<Rightarrow> sched" where
  "task_clear_stop core w =
     (case cur w core of Some i \<Rightarrow> upd i (\<lambda>t. t\<lparr>kill_requested := False\<rparr>) w | None \<Rightarrow> w)"

definition task_mark_shell :: "nat \<Rightarrow> sched \<Rightarrow> sched" where
  "task_mark_shell core w =
     (case cur w core of Some i \<Rightarrow> w\<lparr>g_shell_pid := pid (g_tasks w ! i)\<rparr> | None \<Rightarrow> w)"

text \<open>\<open>task_exit\<close> up to its call of \<open>reschedule\<close>, and whole.\<close>

definition task_exit_mark :: "nat \<Rightarrow> int \<Rightarrow> sched \<Rightarrow> sched" where
  "task_exit_mark core code w =
     (case cur w core of None \<Rightarrow> w
      | Some i \<Rightarrow> upd i (\<lambda>t. t\<lparr>exit_code := code, stack_used := high_water t, t_state := TASK_DONE\<rparr>) w)"

definition task_exit :: "u32 \<Rightarrow> u32 \<Rightarrow> nat \<Rightarrow> int \<Rightarrow> sched \<Rightarrow> sched" where
  "task_exit now left core code w =
     (case cur w core of None \<Rightarrow> w
      | Some i \<Rightarrow> reschedule now left core TASK_DONE (task_exit_mark core code w))"

definition task_self :: "nat \<Rightarrow> sched \<Rightarrow> int" where
  "task_self core w = (case cur w core of Some i \<Rightarrow> pid (g_tasks w ! i) | None \<Rightarrow> - 1)"

definition task_rearm_protection :: "(nat \<Rightarrow> (u32 \<times> u32) option) \<Rightarrow> nat \<Rightarrow> sched \<Rightarrow> sched" where
  "task_rearm_protection sbg core w = arm_protection sbg core (cur w core) w"

definition task_current :: "nat \<Rightarrow> sched \<Rightarrow> task option" where
  "task_current core w = map_option (\<lambda>i. g_tasks w ! i) (cur w core)"

definition task_slot_index :: "nat \<Rightarrow> sched \<Rightarrow> int" where
  "task_slot_index core w = (case cur w core of Some i \<Rightarrow> int i | None \<Rightarrow> - 1)"

subsection \<open>Looking at the table\<close>

definition task_count :: "sched \<Rightarrow> nat" where
  "task_count w = length (filter (\<lambda>t. t_state t \<noteq> TASK_FREE) (g_tasks w))"

fun task_at_loop :: "nat \<Rightarrow> nat \<Rightarrow> task list \<Rightarrow> task option \<times> task list" where
  "task_at_loop idx n [] = (None, [])"
| "task_at_loop idx n (t # ts) =
     (if t_state t = TASK_FREE then (let (r, ts) = task_at_loop idx n ts in (r, t # ts))
      else let t = (if t_state t \<noteq> TASK_DONE then t\<lparr>stack_used := high_water t\<rparr> else t) in
        if n = idx then (Some t, t # ts)
        else let (r, ts) = task_at_loop idx (n + 1) ts in (r, t # ts))"

definition task_at :: "nat \<Rightarrow> sched \<Rightarrow> task option \<times> sched" where
  "task_at idx w = (let (r, ts) = task_at_loop idx 0 (g_tasks w) in (r, w\<lparr>g_tasks := ts\<rparr>))"

definition task_find :: "int \<Rightarrow> sched \<Rightarrow> task option" where
  "task_find p w = map_option (\<lambda>i. g_tasks w ! i) (slot_of w p)"

definition task_reap :: "int \<Rightarrow> sched \<Rightarrow> bool \<times> sched" where
  "task_reap p w =
     (case slot_of w p of None \<Rightarrow> (False, w)
      | Some i \<Rightarrow> let t = g_tasks w ! i in
          if t_state t \<noteq> TASK_DONE then (False, w)
          else let raw = stack_raw t;
                   w = upd i (\<lambda>t. t\<lparr>stk := None, stack_raw := None, app_mem_set := False,
                                    t_arena := None, t_state := TASK_FREE\<rparr>) w
               in (True, w\<lparr>freed := freed w @ (case raw of Some r \<Rightarrow> [r] | None \<Rightarrow> []),
                           recycled := recycled w @ [i]\<rparr>))"

subsection \<open>Package memory\<close>

definition task_app_mem_current :: "nat \<Rightarrow> sched \<Rightarrow> task_app_mem option" where
  "task_app_mem_current core w =
     (case cur w core of None \<Rightarrow> None
      | Some i \<Rightarrow> let t = g_tasks w ! i in
          if \<not> app_mem_set t then None else if stack_size (app_mem t) = 0 then None else Some (app_mem t))"

definition task_in_package :: "nat \<Rightarrow> sched \<Rightarrow> bool" where
  "task_in_package core w =
     (case cur w core of None \<Rightarrow> False
      | Some i \<Rightarrow> app_mem_set (g_tasks w ! i) \<and> text_base (app_mem (g_tasks w ! i)) \<noteq> 0)"

definition task_app_mem_set :: "nat \<Rightarrow> task_app_mem option \<Rightarrow> sched \<Rightarrow> sched" where
  "task_app_mem_set core mem w =
     (case (cur w core, mem) of
        (Some i, Some m) \<Rightarrow>
          (upd i (\<lambda>t. t\<lparr>app_mem := m, app_mem_set := True\<rparr>) w)\<lparr>hw_app := (hw_app w)[core := Some m]\<rparr>
      | _ \<Rightarrow> w)"

definition task_app_mem_holder :: "nat \<Rightarrow> u32 \<Rightarrow> sched \<Rightarrow> int" where
  "task_app_mem_holder core text w =
     (if text = 0 then - 1
      else case filter (\<lambda>i. Some i \<noteq> cur w core \<and> t_state (g_tasks w ! i) \<noteq> TASK_FREE \<and>
                  t_state (g_tasks w ! i) \<noteq> TASK_DONE \<and> app_mem_set (g_tasks w ! i) \<and>
                  text_base (app_mem (g_tasks w ! i)) = text) [0..<TASK_MAX] of
             i # _ \<Rightarrow> pid (g_tasks w ! i) | [] \<Rightarrow> - 1)"

definition task_app_mem_get :: "nat \<Rightarrow> sched \<Rightarrow> task_app_mem option" where
  "task_app_mem_get core w =
     (case cur w core of None \<Rightarrow> None
      | Some i \<Rightarrow> if app_mem_set (g_tasks w ! i) then Some (app_mem (g_tasks w ! i)) else None)"

definition task_arena :: "nat \<Rightarrow> sched \<Rightarrow> u32 option" where
  "task_arena core w = (case cur w core of Some i \<Rightarrow> t_arena (g_tasks w ! i) | None \<Rightarrow> None)"

definition task_arena_set :: "nat \<Rightarrow> u32 option \<Rightarrow> sched \<Rightarrow> sched" where
  "task_arena_set core a w =
     (case cur w core of Some i \<Rightarrow> upd i (\<lambda>t. t\<lparr>t_arena := a\<rparr>) w | None \<Rightarrow> w)"

definition task_app_mem_clear :: "nat \<Rightarrow> sched \<Rightarrow> sched" where
  "task_app_mem_clear core w =
     (let w = w\<lparr>hw_app := (hw_app w)[core := None]\<rparr> in
      case cur w core of Some i \<Rightarrow> upd i (\<lambda>t. t\<lparr>app_mem_set := False\<rparr>) w | None \<Rightarrow> w)"

subsection \<open>Everything the two cores can do\<close>

text \<open>
  One step of either core.  A core acts for the context it is on only while it is
  \<open>Executing\<close>; that context may also move its stack pointer and write its stack.  The rules
  that give a slot away carry the conditions the code leaves to its callers: a finished task
  is reaped or recycled once it has left its core, and a slot is not claimed while another
  core is between filling one and making it READY.
\<close>

definition executing :: "sched \<Rightarrow> nat \<Rightarrow> bool" where
  "executing w core = (core < MAX_CORES \<and> phases w ! core = Executing)"

definition recycles :: "sched \<Rightarrow> nat option" where
  "recycles w =
     (if find_slot (\<lambda>t. t_state t = TASK_FREE) (g_tasks w) \<noteq> None then None
      else oldest_done (g_tasks w) 0 None (g_tasks w))"

inductive sched_step :: "sched \<Rightarrow> sched \<Rightarrow> bool" where
  Yield: "executing w c \<Longrightarrow> sched_step w (task_yield now left c w)"
| Sleep: "executing w c \<Longrightarrow> sched_step w (task_sleep_ms now left c ms w)"
| ExitMark: "executing w c \<Longrightarrow> sched_step w (task_exit_mark c code w)"
| Exit: "executing w c \<Longrightarrow> sched_step w (reschedule now left c TASK_DONE w)"
| SleepPoll: "c < MAX_CORES \<Longrightarrow> sched_step w (sleep_poll now c w)"
| DonePoll: "c < MAX_CORES \<Longrightarrow> sched_step w (done_poll now c w)"
| Switch: "c < MAX_CORES \<Longrightarrow> sched_step w (ctx_switch sbg c here w)"
| Run: "executing w c \<Longrightarrow> ctx w ! c = Some i \<Longrightarrow>
    sched_step w ((upd i (\<lambda>t. t\<lparr>stack_words := ws\<rparr>) w)\<lparr>real_sp := (real_sp w)[i := p]\<rparr>)"
| Claim: "\<forall>x \<in> set (spawning w). snd x = Claimed \<Longrightarrow>
    (\<And>i. recycles w = Some i \<Longrightarrow> \<not> live (g_tasks w ! i)) \<Longrightarrow> spawn_claim w = (Some j, w') \<Longrightarrow>
    sched_step w (w'\<lparr>spawning := (j, Claimed) # spawning w'\<rparr>)"
| NoMemory: "(i, Claimed) \<in> set (spawning w) \<Longrightarrow>
    sched_step w ((upd i (\<lambda>t. t\<lparr>t_state := TASK_FREE\<rparr>) w)\<lparr>spawning := removeAll (i, Claimed) (spawning w)\<rparr>)"
| Fill: "(i, Claimed) \<in> set (spawning w) \<Longrightarrow>
    sched_step w ((spawn_fill ctx_init name path f a n aff raw i w)
      \<lparr>spawning := (i, Filled) # removeAll (i, Claimed) (spawning w)\<rparr>)"
| Ready: "(i, Filled) \<in> set (spawning w) \<Longrightarrow>
    sched_step w ((snd (spawn_ready i w))\<lparr>spawning := removeAll (i, Filled) (spawning w)\<rparr>)"
| Affinity: "sched_step w (snd (task_set_affinity p aff w))"
| Kill: "sched_step w (snd (task_kill now p w))"
| Reap: "(\<And>i. slot_of w p = Some i \<Longrightarrow> t_state (g_tasks w ! i) = TASK_DONE \<Longrightarrow> \<not> live (g_tasks w ! i)) \<Longrightarrow>
    sched_step w (snd (task_reap p w))"
| CritEnter: "executing w c \<Longrightarrow> sched_step w (task_crit_enter c w)"
| CritLeave: "executing w c \<Longrightarrow> sched_step w (task_crit_leave c w)"
| Alive: "executing w c \<Longrightarrow> sched_step w (snd (task_alive now_us now left c last_us w))"
| ClearStop: "executing w c \<Longrightarrow> sched_step w (task_clear_stop c w)"
| MarkShell: "executing w c \<Longrightarrow> sched_step w (task_mark_shell c w)"
| AppSet: "executing w c \<Longrightarrow> sched_step w (task_app_mem_set c mem w)"
| AppClear: "executing w c \<Longrightarrow> sched_step w (task_app_mem_clear c w)"
| ArenaSet: "executing w c \<Longrightarrow> sched_step w (task_arena_set c ar w)"

inductive sched_reachable :: "sched \<Rightarrow> bool" where
  Init: "sched_reachable (task_init main_size now sbg name sched_boot)"
| Step: "sched_reachable w \<Longrightarrow> sched_step w w' \<Longrightarrow> sched_reachable w'"

section \<open>Lookup and choice\<close>

lemma find_slot_Some: "find_slot P ts = Some i \<Longrightarrow> i < length ts \<and> P (ts ! i) \<and> (\<forall>j<i. \<not> P (ts ! j))"
  by (induction ts arbitrary: i) (auto split: if_splits simp: less_Suc_eq_0_disj nth_Cons')

lemma find_slot_None: "find_slot P ts = None \<longleftrightarrow> (\<forall>t \<in> set ts. \<not> P t)"
  by (induction ts) auto

lemma find_slot_unique:
  assumes "i < length ts" "P (ts ! i)" "\<And>j. j < length ts \<Longrightarrow> P (ts ! j) \<Longrightarrow> j = i"
  shows "find_slot P ts = Some i"
proof (cases "find_slot P ts")
  case None
  then show ?thesis using assms(1,2) find_slot_None[of P ts] nth_mem by blast
next
  case (Some j)
  then show ?thesis using find_slot_Some[OF Some] assms(3) by blast
qed

lemma slot_of_Some:
  "slot_of w p = Some i \<Longrightarrow> i < length (g_tasks w) \<and> t_state (g_tasks w ! i) \<noteq> TASK_FREE \<and> pid (g_tasks w ! i) = p"
  unfolding slot_of_def using find_slot_Some by blast

lemma pick_loop_Some:
  "pick_loop now ts core is = Some i \<Longrightarrow>
     i \<in> set is \<and> t_state (ts ! i) \<noteq> TASK_FREE \<and> runnable_on now (ts ! i) core"
  by (induction "is") (auto split: if_splits)

lemma pick_loop_find:
  "pick_loop now ts core is = find (\<lambda>i. t_state (ts ! i) \<noteq> TASK_FREE \<and> runnable_on now (ts ! i) core) is"
  by (induction "is") auto

lemma runnable_state:
  "runnable_on now t core \<Longrightarrow> \<not> live t \<and> (t_state t = TASK_READY \<or> t_state t = TASK_SLEEPING)"
  unfolding runnable_on_def by (auto split: if_splits)

lemma pick_Some:
  "pick now w core p = Some i \<Longrightarrow>
     i < TASK_MAX \<and> \<not> live (g_tasks w ! i) \<and>
     (t_state (g_tasks w ! i) = TASK_READY \<or> t_state (g_tasks w ! i) = TASK_SLEEPING) \<and>
     runnable_on now (g_tasks w ! i) core"
  using pick_loop_Some[of now "g_tasks w" core _ i] runnable_state[of now "g_tasks w ! i" core]
  unfolding pick_def by (fastforce simp: TASK_MAX_def)

section \<open>The invariant\<close>

definition owns :: "sched \<Rightarrow> nat \<Rightarrow> nat \<Rightarrow> bool" where
  "owns w c i = (ctx w ! c = Some i \<or> (\<exists>f. phases w ! c = Switching f (Some i)))"

definition running_app :: "task list \<Rightarrow> nat option \<Rightarrow> task_app_mem option" where
  "running_app ts x = (case x of None \<Rightarrow> None
     | Some i \<Rightarrow> if app_mem_set (ts ! i) then Some (app_mem (ts ! i)) else None)"

definition inv_shape :: "sched \<Rightarrow> bool" where
  "inv_shape w = (length (g_tasks w) = TASK_MAX \<and> length (real_sp w) = TASK_MAX \<and>
     length (phases w) = MAX_CORES \<and> length (ctx w) = MAX_CORES \<and> length (g_current w) = MAX_CORES \<and>
     length (hw_app w) = MAX_CORES \<and> length (g_sched_sp w) = MAX_CORES)"

definition inv_owner :: "sched \<Rightarrow> bool" where
  "inv_owner w = ((\<forall>c i. c < MAX_CORES \<longrightarrow> owns w c i \<longrightarrow>
        i < TASK_MAX \<and> live (g_tasks w ! i) \<and> t_state (g_tasks w ! i) \<noteq> TASK_FREE \<and> 0 < pid (g_tasks w ! i)) \<and>
     (\<forall>c c' i. c < MAX_CORES \<longrightarrow> c' < MAX_CORES \<longrightarrow> owns w c i \<longrightarrow> owns w c' i \<longrightarrow> c = c') \<and>
     (\<forall>i<TASK_MAX. live (g_tasks w ! i) \<longrightarrow> (\<exists>c<MAX_CORES. owns w c i)))"

definition phase_ok :: "sched \<Rightarrow> nat \<Rightarrow> bool" where
  "phase_ok w c =
     (let here = (case ctx w ! c of None \<Rightarrow> - 1 | Some i \<Rightarrow> pid (g_tasks w ! i)) in
      case phases w ! c of
        Executing \<Rightarrow> g_current w ! c = here
      | Halted \<Rightarrow> True
      | WaitSleep i wake \<Rightarrow> ctx w ! c = Some i \<and> g_current w ! c = here
      | WaitDone i \<Rightarrow> ctx w ! c = Some i \<and> g_current w ! c = here
      | Switching f d \<Rightarrow> ctx w ! c = f \<and> d \<noteq> f \<and>
          g_current w ! c = (case d of None \<Rightarrow> - 1 | Some i \<Rightarrow> pid (g_tasks w ! i)))"

definition inv_saved :: "sched \<Rightarrow> bool" where
  "inv_saved w = (\<forall>i<TASK_MAX. (\<forall>c<MAX_CORES. ctx w ! c \<noteq> Some i) \<longrightarrow> sp (g_tasks w ! i) = real_sp w ! i)"

definition inv_pids :: "sched \<Rightarrow> bool" where
  "inv_pids w = (0 < g_next_pid w \<and>
     (\<forall>i<TASK_MAX. 0 \<le> pid (g_tasks w ! i) \<and> pid (g_tasks w ! i) < g_next_pid w \<and>
        (pid (g_tasks w ! i) = 0 \<longrightarrow> t_state (g_tasks w ! i) = TASK_FREE \<or> t_state (g_tasks w ! i) = TASK_BLOCKED)) \<and>
     (\<forall>i<TASK_MAX. \<forall>j<TASK_MAX. pid (g_tasks w ! i) = pid (g_tasks w ! j) \<longrightarrow> 0 < pid (g_tasks w ! i) \<longrightarrow> i = j))"

definition inv_spawning :: "sched \<Rightarrow> bool" where
  "inv_spawning w = (distinct (map fst (spawning w)) \<and>
     (\<forall>(i, st) \<in> set (spawning w). i < TASK_MAX \<and> \<not> live (g_tasks w ! i) \<and>
        t_state (g_tasks w ! i) = (case st of Claimed \<Rightarrow> TASK_BLOCKED | Filled \<Rightarrow> TASK_FREE) \<and>
        (st = Filled \<longrightarrow> 0 < pid (g_tasks w ! i))))"

definition inv_hw :: "sched \<Rightarrow> bool" where
  "inv_hw w = (\<forall>c<MAX_CORES. hw_app w ! c = running_app (g_tasks w) (ctx w ! c))"

definition sched_inv :: "sched \<Rightarrow> bool" where
  "sched_inv w = (inv_shape w \<and> inv_owner w \<and> (\<forall>c<MAX_CORES. phase_ok w c) \<and> inv_saved w \<and>
     inv_pids w \<and> inv_spawning w \<and> inv_hw w)"

lemmas inv_defs = sched_inv_def inv_shape_def inv_owner_def phase_ok_def inv_saved_def inv_pids_def
  inv_spawning_def inv_hw_def owns_def

lemma sched_inv_cong:
  assumes "sched_inv w" "g_tasks w' = g_tasks w" "g_next_pid w' = g_next_pid w" "g_current w' = g_current w"
    "length (g_sched_sp w') = length (g_sched_sp w)" "phases w' = phases w" "ctx w' = ctx w"
    "real_sp w' = real_sp w" "spawning w' = spawning w" "hw_app w' = hw_app w"
  shows "sched_inv w'"
  using assms(1) unfolding inv_defs assms(2-) .

lemma inv_ownerI:
  assumes "\<And>c i. c < MAX_CORES \<Longrightarrow> owns w c i \<Longrightarrow>
      i < TASK_MAX \<and> live (g_tasks w ! i) \<and> t_state (g_tasks w ! i) \<noteq> TASK_FREE \<and> 0 < pid (g_tasks w ! i)"
    "\<And>c c' i. c < MAX_CORES \<Longrightarrow> c' < MAX_CORES \<Longrightarrow> owns w c i \<Longrightarrow> owns w c' i \<Longrightarrow> c = c'"
    "\<And>i. i < TASK_MAX \<Longrightarrow> live (g_tasks w ! i) \<Longrightarrow> \<exists>c<MAX_CORES. owns w c i"
  shows "inv_owner w"
  unfolding inv_owner_def using assms by blast

lemma owner_facts:
  assumes "sched_inv w" "c < MAX_CORES" "owns w c i"
  shows "i < TASK_MAX" "live (g_tasks w ! i)" "t_state (g_tasks w ! i) \<noteq> TASK_FREE" "0 < pid (g_tasks w ! i)"
    "c' < MAX_CORES \<Longrightarrow> owns w c' i \<Longrightarrow> c' = c"
  using assms unfolding sched_inv_def inv_owner_def by blast+

lemma live_owned:
  "sched_inv w \<Longrightarrow> i < TASK_MAX \<Longrightarrow> live (g_tasks w ! i) \<Longrightarrow> \<exists>c<MAX_CORES. owns w c i"
  unfolding sched_inv_def inv_owner_def by blast

lemma owns_tasks [simp]: "owns (w\<lparr>g_tasks := ts\<rparr>) c i = owns w c i"
  by (simp add: owns_def)

lemma phase_ok_cong:
  assumes "phase_ok w c" "\<And>k. owns w c k \<Longrightarrow> pid (g_tasks w' ! k) = pid (g_tasks w ! k)" "ctx w' ! c = ctx w ! c"
    "phases w' ! c = phases w ! c" "g_current w' ! c = g_current w ! c"
  shows "phase_ok w' c"
  using assms by (auto simp: phase_ok_def owns_def Let_def split: phase.splits option.splits)

lemma inv_spawning_cong:
  assumes "inv_spawning w" "spawning w' = spawning w"
    "\<And>k st. (k, st) \<in> set (spawning w) \<Longrightarrow> \<not> live (g_tasks w ! k) \<Longrightarrow>
       t_state (g_tasks w ! k) = TASK_FREE \<or> t_state (g_tasks w ! k) = TASK_BLOCKED \<Longrightarrow>
       live (g_tasks w' ! k) = live (g_tasks w ! k) \<and> t_state (g_tasks w' ! k) = t_state (g_tasks w ! k) \<and>
       pid (g_tasks w' ! k) = pid (g_tasks w ! k)"
  shows "inv_spawning w'"
  unfolding inv_spawning_def
proof (intro conjI ballI)
  show "distinct (map fst (spawning w'))" using assms(1,2) by (simp add: inv_spawning_def)
  fix x assume "x \<in> set (spawning w')"
  then show "case x of (k, st) \<Rightarrow> k < TASK_MAX \<and> \<not> live (g_tasks w' ! k) \<and>
      t_state (g_tasks w' ! k) = (case st of Claimed \<Rightarrow> TASK_BLOCKED | Filled \<Rightarrow> TASK_FREE) \<and>
      (st = Filled \<longrightarrow> 0 < pid (g_tasks w' ! k))"
    using assms(1,2) assms(3)[of "fst x" "snd x"] unfolding inv_spawning_def
    by (cases x; cases "snd x") auto
qed

definition quiet :: "task \<Rightarrow> task \<Rightarrow> bool" where
  "quiet t t' = (pid t' = pid t \<and> live t' = live t \<and> sp t' = sp t \<and> app_mem t' = app_mem t \<and>
     app_mem_set t' = app_mem_set t \<and> (t_state t \<noteq> TASK_FREE \<longrightarrow> t_state t' \<noteq> TASK_FREE) \<and>
     (\<not> live t \<longrightarrow> t_state t = TASK_FREE \<or> t_state t = TASK_BLOCKED \<longrightarrow> t_state t' = t_state t))"

lemma running_app_cong:
  "(\<And>i. x = Some i \<Longrightarrow> app_mem_set (ts ! i) = app_mem_set (ts' ! i) \<and> app_mem (ts ! i) = app_mem (ts' ! i)) \<Longrightarrow>
     running_app ts x = running_app ts' x"
  by (auto simp: running_app_def split: option.splits)

lemma quiet_inv:
  assumes "sched_inv w" "quiet (g_tasks w ! i) t'"
  shows "sched_inv (w\<lparr>g_tasks := (g_tasks w)[i := t']\<rparr>)" (is "sched_inv ?w")
proof (cases "i < TASK_MAX")
  case False
  moreover have "length (g_tasks w) = TASK_MAX" using assms(1) by (simp add: inv_defs)
  ultimately show ?thesis using assms(1) by (simp add: list_update_beyond)
next
  case True
  note q = assms(2)[unfolded quiet_def]
  have len: "length (g_tasks w) = TASK_MAX" using assms(1) by (simp add: inv_defs)
  have nth: "g_tasks ?w ! j = (if j = i then t' else g_tasks w ! j)" for j
    using True len by (auto simp: nth_list_update)
  have same: "pid (g_tasks ?w ! j) = pid (g_tasks w ! j)" "live (g_tasks ?w ! j) = live (g_tasks w ! j)"
    "sp (g_tasks ?w ! j) = sp (g_tasks w ! j)" "app_mem (g_tasks ?w ! j) = app_mem (g_tasks w ! j)"
    "app_mem_set (g_tasks ?w ! j) = app_mem_set (g_tasks w ! j)"
    "t_state (g_tasks w ! j) \<noteq> TASK_FREE \<Longrightarrow> t_state (g_tasks ?w ! j) \<noteq> TASK_FREE"
    "\<not> live (g_tasks w ! j) \<Longrightarrow> t_state (g_tasks w ! j) = TASK_FREE \<or> t_state (g_tasks w ! j) = TASK_BLOCKED \<Longrightarrow>
       t_state (g_tasks ?w ! j) = t_state (g_tasks w ! j)" for j
    unfolding nth using q by auto
  have sh: "inv_shape ?w" using assms(1) by (simp add: inv_defs)
  have ow: "inv_owner ?w"
    using assms(1) unfolding sched_inv_def inv_owner_def same(1,2) owns_tasks using same(6) by blast
  have ph: "phase_ok ?w c" if "c < MAX_CORES" for c
    by (rule phase_ok_cong[of w]) (use assms(1) that same(1) in \<open>simp_all add: sched_inv_def\<close>)
  have sa: "inv_saved ?w"
    using assms(1) unfolding sched_inv_def inv_saved_def same(3) by simp
  have pd: "inv_pids ?w"
  proof -
    have "t_state (g_tasks ?w ! j) = TASK_FREE \<or> t_state (g_tasks ?w ! j) = TASK_BLOCKED"
      if "j < TASK_MAX" "pid (g_tasks w ! j) = 0" for j
    proof -
      have st: "t_state (g_tasks w ! j) = TASK_FREE \<or> t_state (g_tasks w ! j) = TASK_BLOCKED"
        using assms(1) that unfolding sched_inv_def inv_pids_def by blast
      moreover have "\<not> live (g_tasks w ! j)"
        using assms(1) that unfolding sched_inv_def inv_owner_def by force
      ultimately show ?thesis using same(7) by metis
    qed
    then show ?thesis using assms(1) unfolding sched_inv_def inv_pids_def same(1) by simp
  qed
  have sp: "inv_spawning ?w"
    by (rule inv_spawning_cong[of w]) (use assms(1) same(1,2,7) in \<open>simp_all add: sched_inv_def\<close>)
  have hw: "inv_hw ?w"
  proof -
    have "running_app (g_tasks ?w) x = running_app (g_tasks w) x" for x
      by (rule running_app_cong) (use same(4,5) in blast)
    then show ?thesis using assms(1) unfolding sched_inv_def inv_hw_def by simp
  qed
  show ?thesis unfolding sched_inv_def using sh ow ph sa pd sp hw by blast
qed

lemma cur_ctx:
  assumes "sched_inv w" "c < MAX_CORES" "phases w ! c = Executing \<or> phases w ! c = WaitSleep i wk \<or> phases w ! c = WaitDone i"
  shows "cur w c = ctx w ! c"
proof -
  have cu: "g_current w ! c = (case ctx w ! c of None \<Rightarrow> - 1 | Some i \<Rightarrow> pid (g_tasks w ! i))"
    using assms unfolding sched_inv_def phase_ok_def by (auto simp: Let_def)
  show ?thesis
  proof (cases "ctx w ! c")
    case None
    then show ?thesis using cu assms(2) by (simp add: cur_def Let_def)
  next
    case (Some i)
    then have o: "i < TASK_MAX" "t_state (g_tasks w ! i) \<noteq> TASK_FREE" "0 < pid (g_tasks w ! i)"
      using assms(1,2) unfolding sched_inv_def inv_owner_def owns_def by blast+
    have "slot_of w (pid (g_tasks w ! i)) = Some i"
      unfolding slot_of_def
    proof (rule find_slot_unique)
      show "i < length (g_tasks w)" using o assms(1) by (simp add: inv_defs)
      show "t_state (g_tasks w ! i) \<noteq> TASK_FREE \<and> pid (g_tasks w ! i) = pid (g_tasks w ! i)" using o by simp
      show "j = i" if "j < length (g_tasks w)"
        "t_state (g_tasks w ! j) \<noteq> TASK_FREE \<and> pid (g_tasks w ! j) = pid (g_tasks w ! i)" for j
        using that assms(1) o unfolding sched_inv_def inv_pids_def inv_shape_def by metis
    qed
    then show ?thesis using cu Some o assms(2) by (simp add: cur_def Let_def)
  qed
qed

lemma idle_phase_owns:
  "phases w ! c = Executing \<or> phases w ! c = WaitSleep i wk \<or> phases w ! c = WaitDone i \<Longrightarrow>
     owns w c j \<longleftrightarrow> ctx w ! c = Some j"
  by (auto simp: owns_def)

definition claimed :: "nat \<Rightarrow> nat \<Rightarrow> task \<Rightarrow> sched \<Rightarrow> sched" where
  "claimed c j t w = w\<lparr>g_tasks := (g_tasks w)[j := t], g_current := (g_current w)[c := pid t],
     phases := (phases w)[c := Switching (ctx w ! c) (Some j)]\<rparr>"

lemma claimed_inv:
  assumes inv: "sched_inv w" and c: "c < MAX_CORES"
    and ph: "phases w ! c = Executing \<or> phases w ! c = WaitSleep i wk \<or> phases w ! c = WaitDone i"
    and j: "j < TASK_MAX" "\<not> live (g_tasks w ! j)"
      "t_state (g_tasks w ! j) = TASK_READY \<or> t_state (g_tasks w ! j) = TASK_SLEEPING"
    and t: "pid t = pid (g_tasks w ! j)" "live t" "t_state t = TASK_RUNNING" "sp t = sp (g_tasks w ! j)"
      "app_mem t = app_mem (g_tasks w ! j)" "app_mem_set t = app_mem_set (g_tasks w ! j)"
  shows "sched_inv (claimed c j t w)" (is "sched_inv ?w")
proof -
  have sh: "length (g_tasks w) = TASK_MAX" "length (phases w) = MAX_CORES" "length (g_current w) = MAX_CORES"
    using inv by (simp_all add: inv_defs)
  have free: "\<not> owns w c' j" if "c' < MAX_CORES" for c'
    using inv that j(2) unfolding sched_inv_def inv_owner_def by blast
  have pj: "0 < pid (g_tasks w ! j)"
    using inv j(1,3) unfolding sched_inv_def inv_pids_def by (metis order_le_less task_state.distinct)
  have own: "owns ?w c' k \<longleftrightarrow> owns w c' k \<or> (c' = c \<and> k = j)" if "c' < MAX_CORES" for c' k
    using ph that sh(2) by (cases "c' = c") (auto simp: owns_def claimed_def)
  have nth: "g_tasks ?w ! k = (if k = j then t else g_tasks w ! k)" for k
    using j sh by (auto simp: claimed_def nth_list_update)
  have pid: "pid (g_tasks ?w ! k) = pid (g_tasks w ! k)" for k by (simp add: nth t)
  have "inv_shape ?w" using inv by (simp add: inv_defs claimed_def)
  moreover have "inv_owner ?w"
  proof -
    have 1: "k < TASK_MAX \<and> live (g_tasks ?w ! k) \<and> t_state (g_tasks ?w ! k) \<noteq> TASK_FREE \<and> 0 < pid (g_tasks ?w ! k)"
      if "c' < MAX_CORES" "owns ?w c' k" for c' k
      using that inv j(1) pj t unfolding own[OF that(1)] nth sched_inv_def inv_owner_def by auto
    have 2: "c' = c''" if "c' < MAX_CORES" "c'' < MAX_CORES" "owns ?w c' k" "owns ?w c'' k" for c' c'' k
      using that free inv unfolding own[OF that(1)] own[OF that(2)] sched_inv_def inv_owner_def by blast
    have 3: "\<exists>c'<MAX_CORES. owns ?w c' k" if "k < TASK_MAX" "live (g_tasks ?w ! k)" for k
    proof (cases "k = j")
      case True then show ?thesis using own c by blast
    next
      case False then show ?thesis using that inv own unfolding nth sched_inv_def inv_owner_def by metis
    qed
    show ?thesis unfolding inv_owner_def using 1 2 3 by blast
  qed
  moreover have "phase_ok ?w c'" if "c' < MAX_CORES" for c'
  proof (cases "c' = c")
    case True
    have "ctx w ! c \<noteq> Some j" using free[OF c] by (simp add: owns_def)
    then show ?thesis using True c sh t(1) unfolding phase_ok_def pid by (simp add: claimed_def Let_def nth_list_update j)
  next
    case False
    show ?thesis
      by (rule phase_ok_cong[of w]) (use inv that False pid in \<open>simp_all add: sched_inv_def claimed_def\<close>)
  qed
  moreover have "inv_saved ?w"
    using inv t(4) unfolding sched_inv_def inv_saved_def nth by (auto simp: claimed_def)
  moreover have "inv_pids ?w"
  proof -
    have "t_state (g_tasks ?w ! k) = TASK_FREE \<or> t_state (g_tasks ?w ! k) = TASK_BLOCKED"
      if "k < TASK_MAX" "pid (g_tasks w ! k) = 0" for k
      using that inv pj unfolding nth sched_inv_def inv_pids_def by auto
    moreover have "g_next_pid ?w = g_next_pid w" by (simp add: claimed_def)
    ultimately show ?thesis using inv unfolding sched_inv_def inv_pids_def pid by presburger
  qed
  moreover have "inv_spawning ?w"
    by (rule inv_spawning_cong[of w])
      (use inv j(3) in \<open>auto simp: sched_inv_def nth simp del: list_update_id, simp_all add: claimed_def\<close>)
  moreover have "inv_hw ?w"
  proof -
    have "running_app (g_tasks ?w) x = running_app (g_tasks w) x" for x
      by (rule running_app_cong) (auto simp: nth t)
    then show ?thesis using inv unfolding sched_inv_def inv_hw_def by (simp add: claimed_def)
  qed
  ultimately show ?thesis unfolding sched_inv_def by blast
qed

lemma rephase_inv:
  assumes inv: "sched_inv w" and c: "c < MAX_CORES"
    and ph: "phases w ! c = Executing \<or> phases w ! c = WaitSleep i wk \<or> phases w ! c = WaitDone i"
    and w': "w' = w\<lparr>phases := (phases w)[c := p], g_current := (g_current w)[c := g]\<rparr>"
    and p: "(p = Executing \<or> p = Halted) \<and> g = g_current w ! c \<or>
      (\<exists>j wk. (p = WaitSleep j wk \<or> p = WaitDone j) \<and> ctx w ! c = Some j) \<and> g = g_current w ! c \<or>
      (\<exists>j. p = Switching (Some j) None \<and> ctx w ! c = Some j) \<and> g = - 1"
  shows "sched_inv w'"
proof -
  have sh: "length (phases w) = MAX_CORES" "length (g_current w) = MAX_CORES"
    using inv by (simp_all add: inv_defs)
  have own: "owns w' c' k \<longleftrightarrow> owns w c' k" if "c' < MAX_CORES" for c' k
    using ph that sh p c unfolding w' by (cases "c' = c") (auto simp: owns_def)
  have ts: "g_tasks w' = g_tasks w" "real_sp w' = real_sp w" "spawning w' = spawning w"
    "hw_app w' = hw_app w" "ctx w' = ctx w" "g_next_pid w' = g_next_pid w"
    unfolding w' by simp_all
  have "inv_shape w'" using inv unfolding w' by (simp add: inv_defs)
  moreover have "inv_owner w'" using inv own unfolding sched_inv_def inv_owner_def ts by blast
  moreover have "phase_ok w' c'" if "c' < MAX_CORES" for c'
  proof (cases "c' = c")
    case True
    have "g_current w ! c = (case ctx w ! c of None \<Rightarrow> - 1 | Some i \<Rightarrow> pid (g_tasks w ! i))"
      using inv c ph unfolding sched_inv_def phase_ok_def by (auto simp: Let_def)
    then show ?thesis using True c sh p unfolding w' phase_ok_def by (auto simp: Let_def split: option.splits)
  next
    case False
    show ?thesis by (rule phase_ok_cong[of w]) (use inv that False in \<open>simp_all add: sched_inv_def w'\<close>)
  qed
  moreover have "inv_saved w'" "inv_pids w'" "inv_hw w'"
    using inv unfolding sched_inv_def inv_saved_def inv_pids_def inv_hw_def ts by blast+
  moreover have "inv_spawning w'"
    by (rule inv_spawning_cong[of w]) (use inv ts in \<open>simp_all add: sched_inv_def\<close>)
  ultimately show ?thesis unfolding sched_inv_def by blast
qed

lemma switch_inv:
  assumes inv: "sched_inv w" and c: "c < MAX_CORES"
  shows "sched_inv (ctx_switch sbg c here w)" (is "sched_inv ?w")
proof (cases "phases w ! c")
  case (Switching f d)
  have sh: "length (g_tasks w) = TASK_MAX" "length (phases w) = MAX_CORES" "length (ctx w) = MAX_CORES"
    "length (real_sp w) = TASK_MAX" "length (hw_app w) = MAX_CORES"
    using inv by (simp_all add: inv_defs)
  have ok: "ctx w ! c = f" "d \<noteq> f" "g_current w ! c = (case d of None \<Rightarrow> - 1 | Some i \<Rightarrow> pid (g_tasks w ! i))"
    using inv c Switching unfolding sched_inv_def phase_ok_def by (auto simp: Let_def)
  have of: "owns w c i" if "f = Some i \<or> d = Some i" for i
    using that ok(1) Switching by (auto simp: owns_def)
  have lt: "i < TASK_MAX" if "f = Some i \<or> d = Some i" for i
    using of[OF that] inv c unfolding sched_inv_def inv_owner_def by blast
  have nth: "g_tasks ?w ! k = (if f = Some k then (g_tasks w ! k)\<lparr>sp := real_sp w ! k, live := False\<rparr> else g_tasks w ! k)" for k
    using lt sh by (auto simp: ctx_switch_def Switching ctx_leave_def ctx_enter_def arm_protection_def Let_def
        nth_list_update split: option.splits)
  have w: "phases ?w = (phases w)[c := Executing]" "ctx ?w = (ctx w)[c := d]" "g_current ?w = g_current w"
    "spawning ?w = spawning w" "g_next_pid ?w = g_next_pid w"
    by (auto simp: ctx_switch_def Switching ctx_leave_def ctx_enter_def arm_protection_def Let_def split: option.splits)
  have rsp: "real_sp ?w ! k = (if d = Some k then sp (g_tasks w ! k) else real_sp w ! k)" for k
    using lt sh ok(2) by (cases d; cases f) (auto simp: ctx_switch_def Switching ctx_leave_def ctx_enter_def arm_protection_def Let_def nth_list_update)
  have hw: "hw_app ?w = (hw_app w)[c := running_app (g_tasks ?w) d]"
    by (cases d; cases f) (auto simp: ctx_switch_def Switching ctx_leave_def ctx_enter_def arm_protection_def Let_def
        running_app_def)
  have pid: "pid (g_tasks ?w ! k) = pid (g_tasks w ! k)" "t_state (g_tasks ?w ! k) = t_state (g_tasks w ! k)"
    "app_mem (g_tasks ?w ! k) = app_mem (g_tasks w ! k)" "app_mem_set (g_tasks ?w ! k) = app_mem_set (g_tasks w ! k)" for k
    by (simp_all add: nth)
  have own: "owns ?w c' k \<longleftrightarrow> owns w c' k \<and> f \<noteq> Some k" if "c' < MAX_CORES" for c' k
  proof (cases "c' = c")
    case True
    then show ?thesis using ok sh c Switching by (auto simp: owns_def w)
  next
    case False
    then have "owns w c' k \<Longrightarrow> f \<noteq> Some k"
      using inv of[of k] c that unfolding sched_inv_def inv_owner_def by blast
    then show ?thesis using False by (auto simp: owns_def w)
  qed
  have lv: "live (g_tasks ?w ! k) \<longleftrightarrow> live (g_tasks w ! k) \<and> f \<noteq> Some k" for k by (simp add: nth)
  have "inv_shape ?w" using inv
    by (auto simp: inv_defs ctx_switch_def Switching ctx_leave_def ctx_enter_def arm_protection_def Let_def split: option.splits)
  moreover have "inv_owner ?w"
  proof (rule inv_ownerI)
    show "k < TASK_MAX \<and> live (g_tasks ?w ! k) \<and> t_state (g_tasks ?w ! k) \<noteq> TASK_FREE \<and> 0 < pid (g_tasks ?w ! k)"
      if "c' < MAX_CORES" "owns ?w c' k" for c' k
      using owner_facts[OF inv that(1), of k] own that unfolding lv pid by blast
    show "c' = c''" if "c' < MAX_CORES" "c'' < MAX_CORES" "owns ?w c' k" "owns ?w c'' k" for c' c'' k
      using owner_facts(5)[OF inv that(2), of k c'] own that by blast
    show "\<exists>c'<MAX_CORES. owns ?w c' k" if "k < TASK_MAX" "live (g_tasks ?w ! k)" for k
      using live_owned[OF inv that(1)] own that(2) unfolding lv by blast
  qed
  moreover have "phase_ok ?w c'" if "c' < MAX_CORES" for c'
  proof (cases "c' = c")
    case True
    show ?thesis using True c sh ok(3) unfolding phase_ok_def pid w by (simp add: Let_def)
  next
    case False
    show ?thesis by (rule phase_ok_cong[of w]) (use inv that False in \<open>simp_all add: sched_inv_def w pid\<close>)
  qed
  moreover have "inv_saved ?w"
  proof -
    have "sp (g_tasks ?w ! k) = real_sp ?w ! k" if k: "k < TASK_MAX" "\<forall>c'<MAX_CORES. ctx ?w ! c' \<noteq> Some k" for k
    proof (cases "f = Some k")
      case True then show ?thesis using ok(2) by (simp add: nth rsp)
    next
      case False
      have "ctx w ! c' \<noteq> Some k" if "c' < MAX_CORES" for c'
        using k(2)[rule_format, OF that] False ok(1) unfolding w by (cases "c' = c") simp_all
      then have "sp (g_tasks w ! k) = real_sp w ! k"
        using inv k(1) unfolding sched_inv_def inv_saved_def by blast
      then show ?thesis using False by (simp add: nth rsp)
    qed
    then show ?thesis unfolding inv_saved_def by blast
  qed
  moreover have "inv_pids ?w" using inv unfolding sched_inv_def inv_pids_def pid w by blast
  moreover have "inv_spawning ?w"
    by (rule inv_spawning_cong[of w]) (use inv in \<open>simp_all add: sched_inv_def w pid lv\<close>)
  moreover have "inv_hw ?w"
  proof -
    have r: "running_app (g_tasks ?w) x = running_app (g_tasks w) x" for x
      by (rule running_app_cong) (use pid in blast)
    have "hw_app ?w ! c' = running_app (g_tasks ?w) (ctx ?w ! c')" if "c' < MAX_CORES" for c'
      using inv that sh unfolding hw w r sched_inv_def inv_hw_def by (cases "c' = c") simp_all
    then show ?thesis unfolding inv_hw_def by blast
  qed
  ultimately show ?thesis unfolding sched_inv_def by blast
qed (use inv in \<open>simp_all add: ctx_switch_def\<close>)

text \<open>Giving a slot nobody runs a new content.\<close>

lemma idle_slot_inv:
  assumes inv: "sched_inv w" and i: "i < TASK_MAX" "\<not> live (g_tasks w ! i)" "\<not> live t"
    and w': "g_tasks w' = (g_tasks w)[i := t]" "g_current w' = g_current w" "phases w' = phases w"
      "ctx w' = ctx w" "hw_app w' = hw_app w" "g_sched_sp w' = g_sched_sp w"
      "real_sp w' = (real_sp w)[i := sp t]"
    and p: "pid t = pid (g_tasks w ! i) \<and> g_next_pid w' = g_next_pid w \<or>
      pid t = g_next_pid w \<and> g_next_pid w' = g_next_pid w + 1"
      "pid t = 0 \<Longrightarrow> t_state t = TASK_FREE \<or> t_state t = TASK_BLOCKED"
    and sp: "inv_spawning w'"
  shows "sched_inv w'"
proof -
  have sh: "length (g_tasks w) = TASK_MAX" "length (real_sp w) = TASK_MAX" using inv by (simp_all add: inv_defs)
  have nth: "g_tasks w' ! k = (if k = i then t else g_tasks w ! k)" for k
    using i sh by (auto simp: w' nth_list_update)
  have own: "owns w' c k \<longleftrightarrow> owns w c k" for c k by (simp add: owns_def w')
  have no: "\<not> owns w c i" if "c < MAX_CORES" for c
    using inv that i(2) unfolding sched_inv_def inv_owner_def by blast
  have "inv_shape w'" using inv by (simp add: inv_defs w')
  moreover have "inv_owner w'"
    using inv no i unfolding sched_inv_def inv_owner_def own nth by (auto split: if_splits)
  moreover have "phase_ok w' c" if c: "c < MAX_CORES" for c
    by (rule phase_ok_cong[of w]) (use inv c no[OF c] in \<open>auto simp: sched_inv_def w'(2-4) nth\<close>)
  moreover have "inv_saved w'"
    using inv i sh unfolding sched_inv_def inv_saved_def nth w' by (auto simp: nth_list_update)
  moreover have "inv_pids w'"
  proof -
    have old: "0 < g_next_pid w" "0 \<le> pid (g_tasks w ! k)" "pid (g_tasks w ! k) < g_next_pid w"
      "pid (g_tasks w ! k) = 0 \<Longrightarrow> t_state (g_tasks w ! k) = TASK_FREE \<or> t_state (g_tasks w ! k) = TASK_BLOCKED"
      "l < TASK_MAX \<Longrightarrow> pid (g_tasks w ! k) = pid (g_tasks w ! l) \<Longrightarrow> 0 < pid (g_tasks w ! k) \<Longrightarrow> k = l"
      if "k < TASK_MAX" for k l
      using inv that unfolding sched_inv_def inv_pids_def by blast+
    have "0 \<le> pid (g_tasks w' ! k) \<and> pid (g_tasks w' ! k) < g_next_pid w' \<and>
        (pid (g_tasks w' ! k) = 0 \<longrightarrow> t_state (g_tasks w' ! k) = TASK_FREE \<or> t_state (g_tasks w' ! k) = TASK_BLOCKED)"
      if "k < TASK_MAX" for k
      using old[OF that] old[OF i(1)] p by (auto simp: nth)
    moreover have "k = l" if "k < TASK_MAX" "l < TASK_MAX" "pid (g_tasks w' ! k) = pid (g_tasks w' ! l)"
      "0 < pid (g_tasks w' ! k)" for k l
      using that old(3)[OF that(1)] old(3)[OF that(2)] old(5)[OF that(1,2)] old(3)[OF i(1)]
        old(5)[OF i(1) that(2)] old(5)[OF that(1) i(1)] p(1)
      by (auto simp: nth split: if_splits)
    moreover have "0 < g_next_pid w'" using old(1)[OF i(1)] p by auto
    ultimately show ?thesis unfolding inv_pids_def by blast
  qed
  moreover have "inv_hw w'"
  proof -
    have "running_app (g_tasks w') (ctx w ! c) = running_app (g_tasks w) (ctx w ! c)" if "c < MAX_CORES" for c
      by (rule running_app_cong) (use no[OF that] in \<open>auto simp: nth owns_def\<close>)
    then show ?thesis using inv unfolding sched_inv_def inv_hw_def w' by metis
  qed
  ultimately show ?thesis unfolding sched_inv_def using sp by blast
qed

lemma oldest_done_Some:
  "oldest_done all i best cs = Some k \<Longrightarrow> cs = drop i all \<Longrightarrow>
     best = Some k \<or> k < length all \<and> t_state (all ! k) = TASK_DONE"
proof (induction cs arbitrary: i best)
  case (Cons c cs)
  then have "c = all ! i" "i < length all" "cs = drop (i + 1) all"
    by (metis nth_via_drop, metis drop_all leI list.discI, metis Suc_eq_plus1 drop_Suc list.sel(3) tl_drop)
  then show ?case using Cons.IH[of "i + 1"] Cons.prems(1) by (fastforce split: if_splits option.splits)
qed simp

lemma spawning_notin:
  assumes "inv_spawning w" "t_state (g_tasks w ! i) \<noteq> TASK_BLOCKED"
    "t_state (g_tasks w ! i) = TASK_FREE \<longrightarrow> (\<forall>x \<in> set (spawning w). snd x = Claimed)"
  shows "(i, st) \<notin> set (spawning w)"
  using assms unfolding inv_spawning_def by (cases st) fastforce+

lemma inv_spawning_add:
  assumes "inv_spawning w" "\<And>st. (i, st) \<notin> set (spawning w)" "i < TASK_MAX" "length (g_tasks w) = TASK_MAX"
    "g_tasks w' = (g_tasks w)[i := t]" "spawning w' = (i, st) # spawning w" "\<not> live t"
    "t_state t = (case st of Claimed \<Rightarrow> TASK_BLOCKED | Filled \<Rightarrow> TASK_FREE)" "st = Filled \<Longrightarrow> 0 < pid t"
  shows "inv_spawning w'"
proof -
  have "k \<noteq> i" if "(k, s) \<in> set (spawning w)" for k s using that assms(2) by blast
  then have "g_tasks w' ! k = g_tasks w ! k" if "(k, s) \<in> set (spawning w)" for k s
    using that assms(5) by fastforce
  moreover have "g_tasks w' ! i = t" using assms(3-5) by simp
  moreover have "i \<notin> fst ` set (spawning w)" using assms(2) by auto
  ultimately show ?thesis
    using assms(1,3,6-9) unfolding inv_spawning_def by fastforce
qed

lemma inv_spawning_drop:
  assumes "inv_spawning w" "(i, st) \<in> set (spawning w)" "length (g_tasks w) = TASK_MAX"
    "g_tasks w' = (g_tasks w)[i := t]" "spawning w' = removeAll (i, st) (spawning w)"
  shows "inv_spawning w' \<and> (\<forall>s. (i, s) \<notin> set (spawning w'))"
proof -
  have u: "\<And>s. (i, s) \<in> set (spawning w) \<Longrightarrow> s = st"
    using assms(1,2) unfolding inv_spawning_def by (metis eq_key_imp_eq_value)
  have "distinct (map fst (spawning w'))"
    using assms(1,5) unfolding inv_spawning_def by (metis distinct_map_filter removeAll_filter_not_eq)
  moreover have "\<forall>s. (i, s) \<notin> set (spawning w')" using u assms(5) by auto
  moreover have "k < TASK_MAX \<and> \<not> live (g_tasks w' ! k) \<and>
      t_state (g_tasks w' ! k) = (case s of Claimed \<Rightarrow> TASK_BLOCKED | Filled \<Rightarrow> TASK_FREE) \<and>
      (s = Filled \<longrightarrow> 0 < pid (g_tasks w' ! k))"
    if "(k, s) \<in> set (spawning w')" for k s
  proof -
    have "k \<noteq> i" "(k, s) \<in> set (spawning w)" using that u assms(5) by auto
    then show ?thesis using assms(1,4) unfolding inv_spawning_def by fastforce
  qed
  ultimately show ?thesis unfolding inv_spawning_def by blast
qed

definition idle_phase :: "phase \<Rightarrow> bool" where
  "idle_phase p = (p = Executing \<or> (\<exists>i wk. p = WaitSleep i wk \<or> p = WaitDone i))"

lemma quiet_state:
  "t_state t' \<noteq> TASK_FREE \<Longrightarrow> live t \<Longrightarrow> pid t' = pid t \<Longrightarrow> live t' \<Longrightarrow> sp t' = sp t \<Longrightarrow>
     app_mem t' = app_mem t \<Longrightarrow> app_mem_set t' = app_mem_set t \<Longrightarrow> quiet t t'"
  by (simp add: quiet_def)

lemma set_phase_inv:
  assumes "sched_inv w" "c < MAX_CORES" "idle_phase (phases w ! c)"
    "p = Executing \<or> p = Halted \<or> (\<exists>j wk. (p = WaitSleep j wk \<or> p = WaitDone j) \<and> ctx w ! c = Some j)"
  shows "sched_inv (set_phase c p w)"
proof -
  obtain i wk where ph: "phases w ! c = Executing \<or> phases w ! c = WaitSleep i wk \<or> phases w ! c = WaitDone i"
    using assms(3) unfolding idle_phase_def by blast
  show ?thesis
    by (rule rephase_inv[OF assms(1,2) ph, where p = p and g = "g_current w ! c"]) (use assms(4) in auto)
qed

lemma carry_on_inv:
  assumes "sched_inv w" "c < MAX_CORES" "idle_phase (phases w ! c)" "ctx w ! c = Some i"
  shows "sched_inv (carry_on now c i w)"
proof -
  have "live (g_tasks w ! i)" using owner_facts[OF assms(1,2)] assms(4) by (simp add: owns_def)
  then have "sched_inv (upd i (\<lambda>t. t\<lparr>t_state := TASK_RUNNING, entered_ms := now\<rparr>) w)"
    by (intro quiet_inv[OF assms(1)] quiet_state) simp_all
  then show ?thesis unfolding carry_on_def by (rule set_phase_inv) (use assms in simp_all)
qed

lemma claim_inv:
  assumes inv: "sched_inv w" and c: "c < MAX_CORES" and ph: "idle_phase (phases w ! c)"
    and me: "me = ctx w ! c" and p: "pick now w c p = Some j"
  shows "sched_inv (resched_claim now c me j w)"
proof -
  note j = pick_Some[OF p]
  obtain i wk where ph': "phases w ! c = Executing \<or> phases w ! c = WaitSleep i wk \<or> phases w ! c = WaitDone i"
    using ph unfolding idle_phase_def by blast
  have ne: "me \<noteq> Some j" using owner_facts(2)[OF inv c, of j] j by (auto simp: owns_def me)
  have len: "j < length (g_tasks w)" using inv j by (simp add: inv_defs)
  let ?t = "(g_tasks w ! j)\<lparr>t_state := TASK_RUNNING, live := True, on_core := c, switches := switches (g_tasks w ! j) + 1,
    entered_ms := now\<rparr>"
  have "sched_inv (claimed c j ?t w)"
    by (rule claimed_inv[OF inv c ph']) (use j in simp_all)
  then show ?thesis
    by (rule sched_inv_cong) (use ne in \<open>simp_all add: resched_claim_def claimed_def note_task_def Let_def me len\<close>)
qed

lemma idle_inv:
  assumes inv: "sched_inv w" and c: "c < MAX_CORES" and ph: "idle_phase (phases w ! c)" and me: "me = ctx w ! c"
  shows "sched_inv (resched_idle now c me w)"
proof (cases me)
  case None
  then show ?thesis using set_phase_inv[OF inv c ph] by (simp add: resched_idle_def)
next
  case (Some i)
  have ctx: "ctx w ! c = Some i" using me Some by simp
  obtain k wk where ph': "phases w ! c = Executing \<or> phases w ! c = WaitSleep k wk \<or> phases w ! c = WaitDone k"
    using ph unfolding idle_phase_def by blast
  have "sched_inv (set_phase c (Switching (Some i) None) (w\<lparr>g_current := (g_current w)[c := - 1]\<rparr>))"
    by (rule rephase_inv[OF inv c ph', where p = "Switching (Some i) None" and g = "- 1"]) (use ctx in simp_all)
  then have "sched_inv (set_phase c (Switching (Some i) None)
      (w\<lparr>g_current := (g_current w)[c := - 1], g_sched_sp := (g_sched_sp w)[c := None]\<rparr>))"
    by (rule sched_inv_cong) simp_all
  then show ?thesis
    using Some ctx carry_on_inv[OF inv c ph ctx] set_phase_inv[OF inv c ph]
    by (auto simp: resched_idle_def Let_def split: task_state.splits option.splits)
qed

lemma choose_inv:
  assumes "sched_inv w" "c < MAX_CORES" "idle_phase (phases w ! c)" "me = ctx w ! c"
  shows "sched_inv (resched_choose now c me w)"
  unfolding resched_choose_def
  using idle_inv[OF assms] claim_inv[OF assms] by (auto split: option.splits)

lemma notes_fields [simp]:
  "g_tasks (resched_notes now c w) = g_tasks w" "g_next_pid (resched_notes now c w) = g_next_pid w"
  "g_current (resched_notes now c w) = g_current w" "g_sched_sp (resched_notes now c w) = g_sched_sp w"
  "phases (resched_notes now c w) = phases w" "ctx (resched_notes now c w) = ctx w"
  "real_sp (resched_notes now c w) = real_sp w" "spawning (resched_notes now c w) = spawning w"
  "hw_app (resched_notes now c w) = hw_app w"
  by (simp_all add: resched_notes_def note_task_def Let_def split: option.splits)

lemma account_quiet:
  "resched_account now left c park t = Some t' \<Longrightarrow> park \<noteq> TASK_FREE \<Longrightarrow> live t \<Longrightarrow> t_state t \<noteq> TASK_FREE \<Longrightarrow> quiet t t'"
  by (auto simp: resched_account_def resched_park_def main_headroom_def Let_def quiet_def split: if_splits)

lemma reschedule_inv:
  assumes inv: "sched_inv w" and c: "c < MAX_CORES" and ph: "phases w ! c = Executing" and p: "park \<noteq> TASK_FREE"
  shows "sched_inv (reschedule now left c park w)"
proof -
  let ?w = "resched_notes now c w"
  have inv': "sched_inv ?w" by (rule sched_inv_cong[OF inv]) simp_all
  have ph': "idle_phase (phases ?w ! c)" by (simp add: ph idle_phase_def)
  have cur: "cur ?w c = ctx w ! c" using cur_ctx[OF inv' c] ph by simp
  have acc: "sched_inv (?w\<lparr>g_tasks := (g_tasks ?w)[i := t]\<rparr>)"
    if "ctx w ! c = Some i" "resched_account now left c park (g_tasks ?w ! i) = Some t" for i t
    using owner_facts[OF inv' c, of i] account_quiet[OF that(2) p] that(1)
    by (intro quiet_inv[OF inv']) (simp add: owns_def)
  show ?thesis
    using inv choose_inv[OF inv' c ph'] set_phase_inv[OF inv' c ph'] choose_inv[OF acc c] ph'
    by (auto simp: reschedule_def Let_def cur split: option.splits)
qed

lemma exec_cur: "sched_inv w \<Longrightarrow> executing w c \<Longrightarrow> cur w c = ctx w ! c"
  by (rule cur_ctx) (simp_all add: executing_def)

lemma exec_live:
  assumes "sched_inv w" "executing w c" "cur w c = Some i"
  shows "live (g_tasks w ! i)" "i < TASK_MAX" "t_state (g_tasks w ! i) \<noteq> TASK_FREE"
  using owner_facts[OF assms(1), of c i] assms exec_cur[OF assms(1,2)] by (auto simp: owns_def executing_def)

lemma sleep_inv:
  assumes "sched_inv w" "executing w c"
  shows "sched_inv (task_sleep_ms now left c ms w)"
proof (cases "cur w c")
  case (Some i)
  have "sched_inv (upd i (\<lambda>t. t\<lparr>wake_at_ms := now + ms\<rparr>) w)"
    by (rule quiet_inv[OF assms(1)]) (use exec_live[OF assms Some] in \<open>simp add: quiet_def\<close>)
  then show ?thesis using assms(2) reschedule_inv by (simp add: task_sleep_ms_def Some executing_def)
qed (use assms in \<open>simp add: task_sleep_ms_def\<close>)

lemma feed0_inv: "sched_inv w \<Longrightarrow> sched_inv (feed_core0 c w)"
  by (erule sched_inv_cong) (simp_all add: feed_core0_def)

lemma feed_fields [simp]: "phases (feed_core0 c w) = phases w" "ctx (feed_core0 c w) = ctx w"
  by (simp_all add: feed_core0_def)

lemma wait_ctx:
  assumes "sched_inv w" "c < MAX_CORES" "phases w ! c = WaitSleep i wk \<or> phases w ! c = WaitDone i"
  shows "ctx w ! c = Some i" "idle_phase (phases w ! c)"
  using assms unfolding sched_inv_def phase_ok_def idle_phase_def by (auto simp: Let_def)

lemma sleep_poll_inv:
  assumes inv: "sched_inv w" and c: "c < MAX_CORES"
  shows "sched_inv (sleep_poll now c w)"
proof (cases "phases w ! c")
  case (WaitSleep i wk)
  note i = wait_ctx[OF inv c, of i wk]
  show ?thesis
    using WaitSleep i feed0_inv[OF inv] carry_on_inv[OF feed0_inv[OF inv] c]
      claim_inv[OF feed0_inv[OF inv] c, of c "Some i"]
    by (auto simp: sleep_poll_def Let_def split: option.splits)
qed (use inv in \<open>simp_all add: sleep_poll_def\<close>)

lemma done_poll_inv:
  assumes inv: "sched_inv w" and c: "c < MAX_CORES"
  shows "sched_inv (done_poll now c w)"
proof (cases "phases w ! c")
  case (WaitDone i)
  note i = wait_ctx[OF inv c, of i]
  have inv': "sched_inv (w\<lparr>wd_feeds := wd_feeds w + 1\<rparr>)" by (rule sched_inv_cong[OF inv]) simp_all
  show ?thesis
    using WaitDone i inv' claim_inv[OF inv' c, of "Some i"]
    by (auto simp: done_poll_def Let_def split: option.splits)
qed (use inv in \<open>simp_all add: done_poll_def\<close>)

lemma inv_len [simp]: "sched_inv w \<Longrightarrow> length (g_tasks w) = TASK_MAX"
  by (simp add: sched_inv_def inv_shape_def)

lemma list_update_saved:
  "sched_inv w \<Longrightarrow> i < TASK_MAX \<Longrightarrow> \<not> live (g_tasks w ! i) \<Longrightarrow> (real_sp w)[i := sp (g_tasks w ! i)] = real_sp w"
proof -
  assume a: "sched_inv w" "i < TASK_MAX" "\<not> live (g_tasks w ! i)"
  then have "\<forall>c<MAX_CORES. ctx w ! c \<noteq> Some i" using owner_facts(2)[of w _ i] unfolding owns_def by blast
  then have "sp (g_tasks w ! i) = real_sp w ! i" using a unfolding sched_inv_def inv_saved_def by blast
  then show ?thesis by simp
qed

lemma real_sp_inv:
  assumes inv: "sched_inv w" and on: "c < MAX_CORES" "ctx w ! c = Some i"
  shows "sched_inv (w\<lparr>real_sp := (real_sp w)[i := p]\<rparr>)" (is "sched_inv ?w")
proof -
  have "inv_shape ?w" "inv_owner ?w" "inv_pids ?w" "inv_spawning ?w" "inv_hw ?w"
    using inv by (simp_all add: sched_inv_def inv_shape_def inv_owner_def owns_def inv_pids_def inv_spawning_def inv_hw_def)
  moreover have "phase_ok ?w c" if "c < MAX_CORES" for c
    by (rule phase_ok_cong[of w]) (use inv that in \<open>simp_all add: sched_inv_def\<close>)
  moreover have "inv_saved ?w"
    using inv on unfolding sched_inv_def inv_saved_def by simp (metis nth_list_update_neq)
  ultimately show ?thesis unfolding sched_inv_def by blast
qed

lemma run_inv:
  assumes inv: "sched_inv w" and e: "executing w c" and i: "ctx w ! c = Some i"
  shows "sched_inv ((upd i (\<lambda>t. t\<lparr>stack_words := ws\<rparr>) w)\<lparr>real_sp := (real_sp w)[i := p]\<rparr>)" (is "sched_inv (?u\<lparr>real_sp := _\<rparr>)")
proof -
  have q: "sched_inv ?u" by (rule quiet_inv[OF inv]) (simp add: quiet_def)
  show ?thesis using real_sp_inv[OF q, of c i p] e i by (simp add: executing_def)
qed


lemma idle_state_inv:
  assumes inv: "sched_inv w" and i: "i < TASK_MAX" "\<not> live (g_tasks w ! i)" and t: "\<not> live t" "sp t = sp (g_tasks w ! i)"
      "pid t = pid (g_tasks w ! i)" "pid t = 0 \<Longrightarrow> t_state t = TASK_FREE \<or> t_state t = TASK_BLOCKED"
    and w': "g_tasks w' = (g_tasks w)[i := t]" "g_current w' = g_current w" "phases w' = phases w"
      "ctx w' = ctx w" "hw_app w' = hw_app w" "g_sched_sp w' = g_sched_sp w" "real_sp w' = real_sp w"
      "g_next_pid w' = g_next_pid w"
    and sp: "inv_spawning w'"
  shows "sched_inv w'"
  by (rule idle_slot_inv[OF inv i t(1) w'(1-6) _ _ _ sp])
    (use t w'(7,8) list_update_saved[OF inv i] in simp_all)

lemma claim_step_inv:
  assumes inv: "sched_inv w" and cl: "\<forall>x \<in> set (spawning w). snd x = Claimed"
    and rec: "\<And>i. recycles w = Some i \<Longrightarrow> \<not> live (g_tasks w ! i)" and j: "spawn_claim w = (Some j, w')"
  shows "sched_inv (w'\<lparr>spawning := (j, Claimed) # spawning w'\<rparr>)"
proof -
  have sp: "inv_spawning w" using inv by (simp add: sched_inv_def)
  have step: "sched_inv (w''\<lparr>spawning := (j, Claimed) # spawning w\<rparr>)"
    if "j < TASK_MAX" "\<not> live (g_tasks w ! j)" "t_state (g_tasks w ! j) \<noteq> TASK_BLOCKED"
      "g_tasks w'' = (g_tasks w)[j := t]" "\<not> live t" "sp t = sp (g_tasks w ! j)" "pid t = pid (g_tasks w ! j)"
      "t_state t = TASK_BLOCKED" "g_current w'' = g_current w" "phases w'' = phases w"
      "ctx w'' = ctx w" "hw_app w'' = hw_app w" "g_sched_sp w'' = g_sched_sp w" "real_sp w'' = real_sp w"
      "g_next_pid w'' = g_next_pid w" for w'' t
  proof (rule idle_state_inv[OF inv that(1,2,5,6,7)])
    show "inv_spawning (w''\<lparr>spawning := (j, Claimed) # spawning w\<rparr>)"
      by (rule inv_spawning_add[OF sp spawning_notin[OF sp that(3)] that(1) inv_len[OF inv], of _ t Claimed])
        (use that cl in simp_all)
  qed (use that in simp_all)
  show ?thesis
  proof (cases "find_slot (\<lambda>t. t_state t = TASK_FREE) (g_tasks w)")
    case (Some i)
    note f = find_slot_Some[OF Some]
    have "\<not> live (g_tasks w ! i)" using f inv live_owned[OF inv, of i] owner_facts(3)[OF inv, of _ i] by auto
    then show ?thesis using j Some f inv step[of w' "(g_tasks w ! j)\<lparr>t_state := TASK_BLOCKED\<rparr>"]
      by (auto simp: spawn_claim_def)
  next
    case None
    then obtain d: "oldest_done (g_tasks w) 0 None (g_tasks w) = Some j" and w': "w' = spawn_recycle j w"
      using j by (auto simp: spawn_claim_def split: option.splits)
    have dn: "j < TASK_MAX" "t_state (g_tasks w ! j) = TASK_DONE" using oldest_done_Some[OF d] inv by simp_all
    have lv: "\<not> live (g_tasks w ! j)" using rec[of j] None d by (simp add: recycles_def)
    have s: "spawning w' = spawning w" by (simp add: w' spawn_recycle_def Let_def)
    show ?thesis unfolding s
      by (rule step[OF dn(1) lv, where t = "g_tasks w' ! j"]) (use dn inv in \<open>simp_all add: w' spawn_recycle_def Let_def\<close>)
  qed
qed

lemma pending_facts:
  assumes "sched_inv w" "(i, st) \<in> set (spawning w)"
  shows "i < TASK_MAX" "\<not> live (g_tasks w ! i)"
    "t_state (g_tasks w ! i) = (case st of Claimed \<Rightarrow> TASK_BLOCKED | Filled \<Rightarrow> TASK_FREE)" "inv_spawning w"
    "st = Filled \<Longrightarrow> 0 < pid (g_tasks w ! i)"
  using assms unfolding sched_inv_def inv_spawning_def by auto

lemma nomem_inv:
  assumes inv: "sched_inv w" and i: "(i, Claimed) \<in> set (spawning w)"
  shows "sched_inv ((upd i (\<lambda>t. t\<lparr>t_state := TASK_FREE\<rparr>) w)\<lparr>spawning := removeAll (i, Claimed) (spawning w)\<rparr>)"
  by (rule idle_state_inv[OF inv pending_facts(1,2)[OF inv i], where t = "(g_tasks w ! i)\<lparr>t_state := TASK_FREE\<rparr>"])
    (use pending_facts[OF inv i] inv_spawning_drop[OF pending_facts(4)[OF inv i] i inv_len[OF inv]] in simp_all)

lemma fill_inv:
  assumes inv: "sched_inv w" and i: "(i, Claimed) \<in> set (spawning w)"
  shows "sched_inv ((spawn_fill ctx_init name path f a n aff raw i w)
      \<lparr>spawning := (i, Filled) # removeAll (i, Claimed) (spawning w)\<rparr>)" (is "sched_inv (?w\<lparr>spawning := _\<rparr>)")
proof (rule idle_slot_inv[OF inv pending_facts(1,2)[OF inv i], where t = "g_tasks ?w ! i"])
  let ?v = "w\<lparr>spawning := removeAll (i, Claimed) (spawning w)\<rparr>"
  have v: "inv_spawning ?v \<and> (\<forall>s. (i, s) \<notin> set (spawning ?v))"
    by (rule inv_spawning_drop[OF pending_facts(4)[OF inv i] i inv_len[OF inv], where t = "g_tasks w ! i"]) simp_all
  show "inv_spawning (?w\<lparr>spawning := (i, Filled) # removeAll (i, Claimed) (spawning w)\<rparr>)"
    by (rule inv_spawning_add[of ?v i, where st = Filled and t = "g_tasks ?w ! i"])
      (use v pending_facts(1)[OF inv i] inv in \<open>simp_all add: spawn_fill_def Let_def sched_inv_def inv_pids_def inv_shape_def\<close>)
qed (use pending_facts(1)[OF inv i] inv in \<open>simp_all add: spawn_fill_def Let_def sched_inv_def inv_pids_def inv_shape_def\<close>)

lemma ready_inv:
  assumes inv: "sched_inv w" and i: "(i, Filled) \<in> set (spawning w)"
  shows "sched_inv ((snd (spawn_ready i w))\<lparr>spawning := removeAll (i, Filled) (spawning w)\<rparr>)"
  by (rule idle_state_inv[OF inv pending_facts(1,2)[OF inv i], where t = "(g_tasks w ! i)\<lparr>t_state := TASK_READY\<rparr>"])
    (use pending_facts[OF inv i] inv_spawning_drop[OF pending_facts(4)[OF inv i] i inv_len[OF inv]] in
      \<open>simp_all add: spawn_ready_def\<close>)

lemma reap_inv:
  assumes inv: "sched_inv w" and lv: "\<And>i. slot_of w p = Some i \<Longrightarrow> t_state (g_tasks w ! i) = TASK_DONE \<Longrightarrow> \<not> live (g_tasks w ! i)"
  shows "sched_inv (snd (task_reap p w))" (is "sched_inv ?w")
proof (cases "\<exists>i. slot_of w p = Some i \<and> t_state (g_tasks w ! i) = TASK_DONE")
  case True
  then obtain i where i: "slot_of w p = Some i" "t_state (g_tasks w ! i) = TASK_DONE" by blast
  have lt: "i < TASK_MAX" using slot_of_Some[OF i(1)] inv by simp
  have sp: "inv_spawning w" using inv by (simp add: sched_inv_def)
  show ?thesis
  proof (rule idle_state_inv[OF inv lt lv[OF i], where t = "g_tasks ?w ! i"])
    show "inv_spawning ?w"
    proof (rule inv_spawning_cong[OF sp])
      fix k st assume "(k, st) \<in> set (spawning w)"
      then have "k \<noteq> i" using spawning_notin[OF sp, of i] i(2) by auto
      then show "live (g_tasks ?w ! k) = live (g_tasks w ! k) \<and> t_state (g_tasks ?w ! k) = t_state (g_tasks w ! k) \<and>
          pid (g_tasks ?w ! k) = pid (g_tasks w ! k)"
        using i by (simp add: task_reap_def Let_def)
    qed (use i in \<open>simp add: task_reap_def Let_def\<close>)
  qed (use i lt inv lv[OF i] in \<open>simp_all add: task_reap_def Let_def\<close>)
next
  case False
  then show ?thesis using inv by (auto simp: task_reap_def Let_def split: option.splits)
qed

lemma app_change_inv:
  assumes inv: "sched_inv w" and e: "executing w c" and i: "cur w c = Some i"
    and t: "t = (g_tasks w ! i)\<lparr>app_mem := m, app_mem_set := b\<rparr>"
  shows "sched_inv (w\<lparr>g_tasks := (g_tasks w)[i := t], hw_app := (hw_app w)[c := if b then Some m else None]\<rparr>)" (is "sched_inv ?w")
proof -
  have c: "c < MAX_CORES" "ctx w ! c = Some i" using e exec_cur[OF inv e] i by (simp_all add: executing_def)
  have lt: "i < TASK_MAX" by (rule exec_live(2)[OF inv e i])
  have nth: "g_tasks ?w ! k = (if k = i then t else g_tasks w ! k)" for k using lt inv by (auto simp: nth_list_update)
  have same: "pid (g_tasks ?w ! k) = pid (g_tasks w ! k)" "live (g_tasks ?w ! k) = live (g_tasks w ! k)"
    "sp (g_tasks ?w ! k) = sp (g_tasks w ! k)" "t_state (g_tasks ?w ! k) = t_state (g_tasks w ! k)" for k
    using nth[of k] t by (simp_all split: if_splits)
  have own: "owns ?w c' k = owns w c' k" for c' k by (simp add: owns_def)
  have sh: "length (hw_app w) = MAX_CORES" using inv by (simp add: sched_inv_def inv_shape_def)
  have "inv_shape ?w" using inv by (simp add: sched_inv_def inv_shape_def)
  moreover have "inv_owner ?w" using inv unfolding sched_inv_def inv_owner_def own same by blast
  moreover have "phase_ok ?w c'" if "c' < MAX_CORES" for c'
    by (rule phase_ok_cong[of w]) (use inv that same in \<open>simp_all add: sched_inv_def\<close>)
  moreover have "inv_saved ?w" using inv unfolding sched_inv_def inv_saved_def same by simp
  moreover have "inv_pids ?w" using inv unfolding sched_inv_def inv_pids_def same by simp
  moreover have "inv_spawning ?w" by (rule inv_spawning_cong[of w]) (use inv same in \<open>simp_all add: sched_inv_def\<close>)
  moreover have "inv_hw ?w"
  proof -
    have "hw_app ?w ! c' = running_app (g_tasks ?w) (ctx ?w ! c')" if "c' < MAX_CORES" for c'
    proof (cases "c' = c")
      case True
      then show ?thesis using c sh lt inv by (simp add: running_app_def t)
    next
      case False
      have "\<not> owns w c' i" using owner_facts(5)[OF inv c(1), of i c'] c(2) that False by (auto simp: owns_def)
      then have "running_app (g_tasks ?w) (ctx w ! c') = running_app (g_tasks w) (ctx w ! c')"
        by (intro running_app_cong) (auto simp: nth owns_def)
      then show ?thesis using False inv that unfolding sched_inv_def inv_hw_def by simp
    qed
    then show ?thesis unfolding inv_hw_def by blast
  qed
  ultimately show ?thesis unfolding sched_inv_def by blast
qed

lemma upd_quiet: "sched_inv w \<Longrightarrow> quiet (g_tasks w ! i) (f (g_tasks w ! i)) \<Longrightarrow> sched_inv (upd i f w)"
  by (rule quiet_inv)

lemma init_inv: "sched_inv (task_init main_size now sbg name sched_boot)" (is "sched_inv ?w")
proof -
  have two: "c < MAX_CORES \<longleftrightarrow> c = 0 \<or> c = 1" for c by (auto simp: MAX_CORES_def)
  have ts: "g_tasks ?w ! k = zero_task" if "k < TASK_MAX" "k \<noteq> 0" for k
    using that by (simp add: task_init_def arm_protection_def Let_def nth_list_update)
  have z: "pid (g_tasks ?w ! 0) = 1" "live (g_tasks ?w ! 0)" "t_state (g_tasks ?w ! 0) = TASK_RUNNING"
    "\<not> app_mem_set (g_tasks ?w ! 0)" "g_next_pid ?w = 2" "spawning ?w = []"
    by (simp_all add: task_init_def arm_protection_def Let_def sched_boot_def TASK_MAX_def zero_task_def)
  have own: "owns ?w c k \<longleftrightarrow> c = 0 \<and> k = 0" if "c < MAX_CORES" for c k
    using that unfolding two by (auto simp: owns_def task_init_def arm_protection_def Let_def sched_boot_def MAX_CORES_def)
  have rest: "phases ?w = [Executing, Executing]" "ctx ?w = [Some 0, None]" "g_current ?w = [1, - 1]"
    "hw_app ?w = [None, None]" "real_sp ?w = replicate TASK_MAX 0"
    by (simp_all add: task_init_def arm_protection_def Let_def sched_boot_def MAX_CORES_def zero_task_def
        TASK_MAX_def numeral_2_eq_2)
  have zt: "pid zero_task = 0" "\<not> live zero_task" "t_state zero_task = TASK_FREE" "sp zero_task = 0"
    by (simp_all add: zero_task_def)
  have "inv_shape ?w"
    by (simp add: inv_shape_def task_init_def arm_protection_def Let_def sched_boot_def)
  moreover have "inv_owner ?w"
  proof (rule inv_ownerI)
    show "\<exists>c<MAX_CORES. owns ?w c k" if "k < TASK_MAX" "live (g_tasks ?w ! k)" for k
      using ts[OF that(1)] that(2) zt(2) own[of 0 k] by (cases "k = 0") (auto simp: MAX_CORES_def intro!: exI[of _ 0])
  qed (use own z in \<open>auto simp: TASK_MAX_def\<close>)
  moreover have "phase_ok ?w c" if "c < MAX_CORES" for c
    using that z(1) unfolding two phase_ok_def by (auto simp: rest Let_def)
  moreover have "inv_saved ?w"
    unfolding inv_saved_def
  proof (intro allI impI)
    show "sp (g_tasks ?w ! k) = real_sp ?w ! k" if "k < TASK_MAX" "\<forall>c<MAX_CORES. ctx ?w ! c \<noteq> Some k" for k
      using ts[OF that(1)] that(1) that(2)[rule_format, of 0] zt(4)
      by (cases "k = 0") (simp_all add: rest MAX_CORES_def)
  qed
  moreover have "inv_pids ?w"
    unfolding inv_pids_def z(5)
  proof (intro conjI allI impI)
    show "0 \<le> pid (g_tasks ?w ! k)" "pid (g_tasks ?w ! k) < 2" if "k < TASK_MAX" for k
      using ts[OF that] z(1) zt(1) by (cases "k = 0"; simp)+
    show "t_state (g_tasks ?w ! k) = TASK_FREE \<or> t_state (g_tasks ?w ! k) = TASK_BLOCKED"
      if "k < TASK_MAX" "pid (g_tasks ?w ! k) = 0" for k
      using ts[OF that(1)] that(2) z(1) zt(3) by (cases "k = 0") simp_all
    show "k = l" if "k < TASK_MAX" "l < TASK_MAX" "pid (g_tasks ?w ! k) = pid (g_tasks ?w ! l)" "0 < pid (g_tasks ?w ! k)" for k l
      using that ts[OF that(1)] ts[OF that(2)] zt(1) by (cases "k = 0"; cases "l = 0") simp_all
  qed simp
  moreover have "inv_spawning ?w" by (simp add: inv_spawning_def z)
  moreover have "inv_hw ?w" using z(4) unfolding inv_hw_def two rest by (auto simp: running_app_def)
  ultimately show ?thesis unfolding sched_inv_def by blast
qed

lemma step_inv:
  assumes "sched_step w w'" "sched_inv w"
  shows "sched_inv w'"
  using assms
proof (induction rule: sched_step.induct)
  case (Yield w c now left)
  then show ?case by (simp add: task_yield_def executing_def reschedule_inv)
next
  case (Sleep w c now left ms)
  then show ?case by (simp add: sleep_inv)
next
  case (ExitMark w c code)
  then show ?case using exec_live[OF ExitMark(2,1)]
    by (auto simp: task_exit_mark_def quiet_def intro!: upd_quiet split: option.splits)
next
  case (Exit w c now left)
  then show ?case by (simp add: executing_def reschedule_inv)
next
  case (SleepPoll c w now)
  then show ?case by (simp add: sleep_poll_inv)
next
  case (DonePoll c w now)
  then show ?case by (simp add: done_poll_inv)
next
  case (Switch c w sbg here)
  then show ?case by (simp add: switch_inv)
next
  case (Run w c i ws p)
  then show ?case by (simp add: run_inv)
next
  case (Claim w j w')
  then show ?case by (intro claim_step_inv) auto
next
  case (NoMemory i w)
  then show ?case by (simp add: nomem_inv)
next
  case (Fill i w ctx_init name path f a n aff raw)
  then show ?case by (simp add: fill_inv)
next
  case (Ready i w)
  then show ?case by (simp add: ready_inv)
next
  case (Affinity w p aff)
  then show ?case by (auto simp: task_set_affinity_def quiet_def intro!: upd_quiet split: option.splits)
next
  case (Kill w now p)
  then show ?case by (auto simp: task_kill_def Let_def quiet_def intro!: upd_quiet split: option.splits)
next
  case (Reap w p)
  then show ?case by (intro reap_inv) auto
next
  case (CritEnter w c)
  then show ?case
    by (auto simp: task_crit_enter_def quiet_def intro!: upd_quiet elim: sched_inv_cong split: option.splits)
next
  case (CritLeave w c)
  then show ?case
    by (auto simp: task_crit_leave_def quiet_def intro!: upd_quiet elim: sched_inv_cong split: option.splits)
next
  case (Alive w c now_us now left last_us)
  have n: "sched_inv (w\<lparr>bb := bb w @ [BbYield now], wd_feeds := wd_feeds w + 1\<rparr>)" (is "sched_inv ?w")
    by (rule sched_inv_cong[OF Alive(2)]) simp_all
  have h: "sched_inv (set_phase c Halted ?w)"
    using set_phase_inv[OF n, of c Halted] Alive(1) by (simp add: executing_def idle_phase_def)
  have q: "sched_inv (upd i (\<lambda>t. t\<lparr>stack_used := high_water t\<rparr>) ?w)" for i
    by (rule quiet_inv[OF n]) (simp add: quiet_def)
  show ?case
  proof (cases "\<not> g_up w \<or> c \<noteq> 0 \<or> now_us - last_us < 25000")
    case True
    then show ?thesis using Alive(2) by (simp add: task_alive_def)
  next
    case False
    show ?thesis
    proof (cases "cur ?w c")
      case None
      then show ?thesis unfolding task_alive_def if_not_P[OF False] Let_def snd_conv by (simp only: None option.case n)
    next
      case (Some i)
      show ?thesis unfolding task_alive_def if_not_P[OF False] Let_def snd_conv Some option.case
        by (simp only: n h q split: if_split) simp
    qed
  qed
next
  case (ClearStop w c)
  then show ?case by (auto simp: task_clear_stop_def quiet_def intro!: upd_quiet split: option.splits)
next
  case (MarkShell w c)
  then show ?case by (auto simp: task_mark_shell_def elim: sched_inv_cong split: option.splits)
next
  case (AppSet w c mem)
  then show ?case using app_change_inv[OF AppSet(2,1) _ refl, where m = "the mem" and b = True]
    by (auto simp: task_app_mem_set_def split: option.splits)
next
  case (AppClear w c)
  let ?w = "w\<lparr>hw_app := (hw_app w)[c := None]\<rparr>"
  have cu: "cur ?w c = cur w c" by (simp add: cur_def slot_of_def Let_def)
  show ?case
  proof (cases "cur w c")
    case None
    then have "ctx w ! c = None" using exec_cur[OF AppClear(2,1)] by simp
    then have "hw_app w ! c = None" using AppClear unfolding sched_inv_def inv_hw_def executing_def running_app_def by auto
    then have "(hw_app w)[c := None] = hw_app w" by (metis list_update_id)
    then have "sched_inv ?w" by (intro sched_inv_cong[OF AppClear(2)]) simp_all
    then show ?thesis using None by (simp add: task_app_mem_clear_def Let_def cu)
  next
    case (Some i)
    have "sched_inv (w\<lparr>g_tasks := (g_tasks w)[i := (g_tasks w ! i)\<lparr>app_mem_set := False\<rparr>], hw_app := (hw_app w)[c := None]\<rparr>)"
      using app_change_inv[OF AppClear(2,1) Some refl, where m = "app_mem (g_tasks w ! i)" and b = False] by simp
    then show ?thesis by (rule sched_inv_cong) (simp_all add: task_app_mem_clear_def Let_def cu Some)
  qed
next
  case (ArenaSet w c ar)
  then show ?case by (auto simp: task_arena_set_def quiet_def intro!: upd_quiet split: option.splits)
qed

lemma reachable_inv: "sched_reachable w \<Longrightarrow> sched_inv w"
  by (induction rule: sched_reachable.induct) (auto intro: init_inv step_inv)

section \<open>What the scheduler guarantees\<close>



lemma pick_first:
  assumes "pick now w core p = Some k"
  shows "\<exists>n<TASK_MAX. k = (pick_start w p + n) mod TASK_MAX \<and>
    (\<forall>m<n. let i = (pick_start w p + m) mod TASK_MAX in
       \<not> (t_state (g_tasks w ! i) \<noteq> TASK_FREE \<and> runnable_on now (g_tasks w ! i) core))"
  using assms unfolding pick_def pick_loop_find find_Some_iff by (force simp: Let_def)

lemma pick_none_iff:
  "length (g_tasks w) = TASK_MAX \<Longrightarrow>
     pick now w core p = None \<longleftrightarrow> (\<forall>i<TASK_MAX. \<not> (t_state (g_tasks w ! i) \<noteq> TASK_FREE \<and> runnable_on now (g_tasks w ! i) core))"
proof -
  have "set (map (\<lambda>n. (pick_start w p + n) mod TASK_MAX) [0..<TASK_MAX]) = {..<TASK_MAX}" (is "?l = _")
  proof
    show "?l \<subseteq> {..<TASK_MAX}" by (auto simp: TASK_MAX_def)
    show "{..<TASK_MAX} \<subseteq> ?l"
    proof
      fix i assume "i \<in> {..<TASK_MAX}"
      then have "i < 12" by (simp add: TASK_MAX_def)
      then have "i = (pick_start w p mod 12 + (i + 12 - pick_start w p mod 12)) mod 12" by simp
      then have "i = (pick_start w p + (i + 12 - pick_start w p mod 12) mod 12) mod 12"
        by (metis mod_add_left_eq mod_add_right_eq)
      then show "i \<in> ?l" by (force simp: TASK_MAX_def)
    qed
  qed
  then show ?thesis unfolding pick_def pick_loop_find find_None_iff by blast
qed

lemma mod_ring: "(x::nat) < 24 \<Longrightarrow> x mod 12 = (if x < 12 then x else x - 12)"
  using mod_if[of x 12] by auto

lemma ring_advance:
  assumes "(a::nat) < 12" "j < 12" "m < (j + 11 - a) mod 12"
  shows "(j + 11 - (a + 1 + m) mod 12) mod 12 + m + 1 = (j + 11 - a) mod 12"
proof -
  have "m < 12" using assms(3) by (meson less_trans mod_less_divisor zero_less_numeral)
  then show ?thesis using assms by (simp add: mod_ring split: if_splits) linarith+
qed

lemma ring_offset:
  assumes "(a::nat) < 12" "j < 12"
  shows "(a + 1 + (j + 11 - a) mod 12) mod 12 = j"
  using assms by (simp add: mod_ring split: if_splits)

text \<open>
  C24. Bounded waiting.  However the table changes between switches, a task that stays
  runnable on a core is chosen by one of the next \<open>TASK_MAX\<close> choices of that core.
\<close>

theorem pick_fair:
  assumes at: "\<And>n. n < TASK_MAX \<Longrightarrow> slot_of (ws n) (run n) = Some (at n) \<and> at n < TASK_MAX"
    and nxt: "\<And>n. n < TASK_MAX \<Longrightarrow> pick (now n) (ws n) core (run n) = Some (at (n + 1))"
    and j: "j < TASK_MAX" "\<And>n. n < TASK_MAX \<Longrightarrow> t_state (g_tasks (ws n) ! j) \<noteq> TASK_FREE \<and>
      runnable_on (now n) (g_tasks (ws n) ! j) core"
  shows "\<exists>n<TASK_MAX. at (n + 1) = j"
proof (rule ccontr)
  assume no: "\<not> (\<exists>n<TASK_MAX. at (n + 1) = j)"
  have step: "(j + 11 - at (n + 1)) mod 12 < (j + 11 - at n) mod 12" if n: "n < TASK_MAX" for n
  proof -
    have a: "at n < 12" "j < 12" using at[OF n] j(1) by (auto simp: TASK_MAX_def)
    have st: "pick_start (ws n) (run n) = at n + 1" using at[OF n] by (simp add: pick_start_def)
    obtain m where m: "m < 12" "at (n + 1) = (at n + 1 + m) mod 12"
      "\<And>m'. m' < m \<Longrightarrow> \<not> (t_state (g_tasks (ws n) ! ((at n + 1 + m') mod 12)) \<noteq> TASK_FREE \<and>
         runnable_on (now n) (g_tasks (ws n) ! ((at n + 1 + m') mod 12)) core)"
      using pick_first[OF nxt[OF n]] unfolding st TASK_MAX_def Let_def by blast
    let ?d = "(j + 11 - at n) mod 12"
    have "\<not> ?d < m" using m(3)[of ?d] j(2)[OF n] ring_offset[OF a] by auto
    moreover have "m \<noteq> ?d" using no n m(2) ring_offset[OF a] by auto
    ultimately show ?thesis using ring_advance[OF a, of m] unfolding m(2) by linarith
  qed
  have "(j + 11 - at n) mod 12 + n \<le> 11" if "n \<le> TASK_MAX" for n
    using that
  proof (induction n)
    case 0
    show ?case using mod_less_divisor[of 12 "j + 11 - at 0"] by simp
  next
    case (Suc n)
    then show ?case using step[of n] by simp
  qed
  from this[of 12] show False by (simp add: TASK_MAX_def)
qed

text \<open>
  The test for a finished task does not ask whether it has left its core: from the moment
  \<open>task_exit\<close> has stored DONE, reaping it frees the stack its core is still running on.
\<close>

theorem reap_frees_running_stack:
  assumes "sched_reachable w" "executing w c" "cur w c = Some i" "stack_raw (g_tasks w ! i) = Some r"
    and w'_def: "w' = task_exit_mark c code w"
  shows "fst (task_reap (pid (g_tasks w ! i)) w')" "r \<in> set (freed (snd (task_reap (pid (g_tasks w ! i)) w')))"
    "ctx (snd (task_reap (pid (g_tasks w ! i)) w')) ! c = Some i"
proof -
  note inv = reachable_inv[OF assms(1)]
  have inv': "sched_inv w'" using step_inv[OF sched_step.ExitMark[OF assms(2)] inv] unfolding w'_def .
  have e: "executing w' c" "ctx w' ! c = ctx w ! c"
    using assms(2) by (simp_all add: w'_def task_exit_mark_def executing_def split: option.splits)
  have lt: "i < TASK_MAX" by (rule exec_live(2)[OF inv assms(2,3)])
  have t: "g_tasks w' ! i = (g_tasks w ! i)\<lparr>exit_code := code, stack_used := high_water (g_tasks w ! i), t_state := TASK_DONE\<rparr>"
    using lt inv by (simp add: w'_def task_exit_mark_def assms(3))
  have c: "ctx w' ! c = Some i" using exec_cur[OF inv assms(2)] assms(3) e(2) by simp
  then have cu: "cur w' c = Some i" using exec_cur[OF inv' e(1)] by simp
  have "slot_of w' (pid (g_tasks w' ! i)) = Some i"
    using cu e(1) inv' c unfolding cur_def executing_def sched_inv_def phase_ok_def by (auto simp: Let_def split: if_splits)
  then have s: "slot_of w' (pid (g_tasks w ! i)) = Some i" by (simp add: t)
  show "fst (task_reap (pid (g_tasks w ! i)) w')" "r \<in> set (freed (snd (task_reap (pid (g_tasks w ! i)) w')))"
    "ctx (snd (task_reap (pid (g_tasks w ! i)) w')) ! c = Some i"
    using assms(4) c by (simp_all add: task_reap_def s t Let_def)
qed

text \<open>
  Clearing \<open>TaskInfo\<close> also clears the reservation: until READY is stored the slot reads FREE
  and a second \<open>task_spawn\<close> takes it.
\<close>

theorem filled_slot_claimed_again:
  assumes "sched_reachable w" "(i, Filled) \<in> set (spawning w)" "\<forall>k<i. t_state (g_tasks w ! k) \<noteq> TASK_FREE"
  shows "fst (spawn_claim w) = Some i"
proof -
  note p = pending_facts[OF reachable_inv[OF assms(1)] assms(2)]
  have lt: "i < length (g_tasks w)" using p(1) reachable_inv[OF assms(1)] by simp
  obtain k where k: "find_slot (\<lambda>t. t_state t = TASK_FREE) (g_tasks w) = Some k"
    using find_slot_None[of "\<lambda>t. t_state t = TASK_FREE" "g_tasks w"] lt p(3) nth_mem by fastforce
  note f = find_slot_Some[OF k]
  have "k = i" using f assms(3) p(3) lt by (metis linorder_neqE_nat spawn_stage.simps(4))
  then show ?thesis using k by (simp add: spawn_claim_def)
qed

text \<open>The stack figure computed for the adopted task is overwritten by zero before anyone reads it.\<close>

theorem main_stack_reported_zero:
  assumes "resched_account now left 0 park t = Some t'" "stk t = None" "t_state t \<noteq> TASK_DONE"
  shows "stack_used t' = 0"
  using assms by (auto simp: resched_account_def resched_park_def main_headroom_def high_water_def Let_def split: if_splits)

section \<open>Witnesses\<close>

definition sample_init :: sched where "sample_init = task_init 8192 0 (\<lambda>_. None) None sched_boot"

definition sample_main :: task where "sample_main = g_tasks sample_init ! 0"

definition sample_claimed :: sched where
  "sample_claimed = (snd (spawn_claim sample_init))\<lparr>spawning := [(1, Claimed)]\<rparr>"

definition sample_filled :: sched where
  "sample_filled = (spawn_fill (\<lambda>p. p - 64) (Some ''job'') None 7 0 64 AFFINITY_ANY 0x20001004 1 sample_claimed)
     \<lparr>spawning := [(1, Filled)]\<rparr>"

definition sample_ready :: sched where "sample_ready = (snd (spawn_ready 1 sample_filled))\<lparr>spawning := []\<rparr>"

definition sample_switching :: sched where "sample_switching = task_yield 5 4096 1 sample_ready"

lemma twelve: "replicate TASK_MAX x = x # x # replicate 10 x"
  by (simp add: TASK_MAX_def numeral_eq_Suc)

lemma sample_init_fields:
  "g_tasks sample_init = sample_main # zero_task # replicate 10 zero_task"
  "pid sample_main = 1" "live sample_main" "t_state sample_main = TASK_RUNNING"
  "phases sample_init = [Executing, Executing]" "ctx sample_init = [Some 0, None]" "g_current sample_init = [1, - 1]"
  "spawning sample_init = []" "g_up sample_init"
  by (simp_all add: sample_main_def sample_init_def task_init_def arm_protection_def sched_boot_def Let_def twelve MAX_CORES_def numeral_2_eq_2)

lemma sample_claim: "spawn_claim sample_init = (Some 1, upd 1 (\<lambda>t. t\<lparr>t_state := TASK_BLOCKED\<rparr>) sample_init)"
proof -
  have "find_slot (\<lambda>t. t_state t = TASK_FREE) (g_tasks sample_init) = Some 1"
    by (simp add: sample_init_fields zero_task_def)
  then show ?thesis by (simp add: spawn_claim_def)
qed

lemma sample_ready_reachable: "sched_reachable sample_ready"
proof -
  have i: "sched_reachable sample_init" unfolding sample_init_def by (rule sched_reachable.Init)
  have r: "recycles sample_init = None"
  proof -
    have "find_slot (\<lambda>t. t_state t = TASK_FREE) (g_tasks sample_init) \<noteq> None"
      by (simp add: sample_init_fields zero_task_def)
    then show ?thesis by (simp add: recycles_def)
  qed
  have "sched_step sample_init ((upd 1 (\<lambda>t. t\<lparr>t_state := TASK_BLOCKED\<rparr>) sample_init)
      \<lparr>spawning := (1, Claimed) # spawning (upd 1 (\<lambda>t. t\<lparr>t_state := TASK_BLOCKED\<rparr>) sample_init)\<rparr>)"
    by (rule sched_step.Claim[OF _ _ sample_claim]) (simp_all add: r sample_init_fields)
  then have "sched_step sample_init sample_claimed"
    by (simp add: sample_claimed_def sample_claim sample_init_fields)
  moreover have "sched_step sample_claimed sample_filled"
  proof -
    have s: "spawning sample_claimed = [(1, Claimed)]" by (simp add: sample_claimed_def)
    then have "(1, Claimed) \<in> set (spawning sample_claimed)" by simp
    from sched_step.Fill[OF this] show ?thesis unfolding sample_filled_def s by simp
  qed
  moreover have "sched_step sample_filled sample_ready"
    using sched_step.Ready[of 1 sample_filled] by (simp add: sample_filled_def sample_ready_def)
  ultimately show ?thesis using i sched_reachable.Step by blast
qed

lemma sample_ready_fields:
  "\<exists>t. g_tasks sample_ready = sample_main # t # replicate 10 zero_task \<and> pid t = 2 \<and> \<not> live t \<and>
     t_state t = TASK_READY \<and> affinity t = AFFINITY_ANY"
  "phases sample_ready = [Executing, Executing]" "g_current sample_ready = [1, - 1]" "g_up sample_ready"
proof -
  have n: "g_next_pid sample_init = 2"
    by (simp add: sample_init_def task_init_def arm_protection_def sched_boot_def Let_def)
  show "\<exists>t. g_tasks sample_ready = sample_main # t # replicate 10 zero_task \<and> pid t = 2 \<and> \<not> live t \<and>
     t_state t = TASK_READY \<and> affinity t = AFFINITY_ANY"
    by (rule exI[of _ "g_tasks sample_ready ! 1"])
      (simp add: sample_ready_def sample_filled_def sample_claimed_def sample_claim spawn_ready_def
        spawn_fill_def Let_def sample_init_fields n)
qed (simp_all add: sample_ready_def sample_filled_def sample_claimed_def sample_claim spawn_ready_def
        spawn_fill_def Let_def sample_init_fields)

lemma sample_switching_phase: "phases sample_switching ! 1 = Switching None (Some 1)"
proof -
  obtain t where t: "g_tasks sample_ready = sample_main # t # replicate 10 zero_task" "pid t = 2" "\<not> live t"
    "t_state t = TASK_READY" "affinity t = AFFINITY_ANY" using sample_ready_fields(1) by blast
  have z: "t_state zero_task = TASK_FREE" by (simp add: zero_task_def)
  have up: "[0..<12] = [0::nat, 1] @ [2..<12]" by (simp add: upt_rec)
  have "find_slot (\<lambda>t. t_state t \<noteq> TASK_FREE \<and> pid t = 0) (g_tasks sample_ready) = None"
    using z by (auto simp: find_slot_None t sample_init_fields)
  then have "pick 5 sample_ready 1 0 = Some 1"
    unfolding pick_def pick_start_def slot_of_def TASK_MAX_def up
    by (simp add: t sample_init_fields runnable_on_def)
  then show ?thesis
    using sample_ready_fields
    by (simp add: sample_switching_def task_yield_def reschedule_def resched_notes_def cur_def MAX_CORES_def
        resched_choose_def resched_claim_def Let_def)
qed

lemma sample_switching_reachable: "sched_reachable sample_switching"
  unfolding sample_switching_def
  by (rule sched_reachable.Step[OF sample_ready_reachable], rule sched_step.Yield)
    (simp add: executing_def sample_ready_fields MAX_CORES_def)



text \<open>Two READY tasks taking turns on a core.\<close>

definition sample_pair :: sched where
  "sample_pair = sched_boot\<lparr>g_tasks := [zero_task\<lparr>pid := 1, t_state := TASK_READY\<rparr>,
     zero_task\<lparr>pid := 2, t_state := TASK_READY\<rparr>] @ replicate 10 zero_task\<rparr>"

lemma sample_pair_turns:
  "slot_of sample_pair 1 = Some 0" "slot_of sample_pair 2 = Some 1"
  "pick 0 sample_pair 0 1 = Some 1" "pick 0 sample_pair 0 2 = Some 0"
proof -
  show s: "slot_of sample_pair 1 = Some 0" "slot_of sample_pair 2 = Some 1"
    by (simp_all add: slot_of_def sample_pair_def zero_task_def)
  have up: "[0..<12] = [0::nat, 1, 2, 3, 4, 5, 6, 7, 8, 9, 10, 11]" by (simp add: upt_rec)
  have z: "k < 10 \<Longrightarrow> t_state (replicate 10 zero_task ! k) = TASK_FREE" for k by (simp add: zero_task_def)
  show "pick 0 sample_pair 0 1 = Some 1" "pick 0 sample_pair 0 2 = Some 0"
    unfolding pick_def pick_start_def s TASK_MAX_def up
    by (simp_all add: sample_pair_def runnable_on_def zero_task_def nth_Cons' nth_append)
qed

theorem pick_fair_witness: "\<exists>n<TASK_MAX. (if even (n + 1) then 0 else 1) = (1::nat)"
proof (rule pick_fair[of "\<lambda>_. sample_pair" "\<lambda>n. if even n then 1 else 2" "\<lambda>n. if even n then 0 else 1" "\<lambda>_. 0" 0])
  show "t_state (g_tasks sample_pair ! 1) \<noteq> TASK_FREE \<and> runnable_on 0 (g_tasks sample_pair ! 1) 0"
    by (simp add: sample_pair_def runnable_on_def zero_task_def)
qed (simp_all add: sample_pair_turns TASK_MAX_def)

end
