(* ===== verification/Locks.thy ===== *)
theory Locks
  imports Scheduler
begin

text \<open>
  \<open>os/core/lock.cpp\<close>, the recursive locks tasks hold, and \<open>os/core/preempt.cpp\<close>, which decides
  whether a task that overran its slice may be taken off its core.  The two meet in the
  task's count of held locks: the main theorem is that the count is exactly the locks held,
  so a task is spared from preemption when and only when it holds one.
\<close>

section \<open>Model\<close>

subsection \<open>Locks\<close>

record rpc_lock =
  owner :: int
  depth :: u32
  waits :: u32

definition PRE_INIT_OWNER :: int where "PRE_INIT_OWNER = - 2"

definition lock_me :: "nat \<Rightarrow> sched \<Rightarrow> int" where
  "lock_me core w = (let p = task_self core w in if p > 0 then p else PRE_INIT_OWNER)"

definition lock_held_once :: "nat \<Rightarrow> sched \<Rightarrow> rpc_lock option \<Rightarrow> bool" where
  "lock_held_once core w l =
     (case l of None \<Rightarrow> False | Some l \<Rightarrow> owner l = lock_me core w \<and> depth l = 1)"

definition lock_held_by_me :: "nat \<Rightarrow> sched \<Rightarrow> rpc_lock option \<Rightarrow> bool" where
  "lock_held_by_me core w l = (case l of None \<Rightarrow> False | Some l \<Rightarrow> owner l = lock_me core w)"

definition lock_try :: "nat \<Rightarrow> rpc_lock \<Rightarrow> sched \<Rightarrow> bool \<times> rpc_lock \<times> sched" where
  "lock_try core l w =
     (let self = lock_me core w; w = task_crit_enter core w in
      if owner l = 0 then (True, l\<lparr>owner := self, depth := 1\<rparr>, w)
      else if owner l = self then (True, l\<lparr>depth := depth l + 1\<rparr>, w)
      else (False, l, task_crit_leave core w))"

text \<open>One turn of \<open>lock_acquire\<close>: it has the lock, or has counted a wait and yielded.\<close>

definition acquire_turn :: "u32 \<Rightarrow> u32 \<Rightarrow> nat \<Rightarrow> rpc_lock \<Rightarrow> sched \<Rightarrow> bool \<times> rpc_lock \<times> sched" where
  "acquire_turn now left core l w =
     (case lock_try core l w of
        (True, l, w) \<Rightarrow> (True, l, w)
      | (False, l, w) \<Rightarrow> (False, l\<lparr>waits := waits l + 1\<rparr>, task_yield now left core w))"

definition lock_release :: "nat \<Rightarrow> rpc_lock \<Rightarrow> sched \<Rightarrow> rpc_lock \<times> sched" where
  "lock_release core l w =
     (if owner l = lock_me core w \<and> depth l > 0
      then (let l = l\<lparr>depth := depth l - 1\<rparr>; l = (if depth l = 0 then l\<lparr>owner := 0\<rparr> else l)
            in (l, task_crit_leave core w))
      else (l, w))"

subsection \<open>Preemption\<close>

definition PREEMPT_SLICE_MS :: u32 where "PREEMPT_SLICE_MS = 250"

datatype preempt_action = PREEMPT_NONE | PREEMPT_SWITCH | PREEMPT_DEFER

record preempt_state =
  now_ms :: u32
  last_yield_ms :: u32
  slice_ms :: u32
  enabled :: bool
  in_critical :: bool
  runnable_peer :: bool
  is_idle_task :: bool

definition preempt_held_ms :: "u32 \<Rightarrow> u32 \<Rightarrow> u32" where
  "preempt_held_ms now last_y = (if last_y > now then 0 else now - last_y)"

definition preempt_decide :: "preempt_state \<Rightarrow> preempt_action" where
  "preempt_decide s =
     (if \<not> enabled s then PREEMPT_NONE
      else if is_idle_task s then PREEMPT_NONE
      else let slice = (if slice_ms s \<noteq> 0 then slice_ms s else PREEMPT_SLICE_MS) in
        if preempt_held_ms (now_ms s) (last_yield_ms s) < slice then PREEMPT_NONE
        else if \<not> runnable_peer s then PREEMPT_NONE
        else if in_critical s then PREEMPT_DEFER
        else PREEMPT_SWITCH)"

datatype stall_action = STALL_LEAVE | STALL_ABANDON_CALL | STALL_END_TASK | STALL_NO_RECOURSE

record stall_facts =
  past_kill :: bool
  in_package :: bool
  call_reclaimable :: bool
  may_end_task :: bool

definition stall_decide :: "stall_facts \<Rightarrow> stall_action" where
  "stall_decide f =
     (if \<not> past_kill f then STALL_LEAVE
      else if in_package f \<and> call_reclaimable f then STALL_ABANDON_CALL
      else if may_end_task f then STALL_END_TASK
      else STALL_NO_RECOURSE)"

section \<open>The held count\<close>

text \<open>Any interleaving of the two cores over a set of locks, one operation at a time.\<close>

datatype lock_op = Try nat nat | Release nat nat

fun run_lock_op :: "lock_op \<Rightarrow> sched \<times> rpc_lock list \<Rightarrow> sched \<times> rpc_lock list" where
  "run_lock_op (Try core k) (w, ls) = (case lock_try core (ls ! k) w of (_, l, w) \<Rightarrow> (w, ls[k := l]))"
| "run_lock_op (Release core k) (w, ls) = (case lock_release core (ls ! k) w of (l, w) \<Rightarrow> (w, ls[k := l]))"

fun lock_op_ok :: "sched \<Rightarrow> nat \<Rightarrow> lock_op \<Rightarrow> bool" where
  "lock_op_ok w n (Try core k) = (executing w core \<and> k < n)"
| "lock_op_ok w n (Release core k) = (executing w core \<and> k < n)"

definition held_by :: "int \<Rightarrow> rpc_lock \<Rightarrow> nat" where
  "held_by p l = (if owner l = p then unat (depth l) else 0)"

definition held :: "int \<Rightarrow> rpc_lock list \<Rightarrow> nat" where
  "held p ls = sum_list (map (held_by p) ls)"

definition free_lock :: rpc_lock where "free_lock = \<lparr>owner = 0, depth = 0, waits = 0\<rparr>"

text \<open>\<open>held_count w ls n\<close>: every count is the locks held, after at most \<open>n\<close> acquisitions.\<close>

definition held_count :: "sched \<Rightarrow> rpc_lock list \<Rightarrow> nat \<Rightarrow> bool" where
  "held_count w ls n = (sched_inv w \<and>
     (\<forall>i<TASK_MAX. 0 < pid (g_tasks w ! i) \<longrightarrow> unat (crit (g_tasks w ! i)) = held (pid (g_tasks w ! i)) ls) \<and>
     unat (g_pre_init_crit w) = held PRE_INIT_OWNER ls \<and>
     (\<forall>l \<in> set ls. owner l = 0 \<longleftrightarrow> depth l = 0) \<and> (\<forall>p. held p ls \<le> n))"

lemma held_update:
  assumes "k < length ls"
  shows "held p (ls[k := l]) + held_by p (ls ! k) = held p ls + held_by p l"
proof -
  have le: "held_by p (ls ! k) \<le> held p ls"
    using assms elem_le_sum_list[of k "map (held_by p) ls"] by (simp add: held_def)
  show ?thesis
    using le sum_list_update[of k "map (held_by p) ls" "held_by p l"] assms
    by (simp add: held_def map_update)
qed

lemma held_pos: "l \<in> set ls \<Longrightarrow> held_by p l \<le> held p ls"
  unfolding held_def by (rule member_le_sum_list) simp_all

lemma held_zero_iff: "held p ls = 0 \<longleftrightarrow> (\<forall>l \<in> set ls. owner l = p \<longrightarrow> depth l = 0)"
proof -
  have "held_by p l = 0 \<longleftrightarrow> (owner l = p \<longrightarrow> depth l = 0)" for l by (simp add: held_by_def unat_eq_zero)
  then show ?thesis by (simp add: held_def del: map_eq_conv)
qed

lemma cur_crit [simp]:
  assumes "\<And>t. pid (f t) = pid t" "\<And>t. t_state (f t) = t_state t"
  shows "cur (upd i f w) c = cur w c"
proof -
  have "find_slot P (ts[i := f (ts ! i)]) = find_slot P ts" if "\<And>t. P (f t) = P t" for P ts
  proof (induction ts arbitrary: i)
    case (Cons t ts)
    then show ?case using that by (cases i) auto
  qed simp
  then show ?thesis using assms by (simp add: cur_def slot_of_def Let_def)
qed


lemma executing_crit [simp]:
  "executing (task_crit_enter c w) c' = executing w c'" "executing (task_crit_leave c w) c' = executing w c'"
  by (simp_all add: executing_def task_crit_enter_def task_crit_leave_def split: option.splits)

lemma me_eq:
  assumes "sched_inv w" "executing w c"
  shows "lock_me c w = (case cur w c of Some i \<Rightarrow> pid (g_tasks w ! i) | None \<Rightarrow> PRE_INIT_OWNER)"
proof (cases "cur w c")
  case (Some i)
  then have "0 < pid (g_tasks w ! i)"
    using owner_facts(4)[OF assms(1), of c i] exec_cur[OF assms] assms(2) by (simp add: owns_def executing_def)
  then show ?thesis using Some by (simp add: lock_me_def task_self_def Let_def)
qed (simp add: lock_me_def task_self_def)

lemma cur_pid_inj:
  assumes "sched_inv w" "executing w c" "cur w c = Some i" "j < TASK_MAX" "pid (g_tasks w ! j) = pid (g_tasks w ! i)"
  shows "j = i"
proof -
  have "0 < pid (g_tasks w ! i)" "i < TASK_MAX"
    using owner_facts[OF assms(1), of c i] exec_cur[OF assms(1,2)] assms(2,3) by (simp_all add: owns_def executing_def)
  then show ?thesis using assms(1,4,5) unfolding sched_inv_def inv_pids_def by metis
qed

lemma unat_inc: "unat (x::u32) + 1 < 2 ^ 32 \<Longrightarrow> unat (x + 1) = unat x + 1"
  by (simp add: unat_word_ariths unsigned_of_nat)

lemma unat_dec: "0 < unat (x::u32) \<Longrightarrow> unat (x - 1) = unat x - 1"
  by (metis less_numeral_extra(3) unat_eq_zero unat_minus_one)

text \<open>The count moves with what the caller holds of one lock.\<close>

lemma held_count_move:
  assumes hc: "held_count w ls n" and ex: "executing w c" and inv': "sched_inv w'"
    and l: "l \<in> set ls' \<Longrightarrow> owner l = 0 \<longleftrightarrow> depth l = 0" "set ls' \<subseteq> insert l (set ls)"
      "\<And>p. p \<noteq> lock_me c w \<Longrightarrow> held p ls' = held p ls"
    and n: "held (lock_me c w) ls' \<le> n'" "n \<le> n'"
    and pre: "cur w c = None \<Longrightarrow> g_tasks w' = g_tasks w \<and> unat (g_pre_init_crit w') = held (lock_me c w) ls'"
    and own: "\<And>i. cur w c = Some i \<Longrightarrow> \<exists>t. g_tasks w' = (g_tasks w)[i := t] \<and> pid t = pid (g_tasks w ! i) \<and>
      unat (crit t) = held (lock_me c w) ls' \<and> g_pre_init_crit w' = g_pre_init_crit w"
  shows "held_count w' ls' n'"
proof -
  have inv: "sched_inv w" using hc by (simp add: held_count_def)
  have old: "\<And>i. i < TASK_MAX \<Longrightarrow> 0 < pid (g_tasks w ! i) \<Longrightarrow> unat (crit (g_tasks w ! i)) = held (pid (g_tasks w ! i)) ls"
    "unat (g_pre_init_crit w) = held PRE_INIT_OWNER ls" "\<And>p. held p ls \<le> n"
    using hc unfolding held_count_def by blast+
  have bound: "held p ls' \<le> n'" for p
    using l(3)[of p] n old(3)[of p] by (cases "p = lock_me c w") auto
  have zero: "\<forall>l \<in> set ls'. owner l = 0 \<longleftrightarrow> depth l = 0" using hc l(1,2) unfolding held_count_def by blast
  have counts: "(\<forall>i<TASK_MAX. 0 < pid (g_tasks w' ! i) \<longrightarrow> unat (crit (g_tasks w' ! i)) = held (pid (g_tasks w' ! i)) ls') \<and>
     unat (g_pre_init_crit w') = held PRE_INIT_OWNER ls'"
  proof (cases "cur w c")
    case None
    then have me: "lock_me c w = PRE_INIT_OWNER" by (simp add: me_eq[OF inv ex])
    have "pid (g_tasks w ! i) \<noteq> lock_me c w" if "0 < pid (g_tasks w ! i)" for i
      using that me by (simp add: PRE_INIT_OWNER_def)
    then show ?thesis using pre[OF None] me old(1) l(3) by simp
  next
    case (Some i)
    have me: "lock_me c w = pid (g_tasks w ! i)" by (simp add: me_eq[OF inv ex] Some)
    have i: "i < TASK_MAX" "0 < pid (g_tasks w ! i)"
      using owner_facts[OF inv, of c i] exec_cur[OF inv ex] ex Some by (simp_all add: owns_def executing_def)
    obtain t where t: "g_tasks w' = (g_tasks w)[i := t]" "pid t = pid (g_tasks w ! i)"
      "unat (crit t) = held (lock_me c w) ls'" "g_pre_init_crit w' = g_pre_init_crit w" using own[OF Some] by blast
    have "unat (crit (g_tasks w' ! j)) = held (pid (g_tasks w' ! j)) ls'"
      if j: "j < TASK_MAX" "0 < pid (g_tasks w' ! j)" for j
    proof (cases "j = i")
      case True
      then show ?thesis using t me i inv by simp
    next
      case False
      then have "pid (g_tasks w ! j) \<noteq> lock_me c w" using cur_pid_inj[OF inv ex Some j(1)] me by auto
      then show ?thesis using False j t(1) old(1) l(3) by simp
    qed
    moreover have "PRE_INIT_OWNER \<noteq> lock_me c w" using me i(2) by (simp add: PRE_INIT_OWNER_def)
    ultimately show ?thesis using t(4) old(2) l(3) by simp
  qed
  show ?thesis unfolding held_count_def using inv' counts zero bound by blast
qed

lemma current_count:
  assumes "held_count w ls n" "executing w c"
  shows "(case cur w c of Some i \<Rightarrow> unat (crit (g_tasks w ! i)) | None \<Rightarrow> unat (g_pre_init_crit w)) = held (lock_me c w) ls"
proof -
  have inv: "sched_inv w" using assms(1) by (simp add: held_count_def)
  show ?thesis
  proof (cases "cur w c")
    case (Some i)
    then have "i < TASK_MAX" "0 < pid (g_tasks w ! i)"
      using owner_facts[OF inv, of c i] exec_cur[OF inv assms(2)] assms(2) by (simp_all add: owns_def executing_def)
    then show ?thesis using assms(1) Some by (simp add: me_eq[OF inv assms(2)] held_count_def)
  qed (use assms(1) in \<open>simp add: me_eq[OF inv assms(2)] held_count_def\<close>)
qed

lemma held_count_enter:
  assumes hc: "held_count w ls n" and ex: "executing w c" and k: "k < length ls" and n: "n + 1 < 2 ^ 32"
    and l: "owner l = 0 \<longleftrightarrow> depth l = 0" "\<And>p. p \<noteq> lock_me c w \<Longrightarrow> held_by p l = held_by p (ls ! k)"
      "held_by (lock_me c w) l = held_by (lock_me c w) (ls ! k) + 1"
  shows "held_count (task_crit_enter c w) (ls[k := l]) (n + 1)"
proof -
  have inv: "sched_inv w" using hc by (simp add: held_count_def)
  have more: "held (lock_me c w) (ls[k := l]) = held (lock_me c w) ls + 1"
    using held_update[OF k, of "lock_me c w" l] l(3) by simp
  have le: "held (lock_me c w) ls \<le> n" using hc by (simp add: held_count_def)
  note now = current_count[OF hc ex]
  show ?thesis
  proof (rule held_count_move[OF hc ex step_inv[OF sched_step.CritEnter[OF ex] inv], of l])
    show "held p (ls[k := l]) = held p ls" if "p \<noteq> lock_me c w" for p
      using held_update[OF k, of p l] l(2)[OF that] by simp
    show "g_tasks (task_crit_enter c w) = g_tasks w \<and>
        unat (g_pre_init_crit (task_crit_enter c w)) = held (lock_me c w) (ls[k := l])" if "cur w c = None"
      using that now le n more unat_inc[of "g_pre_init_crit w"] by (simp add: task_crit_enter_def)
    show "\<exists>t. g_tasks (task_crit_enter c w) = (g_tasks w)[i := t] \<and> pid t = pid (g_tasks w ! i) \<and>
      unat (crit t) = held (lock_me c w) (ls[k := l]) \<and> g_pre_init_crit (task_crit_enter c w) = g_pre_init_crit w"
      if "cur w c = Some i" for i
      using that now le n more unat_inc[of "crit (g_tasks w ! i)"]
      by (intro exI[of _ "(g_tasks w ! i)\<lparr>crit := crit (g_tasks w ! i) + 1\<rparr>"]) (simp add: task_crit_enter_def)
  qed (use l(1) more le in \<open>auto dest: set_update_subset_insert[THEN subsetD]\<close>)
qed

lemma held_count_leave:
  assumes hc: "held_count w ls n" and ex: "executing w c" and k: "k < length ls"
    and l: "owner l = 0 \<longleftrightarrow> depth l = 0" "\<And>p. p \<noteq> lock_me c w \<Longrightarrow> held_by p l = held_by p (ls ! k)"
      "held_by (lock_me c w) l + 1 = held_by (lock_me c w) (ls ! k)"
  shows "held_count (task_crit_leave c w) (ls[k := l]) n"
proof -
  have inv: "sched_inv w" using hc by (simp add: held_count_def)
  have less: "held (lock_me c w) (ls[k := l]) + 1 = held (lock_me c w) ls"
    using held_update[OF k, of "lock_me c w" l] l(3) by simp
  have le: "held (lock_me c w) ls \<le> n" using hc by (simp add: held_count_def)
  note now = current_count[OF hc ex]
  show ?thesis
  proof (rule held_count_move[OF hc ex step_inv[OF sched_step.CritLeave[OF ex] inv], of l])
    show "held p (ls[k := l]) = held p ls" if "p \<noteq> lock_me c w" for p
      using held_update[OF k, of p l] l(2)[OF that] by simp
    show "g_tasks (task_crit_leave c w) = g_tasks w \<and>
        unat (g_pre_init_crit (task_crit_leave c w)) = held (lock_me c w) (ls[k := l])" if "cur w c = None"
      using that now less unat_dec[of "g_pre_init_crit w"] by (auto simp: task_crit_leave_def)
    show "\<exists>t. g_tasks (task_crit_leave c w) = (g_tasks w)[i := t] \<and> pid t = pid (g_tasks w ! i) \<and>
      unat (crit t) = held (lock_me c w) (ls[k := l]) \<and> g_pre_init_crit (task_crit_leave c w) = g_pre_init_crit w"
      if "cur w c = Some i" for i
      using that now less unat_dec[of "crit (g_tasks w ! i)"]
      by (intro exI[of _ "(g_tasks w ! i)\<lparr>crit := crit (g_tasks w ! i) - 1\<rparr>"]) (auto simp: task_crit_leave_def)
  qed (use l(1) less le in \<open>auto dest: set_update_subset_insert[THEN subsetD]\<close>)
qed

lemma crit_undo:
  assumes "held_count w ls n" "executing w c" "n + 1 < 2 ^ 32"
  shows "task_crit_leave c (task_crit_enter c w) = w"
proof -
  have inv: "sched_inv w" and le: "held (lock_me c w) ls \<le> n" using assms(1) by (simp_all add: held_count_def)
  note now = current_count[OF assms(1,2)]
  show ?thesis
  proof (cases "cur w c")
    case None
    have "cur (w\<lparr>g_pre_init_crit := g_pre_init_crit w + 1\<rparr>) c = None"
      using None by (auto simp: cur_def slot_of_def Let_def)
    moreover have "g_pre_init_crit w + 1 \<noteq> 0"
      using now None le assms(3) unat_inc[of "g_pre_init_crit w"] by auto
    ultimately show ?thesis using None by (simp add: task_crit_enter_def task_crit_leave_def)
  next
    case (Some i)
    have "crit (g_tasks w ! i) + 1 \<noteq> 0"
      using now Some le assms(3) unat_inc[of "crit (g_tasks w ! i)"] by auto
    then show ?thesis using Some exec_live(2)[OF inv assms(2) Some] inv
      by (simp add: task_crit_enter_def task_crit_leave_def)
  qed
qed

lemma held_count_mono: "held_count w ls n \<Longrightarrow> n \<le> m \<Longrightarrow> held_count w ls m"
  unfolding held_count_def using le_trans by blast

lemma try_count:
  assumes hc: "held_count w ls n" and ex: "executing w c" and k: "k < length ls" and n: "n + 1 < 2 ^ 32"
    and r: "lock_try c (ls ! k) w = (got, l, w')"
  shows "held_count w' (ls[k := l]) (n + 1) \<and> (\<forall>c. executing w' c = executing w c)"
proof -
  have z: "owner (ls ! k) = 0 \<longleftrightarrow> depth (ls ! k) = 0" using hc k by (simp add: held_count_def)
  have m: "lock_me c w \<noteq> 0" by (simp add: lock_me_def PRE_INIT_OWNER_def Let_def)
  have "held (owner (ls ! k)) ls \<le> n" using hc by (simp add: held_count_def)
  moreover have "unat (depth (ls ! k)) \<le> held (owner (ls ! k)) ls"
    using held_pos[of "ls ! k" ls "owner (ls ! k)"] k by (simp add: held_by_def)
  ultimately have inc: "unat (depth (ls ! k) + 1) = unat (depth (ls ! k)) + 1"
    by (intro unat_inc) (use n in linarith)
  consider "owner (ls ! k) = 0" | "owner (ls ! k) \<noteq> 0" "owner (ls ! k) = lock_me c w"
    | "owner (ls ! k) \<noteq> 0" "owner (ls ! k) \<noteq> lock_me c w" by blast
  then show ?thesis
  proof cases
    case 1
    then have l: "l = (ls ! k)\<lparr>owner := lock_me c w, depth := 1\<rparr>" "w' = task_crit_enter c w"
      using r by (auto simp: lock_try_def Let_def)
    show ?thesis
      using held_count_enter[OF hc ex k n, of l] 1 z m by (auto simp: l held_by_def)
  next
    case 2
    then have l: "l = (ls ! k)\<lparr>depth := depth (ls ! k) + 1\<rparr>" "w' = task_crit_enter c w"
      using r by (auto simp: lock_try_def Let_def)
    have "depth (ls ! k) + 1 \<noteq> 0" using inc by auto
    then show ?thesis
      using held_count_enter[OF hc ex k n, of l] 2 inc by (auto simp: l held_by_def)
  next
    case 3
    then have "l = ls ! k" "w' = w"
      using r crit_undo[OF hc ex n] by (auto simp: lock_try_def Let_def)
    then show ?thesis using held_count_mono[OF hc] by simp
  qed
qed

lemma release_count:
  assumes hc: "held_count w ls n" and ex: "executing w c" and k: "k < length ls"
    and r: "lock_release c (ls ! k) w = (l, w')"
  shows "held_count w' (ls[k := l]) n \<and> (\<forall>c. executing w' c = executing w c)"
proof (cases "owner (ls ! k) = lock_me c w \<and> depth (ls ! k) > 0")
  case True
  have m: "lock_me c w \<noteq> 0" by (simp add: lock_me_def PRE_INIT_OWNER_def Let_def)
  have l: "depth l = depth (ls ! k) - 1" "owner l = (if depth (ls ! k) - 1 = 0 then 0 else owner (ls ! k))"
    "w' = task_crit_leave c w"
    using r True by (auto simp: lock_release_def Let_def split: if_splits)
  have u: "unat (depth (ls ! k) - 1) + 1 = unat (depth (ls ! k))"
    using True unat_dec[of "depth (ls ! k)"] by (simp add: word_less_nat_alt)
  have "held_count (task_crit_leave c w) (ls[k := l]) n"
  proof (rule held_count_leave[OF hc ex k])
    show "owner l = 0 \<longleftrightarrow> depth l = 0" using True m by (simp add: l)
    show "held_by p l = held_by p (ls ! k)" if "p \<noteq> lock_me c w" for p
      using that True by (auto simp: held_by_def l split: if_splits)
    show "held_by (lock_me c w) l + 1 = held_by (lock_me c w) (ls ! k)"
      using True m u by (auto simp: held_by_def l split: if_splits)
  qed
  then show ?thesis by (simp add: l)
next
  case False
  then have "l = ls ! k" "w' = w" using r by (auto simp: lock_release_def)
  then show ?thesis using hc by simp
qed

lemma run_lock_op_count:
  assumes hc: "held_count w ls n" and ok: "lock_op_ok w (length ls) op" and n: "n + 1 < 2 ^ 32"
    and r: "run_lock_op op (w, ls) = (w', ls')"
  shows "held_count w' ls' (n + 1) \<and> (\<forall>c. executing w' c = executing w c) \<and> length ls' = length ls"
proof (cases op)
  case (Try c k)
  then show ?thesis using r ok try_count[OF hc _ _ n, of c k] by (auto split: prod.splits)
next
  case (Release c k)
  then show ?thesis using r ok release_count[OF hc, of c k] held_count_mono[of w' ls' n "n + 1"]
    by (auto split: prod.splits)
qed

lemma lock_op_ok_cong: "(\<And>c. executing w' c = executing w c) \<Longrightarrow> lock_op_ok w' n op = lock_op_ok w n op"
  by (cases op) simp_all

lemma run_lock_ops_count:
  assumes "held_count w ls n" "\<forall>op \<in> set ops. lock_op_ok w (length ls) op" "n + length ops < 2 ^ 32"
    "fold run_lock_op ops (w, ls) = (w', ls')"
  shows "held_count w' ls' (n + length ops) \<and> (\<forall>c. executing w' c = executing w c)"
  using assms
proof (induction ops arbitrary: w ls n)
  case (Cons op ops)
  obtain w1 ls1 where r: "run_lock_op op (w, ls) = (w1, ls1)" by fastforce
  have 1: "held_count w1 ls1 (n + 1)" "\<And>c. executing w1 c = executing w c" "length ls1 = length ls"
    using run_lock_op_count[OF Cons.prems(1) _ _ r] Cons.prems(2,3) by auto
  have "held_count w' ls' (n + 1 + length ops) \<and> (\<forall>c. executing w' c = executing w1 c)"
    by (rule Cons.IH[OF 1(1)]) (use Cons.prems(2-4) r 1 lock_op_ok_cong[OF 1(2)] in auto)
  then show ?case using 1(2) by simp
qed simp

lemma crit_active_iff_holds:
  assumes "held_count w ls n" "executing w c"
  shows "task_crit_active c w \<longleftrightarrow> (\<exists>l \<in> set ls. owner l = lock_me c w)"
proof -
  have m: "lock_me c w \<noteq> 0" by (simp add: lock_me_def PRE_INIT_OWNER_def Let_def)
  have "task_crit_active c w \<longleftrightarrow> held (lock_me c w) ls \<noteq> 0"
    using current_count[OF assms] by (simp add: task_crit_active_def split: option.splits) (metis neq0_conv unat_eq_zero)+
  also have "\<dots> \<longleftrightarrow> (\<exists>l \<in> set ls. owner l = lock_me c w)"
    using assms(1) m unfolding held_zero_iff held_count_def by metis
  finally show ?thesis .
qed

lemma held_count_init:
  assumes "sched_inv w" "\<forall>t \<in> set (g_tasks w). crit t = 0" "g_pre_init_crit w = 0"
  shows "held_count w (replicate n free_lock) 0"
proof -
  have "held p (replicate n free_lock) = 0" for p
    by (simp add: held_def held_by_def free_lock_def sum_list_replicate)
  then show ?thesis using assms by (auto simp: held_count_def free_lock_def)
qed



end
