(* ===== verification/BlockCache.thy ===== *)
theory BlockCache
  imports CLib
begin

text \<open>
  The transfer drive's block layer, bottom up: the flash region of \<open>storage.cpp\<close>
  (\<open>storage_usb_read\<close>, \<open>storage_usb_write_block\<close>), the one-block cache of
  \<open>os/core/blockcache.cpp\<close>, and the sector interface \<open>os/usbmsc.cpp\<close> builds from them
  (\<open>region_read\<close>, \<open>region_write\<close>), which the FAT12 driver and the USB host both use.  Flash is a
  function from addresses to bytes; erasing and programming a block is the SDK's and a
  parameter, \<open>prog\<close>.  The locale \<open>sector_io\<close> is the contract of a disk of 512-byte sectors.
\<close>

section \<open>Model\<close>

subsection \<open>The flash region\<close>

type_synonym flash = "u32 \<Rightarrow> u8"

type_synonym flash_prog = "u32 \<Rightarrow> bytes \<Rightarrow> flash \<Rightarrow> bool \<times> flash"

definition STORAGE_USB_BLOCK :: u32 where "STORAGE_USB_BLOCK = 4096"

text \<open>\<open>slot\<close> is \<open>RPC_FW_SLOT\<close>, a build setting: the region starts where the firmware slot ends.\<close>

definition storage_usb_read :: "u32 \<Rightarrow> u32 \<Rightarrow> u32 \<Rightarrow> flash \<Rightarrow> bytes option" where
  "storage_usb_read slot off len fl =
     (if off + len > slot then None
      else Some (map (\<lambda>i. fl (slot + off + of_nat i)) [0..<unat len]))"

definition storage_usb_write_block :: "u32 \<Rightarrow> flash_prog \<Rightarrow> u32 \<Rightarrow> bytes \<Rightarrow> flash \<Rightarrow> bool \<times> flash" where
  "storage_usb_write_block slot prog off block4k fl =
     (if off mod STORAGE_USB_BLOCK \<noteq> 0 \<or> off + STORAGE_USB_BLOCK > slot then (False, fl)
      else prog (slot + off) block4k fl)"

subsection \<open>The block cache\<close>

definition BC_INVALID :: u32 where "BC_INVALID = 0xFFFFFFFF"

record block_cache =
  buf :: bytes
  block_size :: u32
  sector_size :: u32
  block :: u32
  dirty :: bool

definition bc_init :: "bytes \<Rightarrow> u32 \<Rightarrow> u32 \<Rightarrow> block_cache" where
  "bc_init b bs ss = \<lparr>buf = b, block_size = bs, sector_size = ss, block = BC_INVALID, dirty = False\<rparr>"

definition bc_flush :: "(u32 \<Rightarrow> bytes \<Rightarrow> 'd \<Rightarrow> bool \<times> 'd) \<Rightarrow> block_cache \<Rightarrow> 'd \<Rightarrow> bool \<times> block_cache \<times> 'd" where
  "bc_flush wr c d =
     (if block c = BC_INVALID \<or> \<not> dirty c then (True, c, d)
      else case wr (block c) (buf c) d of (ok, d) \<Rightarrow> (ok, c\<lparr>dirty := False\<rparr>, d))"

definition bc_load ::
  "(u32 \<Rightarrow> 'd \<Rightarrow> bytes option) \<Rightarrow> (u32 \<Rightarrow> bytes \<Rightarrow> 'd \<Rightarrow> bool \<times> 'd) \<Rightarrow> u32 \<Rightarrow> block_cache \<Rightarrow> 'd \<Rightarrow>
     bool \<times> block_cache \<times> 'd" where
  "bc_load rd wr blk c d =
     (if block c = blk then (True, c, d)
      else case bc_flush wr c d of
          (False, c, d) \<Rightarrow> (False, c, d)
        | (True, c, d) \<Rightarrow> (case rd blk d of
              None \<Rightarrow> (False, c\<lparr>block := BC_INVALID\<rparr>, d)
            | Some b \<Rightarrow> (True, c\<lparr>buf := b, block := blk\<rparr>, d)))"

definition sector_at :: "block_cache \<Rightarrow> u32 \<Rightarrow> bytes" where
  "sector_at c i = take (unat (sector_size c)) (drop (unat (i * sector_size c)) (buf c))"

definition bc_read_sector ::
  "(u32 \<Rightarrow> 'd \<Rightarrow> bytes option) \<Rightarrow> (u32 \<Rightarrow> bytes \<Rightarrow> 'd \<Rightarrow> bool \<times> 'd) \<Rightarrow> u32 \<Rightarrow> block_cache \<Rightarrow> 'd \<Rightarrow>
     bytes option \<times> block_cache \<times> 'd" where
  "bc_read_sector rd wr lba c d =
     (let per = block_size c div sector_size c; blk = lba div per in
      if blk = block c then (Some (sector_at c (lba mod per)), c, d)
      else case bc_load rd wr blk c d of
          (False, c, d) \<Rightarrow> (None, c, d)
        | (True, c, d) \<Rightarrow> (Some (sector_at c (lba mod per)), c, d))"

definition splice :: "nat \<Rightarrow> bytes \<Rightarrow> bytes \<Rightarrow> bytes" where
  "splice k s b = take k b @ s @ drop (k + length s) b"

definition bc_write_sector ::
  "(u32 \<Rightarrow> 'd \<Rightarrow> bytes option) \<Rightarrow> (u32 \<Rightarrow> bytes \<Rightarrow> 'd \<Rightarrow> bool \<times> 'd) \<Rightarrow> u32 \<Rightarrow> bytes \<Rightarrow> block_cache \<Rightarrow> 'd \<Rightarrow>
     bool \<times> block_cache \<times> 'd" where
  "bc_write_sector rd wr lba src c d =
     (let per = block_size c div sector_size c in
      case bc_load rd wr (lba div per) c d of
          (False, c, d) \<Rightarrow> (False, c, d)
        | (True, c, d) \<Rightarrow>
            (True, c\<lparr>buf := splice (unat ((lba mod per) * sector_size c)) (take (unat (sector_size c)) src) (buf c),
                     dirty := True\<rparr>, d))"

definition bc_discard :: "block_cache \<Rightarrow> block_cache" where
  "bc_discard c = c\<lparr>dirty := False, block := BC_INVALID\<rparr>"

subsection \<open>The drive's sectors\<close>

definition F12_SECTOR :: u32 where "F12_SECTOR = 512"

record region =
  g_cache :: block_cache
  g_cache_ready :: bool
  g_flash :: flash

definition flash_read_block :: "u32 \<Rightarrow> u32 \<Rightarrow> flash \<Rightarrow> bytes option" where
  "flash_read_block slot blk fl = storage_usb_read slot (blk * STORAGE_USB_BLOCK) STORAGE_USB_BLOCK fl"

definition flash_write_block :: "u32 \<Rightarrow> flash_prog \<Rightarrow> u32 \<Rightarrow> bytes \<Rightarrow> flash \<Rightarrow> bool \<times> flash" where
  "flash_write_block slot prog blk src fl = storage_usb_write_block slot prog (blk * STORAGE_USB_BLOCK) src fl"

definition cache_start :: "region \<Rightarrow> region" where
  "cache_start r =
     (if g_cache_ready r then r
      else r\<lparr>g_cache := bc_init (buf (g_cache r)) STORAGE_USB_BLOCK F12_SECTOR, g_cache_ready := True\<rparr>)"

definition blk_flush :: "u32 \<Rightarrow> flash_prog \<Rightarrow> region \<Rightarrow> bool \<times> region" where
  "blk_flush slot prog r =
     (let r = cache_start r in
      case bc_flush (flash_write_block slot prog) (g_cache r) (g_flash r) of
        (ok, c, fl) \<Rightarrow> (ok, r\<lparr>g_cache := c, g_flash := fl\<rparr>))"

definition region_read :: "u32 \<Rightarrow> flash_prog \<Rightarrow> u32 \<Rightarrow> region \<Rightarrow> bytes option \<times> region" where
  "region_read slot prog lba r =
     (if (lba + 1) * F12_SECTOR > slot then (None, r)
      else let r = cache_start r in
        case bc_read_sector (flash_read_block slot) (flash_write_block slot prog) lba (g_cache r) (g_flash r) of
          (b, c, fl) \<Rightarrow> (b, r\<lparr>g_cache := c, g_flash := fl\<rparr>))"

definition region_write :: "u32 \<Rightarrow> flash_prog \<Rightarrow> u32 \<Rightarrow> bytes \<Rightarrow> region \<Rightarrow> bool \<times> region" where
  "region_write slot prog lba src r =
     (if (lba + 1) * F12_SECTOR > slot then (False, r)
      else let r = cache_start r in
        case bc_write_sector (flash_read_block slot) (flash_write_block slot prog) lba src (g_cache r) (g_flash r) of
          (ok, c, fl) \<Rightarrow> (ok, r\<lparr>g_cache := c, g_flash := fl\<rparr>))"

definition region_release :: "region \<Rightarrow> region" where
  "region_release r = (let r = cache_start r in r\<lparr>g_cache := bc_discard (g_cache r)\<rparr>)"

section \<open>The contract of a disk of sectors\<close>

text \<open>
  \<open>sec\<close> is what the disk holds, \<open>good\<close> its invariant and \<open>nsec\<close> its size: reading returns the
  sector and changes nothing, writing replaces that sector and no other.
\<close>

locale sector_io =
  fixes rd :: "u32 \<Rightarrow> 'd \<Rightarrow> bytes option \<times> 'd"
    and wr :: "u32 \<Rightarrow> bytes \<Rightarrow> 'd \<Rightarrow> bool \<times> 'd"
    and sec :: "'d \<Rightarrow> u32 \<Rightarrow> bytes"
    and good :: "'d \<Rightarrow> bool"
    and nsec :: nat
  assumes rd_law: "good d \<Longrightarrow> unat lba < nsec \<Longrightarrow>
      \<exists>d'. rd lba d = (Some (sec d lba), d') \<and> good d' \<and> (\<forall>l. unat l < nsec \<longrightarrow> sec d' l = sec d l)"
    and wr_law: "good d \<Longrightarrow> unat lba < nsec \<Longrightarrow> length b = 512 \<Longrightarrow>
      \<exists>d'. wr lba b d = (True, d') \<and> good d' \<and>
        (\<forall>l. unat l < nsec \<longrightarrow> sec d' l = (if l = lba then b else sec d l))"
    and sec_length: "good d \<Longrightarrow> unat l < nsec \<Longrightarrow> length (sec d l) = 512"
begin

lemma read_write_same:
  assumes "good d" "unat lba < nsec" "length b = 512"
  shows "\<exists>d' d''. wr lba b d = (True, d') \<and> rd lba d' = (Some b, d'')"
  using wr_law[OF assms] rd_law[OF _ assms(2)] assms(2) by metis

end

text \<open>What the SDK's erase and program do: after them the block holds the given bytes.\<close>

definition program :: "u32 \<Rightarrow> bytes \<Rightarrow> flash \<Rightarrow> flash" where
  "program a b fl = (\<lambda>x. if unat (x - a) < length b then b ! unat (x - a) else fl x)"

definition flash_ok :: "u32 \<Rightarrow> flash_prog \<Rightarrow> bool" where
  "flash_ok slot prog =
     (4096 dvd unat slot \<and> unat slot \<le> 0x40000000 \<and>
      (\<forall>a b fl. length b = 4096 \<longrightarrow> prog a b fl = (True, program a b fl)))"

definition flash_block :: "u32 \<Rightarrow> flash \<Rightarrow> u32 \<Rightarrow> bytes" where
  "flash_block slot fl blk = map (\<lambda>i. fl (slot + blk * 4096 + of_nat i)) [0..<4096]"

text \<open>What a cache over a flash shows of each block.\<close>

definition view :: "u32 \<Rightarrow> block_cache \<Rightarrow> flash \<Rightarrow> u32 \<Rightarrow> bytes" where
  "view slot c fl b = (if block c = b then buf c else flash_block slot fl b)"

definition cache_ok :: "u32 \<Rightarrow> block_cache \<Rightarrow> flash \<Rightarrow> bool" where
  "cache_ok slot c fl = (block_size c = 4096 \<and> sector_size c = 512 \<and>
     (block c = BC_INVALID \<and> \<not> dirty c \<or> unat (block c) < unat slot div 4096 \<and> length (buf c) = 4096 \<and>
        (\<not> dirty c \<longrightarrow> buf c = flash_block slot fl (block c))))"

definition region_sec :: "u32 \<Rightarrow> region \<Rightarrow> u32 \<Rightarrow> bytes" where
  "region_sec slot r lba =
     take 512 (drop (512 * unat (lba mod 8))
       (if g_cache_ready r then view slot (g_cache r) (g_flash r) (lba div 8)
        else flash_block slot (g_flash r) (lba div 8)))"

definition region_ok :: "u32 \<Rightarrow> region \<Rightarrow> bool" where
  "region_ok slot r = (g_cache_ready r \<longrightarrow> cache_ok slot (g_cache r) (g_flash r))"

section \<open>The cache implements the contract\<close>

lemma block_below:
  assumes "unat blk < unat (slot :: u32) div 4096"
  shows "unat blk * 4096 + 4096 \<le> unat slot"
  using assms less_eq_div_iff_mult_less_eq[of 4096 "Suc (unat blk)" "unat slot"] by simp

lemma block_addr:
  assumes "unat blk < unat (slot :: u32) div 4096" "unat slot \<le> 0x40000000" "i < 4096"
  shows "unat (slot + blk * 4096 + of_nat i) = unat slot + unat blk * 4096 + i"
proof -
  note b = block_below[OF assms(1)]
  have 1: "unat (blk * 4096) = unat blk * 4096" using b assms(2) by (simp add: unat_word_ariths)
  have 2: "unat (slot + blk * 4096) = unat slot + unat blk * 4096" using 1 b assms(2) by (simp add: unat_word_ariths)
  have 3: "unat (of_nat i :: u32) = i" using assms(3) by (simp add: unat_of_nat_u32)
  show ?thesis using 2 3 b assms(2,3) by (simp add: unat_word_ariths)
qed

lemma block_range:
  assumes "unat blk < unat (slot :: u32) div 4096" "unat slot \<le> 0x40000000"
  shows "blk * 4096 + 4096 \<le> slot" "unat (blk * 4096) = unat blk * 4096"
proof -
  note b = block_below[OF assms(1)]
  show u: "unat (blk * 4096) = unat blk * 4096" using b assms(2) by (simp add: unat_word_ariths)
  have "unat (blk * 4096 + 4096) = unat blk * 4096 + 4096" using u b assms(2) by (simp add: unat_word_ariths)
  then show "blk * 4096 + 4096 \<le> slot" using b by (simp add: word_le_nat_alt)
qed

lemma flash_read_block_ok:
  assumes "unat blk < unat slot div 4096" "flash_ok slot prog"
  shows "flash_read_block slot blk fl = Some (flash_block slot fl blk)"
proof -
  have s: "unat slot \<le> 0x40000000" using assms(2) by (simp add: flash_ok_def)
  show ?thesis using block_range(1)[OF assms(1) s]
    by (simp add: flash_read_block_def storage_usb_read_def STORAGE_USB_BLOCK_def flash_block_def not_less)
qed

lemma program_block:
  assumes "unat blk < unat slot div 4096" "unat b' < unat slot div 4096" "flash_ok slot prog" "length b = 4096"
  shows "flash_block slot (program (slot + blk * 4096) b fl) b' = (if b' = blk then b else flash_block slot fl b')"
proof -
  have s: "unat slot \<le> 0x40000000" using assms(3) by (simp add: flash_ok_def)
  have "program (slot + blk * 4096) b fl (slot + b' * 4096 + of_nat i) =
      (if b' = blk then b ! i else fl (slot + b' * 4096 + of_nat i))" if i: "i < 4096" for i
  proof -
    let ?x = "slot + b' * 4096 + of_nat i" and ?a = "slot + blk * 4096"
    have x: "unat ?x = unat slot + unat b' * 4096 + i" by (rule block_addr[OF assms(2) s i])
    have a: "unat ?a = unat slot + unat blk * 4096" using block_addr[OF assms(1) s, of 0] by simp
    note big = s block_below[OF assms(2)] block_below[OF assms(1)]
    show ?thesis
    proof (cases "b' = blk")
      case True
      then have "?x - ?a = of_nat i" by simp
      moreover have "unat (of_nat i :: u32) = i" using i by (simp add: unat_of_nat_u32)
      ultimately show ?thesis using True i assms(4) by (simp only: program_def) simp
    next
      case False
      then have ne: "unat b' \<noteq> unat blk" by (metis word_unat_eq_iff)
      have "\<not> unat (?x - ?a) < 4096"
        using x a ne i big unfolding unat_sub_if' by (auto simp: not_le)
      then show ?thesis using False assms(4) by (simp add: program_def)
    qed
  qed
  then show ?thesis using assms(4) by (auto simp: flash_block_def intro!: nth_equalityI)
qed

lemma flash_write_block_ok:
  assumes "unat blk < unat slot div 4096" "flash_ok slot prog" "length b = 4096"
  shows "flash_write_block slot prog blk b fl = (True, program (slot + blk * 4096) b fl)"
proof -
  have s: "unat slot \<le> 0x40000000" using assms(2) by (simp add: flash_ok_def)
  note r = block_range[OF assms(1) s]
  have "unat ((blk * 4096) mod 4096) = 0" using r(2) by (simp add: unat_mod)
  then have "(blk * 4096) mod 4096 = 0" by (simp add: unat_eq_zero)
  then show ?thesis using r(1) assms(2,3)
    by (simp add: flash_write_block_def storage_usb_write_block_def STORAGE_USB_BLOCK_def not_less flash_ok_def)
qed

lemma not_invalid: "unat blk < unat (slot :: u32) div 4096 \<Longrightarrow> blk \<noteq> BC_INVALID"
proof
  assume a: "unat blk < unat slot div 4096" "blk = BC_INVALID"
  have "unat slot div 4096 \<le> unat slot" by simp
  moreover have "unat slot < 4294967296" by (rule unat_u32_less)
  moreover have "4294967295 < unat slot div 4096" using a by (simp add: BC_INVALID_def)
  ultimately show False by linarith
qed

lemma flush_ok:
  assumes c: "cache_ok slot c fl" and f: "flash_ok slot prog"
  shows "\<exists>c' fl'. bc_flush (flash_write_block slot prog) c fl = (True, c', fl') \<and> cache_ok slot c' fl' \<and> \<not> dirty c' \<and>
    (\<forall>b. unat b < unat slot div 4096 \<longrightarrow> view slot c' fl' b = view slot c fl b \<and> flash_block slot fl' b = view slot c fl b)"
proof (cases "block c = BC_INVALID \<or> \<not> dirty c")
  case True
  then show ?thesis using c not_invalid
    by (auto simp: bc_flush_def cache_ok_def view_def)
next
  case False
  then have b: "unat (block c) < unat slot div 4096" "length (buf c) = 4096" "dirty c" "block c \<noteq> BC_INVALID"
    using c by (auto simp: cache_ok_def)
  show ?thesis
    using c b program_block[OF b(1) _ f b(2)]
    by (auto simp: bc_flush_def flash_write_block_ok[OF b(1) f b(2)] cache_ok_def view_def)
qed

lemma load_ok:
  assumes c: "cache_ok slot c fl" and f: "flash_ok slot prog" and b: "unat blk < unat slot div 4096"
  shows "\<exists>c' fl'. bc_load (flash_read_block slot) (flash_write_block slot prog) blk c fl = (True, c', fl') \<and>
    cache_ok slot c' fl' \<and> block c' = blk \<and> length (buf c') = 4096 \<and>
    (\<forall>b. unat b < unat slot div 4096 \<longrightarrow> view slot c' fl' b = view slot c fl b)"
proof (cases "block c = blk")
  case True
  then show ?thesis using c not_invalid[OF b] by (auto simp: bc_load_def cache_ok_def)
next
  case False
  obtain c' fl' where fl: "bc_flush (flash_write_block slot prog) c fl = (True, c', fl')" "cache_ok slot c' fl'"
    "\<not> dirty c'" "\<And>b. unat b < unat slot div 4096 \<Longrightarrow> flash_block slot fl' b = view slot c fl b"
    using flush_ok[OF c f] by blast
  let ?c = "c'\<lparr>buf := flash_block slot fl' blk, block := blk\<rparr>"
  have "bc_load (flash_read_block slot) (flash_write_block slot prog) blk c fl = (True, ?c, fl')"
    using False by (simp add: bc_load_def fl(1) flash_read_block_ok[OF b f])
  moreover have "cache_ok slot ?c fl'" using fl(2,3) b by (simp add: cache_ok_def flash_block_def)
  moreover have "view slot ?c fl' b = view slot c fl b" if "unat b < unat slot div 4096" for b
    using fl(4)[OF that] by (simp add: view_def)
  ultimately show ?thesis by (auto simp: flash_block_def)
qed

lemma lba_facts:
  assumes "unat lba < unat (slot :: u32) div 512" "flash_ok slot prog"
  shows "unat (lba div 8) < unat slot div 4096" "\<not> (lba + 1) * 512 > slot" "unat (lba div 8) = unat lba div 8"
    "unat ((lba mod 8) * 512) = 512 * unat (lba mod 8)" "unat (lba mod 8) < 8"
proof -
  have m: "4096 dvd unat slot" "unat slot \<le> 0x40000000" using assms(2) by (simp_all add: flash_ok_def)
  obtain k where k: "unat slot = 4096 * k" using m(1) by blast
  show d: "unat (lba div 8) = unat lba div 8" by (simp add: unat_div)
  have "unat lba < 8 * k" using assms(1) k by simp
  then show "unat (lba div 8) < unat slot div 4096" using k d by (simp add: less_mult_imp_div_less mult.commute)
  show l: "unat (lba mod 8) < 8" by (simp add: unat_mod)
  show "unat ((lba mod 8) * 512) = 512 * unat (lba mod 8)" using l by (simp add: unat_word_ariths)
  have le: "(unat lba + 1) * 512 \<le> unat slot" using \<open>unat lba < 8 * k\<close> k by simp
  have a: "unat (lba + 1) = unat lba + 1" using le m(2) by (simp add: unat_word_ariths)
  have "unat ((lba + 1) * 512) = (unat lba + 1) * 512" using a le m(2) by (simp add: unat_word_ariths)
  then show "\<not> (lba + 1) * 512 > slot" using le by (simp add: word_less_nat_alt)
qed

lemma start_ok:
  assumes "region_ok slot r"
  shows "cache_ok slot (g_cache (cache_start r)) (g_flash (cache_start r))" "g_cache_ready (cache_start r)"
    "unat (lba div 8) < unat slot div 4096 \<Longrightarrow> region_sec slot (cache_start r) lba = region_sec slot r lba"
proof -
  show "cache_ok slot (g_cache (cache_start r)) (g_flash (cache_start r))" "g_cache_ready (cache_start r)"
    using assms by (simp_all add: cache_start_def region_ok_def cache_ok_def bc_init_def STORAGE_USB_BLOCK_def F12_SECTOR_def)
  show "region_sec slot (cache_start r) lba = region_sec slot r lba" if "unat (lba div 8) < unat slot div 4096"
    using not_invalid[OF that] by (simp add: cache_start_def region_sec_def view_def bc_init_def)
qed

lemma splice_sector:
  assumes "length b = 4096" "length s = 512" "i < 8" "j < 8"
  shows "take 512 (drop (512 * j) (splice (512 * i) s b)) = (if j = i then s else take 512 (drop (512 * j) b))"
proof -
  consider "j < i" | "j = i" | "i < j" by linarith
  then show ?thesis
  proof cases
    case 1
    then have "512 * j + 512 \<le> 512 * i" "512 * i \<le> 4096" using assms(3) by linarith+
    then show ?thesis using 1 assms by (simp add: splice_def drop_take)
  next
    case 2
    then show ?thesis using assms by (simp add: splice_def)
  next
    case 3
    then have "512 * i + 512 \<le> 512 * j" by linarith
    then show ?thesis using 3 assms by (simp add: splice_def)
  qed
qed

lemma sector_at_view:
  assumes "cache_ok slot c fl" "block c = lba div 8" "unat lba < unat slot div 512" "flash_ok slot prog"
  shows "sector_at c (lba mod 8) = take 512 (drop (512 * unat (lba mod 8)) (view slot c fl (lba div 8)))"
  using assms lba_facts[OF assms(3,4)] by (simp add: sector_at_def view_def cache_ok_def)

lemma bc_read_ok:
  assumes c: "cache_ok slot c fl" and f: "flash_ok slot prog" and lba: "unat lba < unat slot div 512"
  shows "\<exists>c' fl'. bc_read_sector (flash_read_block slot) (flash_write_block slot prog) lba c fl =
      (Some (take 512 (drop (512 * unat (lba mod 8)) (view slot c fl (lba div 8)))), c', fl') \<and>
    cache_ok slot c' fl' \<and> (\<forall>b. unat b < unat slot div 4096 \<longrightarrow> view slot c' fl' b = view slot c fl b)"
proof (cases "lba div 8 = block c")
  case True
  then show ?thesis
    using c sector_at_view[OF c _ lba f] by (auto simp: bc_read_sector_def Let_def cache_ok_def)
next
  case False
  note b = lba_facts(1)[OF lba f]
  obtain c' fl' where l: "bc_load (flash_read_block slot) (flash_write_block slot prog) (lba div 8) c fl = (True, c', fl')"
    "cache_ok slot c' fl'" "block c' = lba div 8"
    "\<And>b. unat b < unat slot div 4096 \<Longrightarrow> view slot c' fl' b = view slot c fl b"
    using load_ok[OF c f b] by blast
  have p: "block_size c div sector_size c = 8" using c by (simp add: cache_ok_def)
  show ?thesis
    using False l sector_at_view[OF l(2,3) lba f] b by (simp add: bc_read_sector_def Let_def p)
qed

lemma bc_write_ok:
  assumes c: "cache_ok slot c fl" and f: "flash_ok slot prog" and lba: "unat lba < unat slot div 512"
    and s: "length s = 512"
  shows "\<exists>c' fl'. bc_write_sector (flash_read_block slot) (flash_write_block slot prog) lba s c fl = (True, c', fl') \<and>
    cache_ok slot c' fl' \<and>
    (\<forall>b. unat b < unat slot div 4096 \<longrightarrow> view slot c' fl' b =
       (if b = lba div 8 then splice (512 * unat (lba mod 8)) s (view slot c fl b) else view slot c fl b))"
proof -
  note b = lba_facts[OF lba f]
  obtain c' fl' where l: "bc_load (flash_read_block slot) (flash_write_block slot prog) (lba div 8) c fl = (True, c', fl')"
    "cache_ok slot c' fl'" "block c' = lba div 8" "length (buf c') = 4096"
    "\<And>b. unat b < unat slot div 4096 \<Longrightarrow> view slot c' fl' b = view slot c fl b"
    using load_ok[OF c f b(1)] by blast
  have p: "block_size c div sector_size c = 8" "sector_size c' = 512" using c l(2) by (simp_all add: cache_ok_def)
  let ?c = "c'\<lparr>buf := splice (512 * unat (lba mod 8)) s (buf c'), dirty := True\<rparr>"
  have "bc_write_sector (flash_read_block slot) (flash_write_block slot prog) lba s c fl = (True, ?c, fl')"
    using b(4) s by (simp add: bc_write_sector_def Let_def p l(1))
  moreover have "cache_ok slot ?c fl'"
    using l(2-4) b(1,5) s not_invalid[OF b(1)] by (auto simp: cache_ok_def splice_def)
  moreover have "view slot ?c fl' bb = (if bb = lba div 8 then splice (512 * unat (lba mod 8)) s (view slot c fl bb) else view slot c fl bb)"
    if "unat bb < unat slot div 4096" for bb
    using l(3) l(5)[OF that] by (auto simp: view_def)
  ultimately show ?thesis by blast
qed

lemma view_length:
  "cache_ok slot c fl \<Longrightarrow> unat b < unat slot div 4096 \<Longrightarrow> length (view slot c fl b) = 4096"
  using not_invalid by (auto simp: view_def cache_ok_def flash_block_def)

lemma region_sec_started:
  "g_cache_ready r \<Longrightarrow> region_sec slot r lba = take 512 (drop (512 * unat (lba mod 8)) (view slot (g_cache r) (g_flash r) (lba div 8)))"
  by (simp add: region_sec_def)


lemma region_read_ok:
  assumes r: "region_ok slot r" and f: "flash_ok slot prog" and lba: "unat lba < unat slot div 512"
  shows "\<exists>r'. region_read slot prog lba r = (Some (region_sec slot r lba), r') \<and> region_ok slot r' \<and>
    (\<forall>l. unat l < unat slot div 512 \<longrightarrow> region_sec slot r' l = region_sec slot r l)"
proof -
  let ?r = "cache_start r"
  note st = start_ok[OF r]
  obtain c fl where b: "bc_read_sector (flash_read_block slot) (flash_write_block slot prog) lba (g_cache ?r) (g_flash ?r) =
      (Some (region_sec slot ?r lba), c, fl)" "cache_ok slot c fl"
    "\<And>b. unat b < unat slot div 4096 \<Longrightarrow> view slot c fl b = view slot (g_cache ?r) (g_flash ?r) b"
    using bc_read_ok[OF st(1) f lba] region_sec_started[OF st(2)] by metis
  let ?r' = "?r\<lparr>g_cache := c, g_flash := fl\<rparr>"
  have "region_read slot prog lba r = (Some (region_sec slot r lba), ?r')"
    using lba_facts[OF lba f] b(1) st(3)[of lba] by (simp add: region_read_def F12_SECTOR_def Let_def)
  moreover have "region_ok slot ?r'" using b(2) by (simp add: region_ok_def)
  moreover have "region_sec slot ?r' l = region_sec slot r l" if "unat l < unat slot div 512" for l
    using st(3)[OF lba_facts(1)[OF that f]] b(3)[OF lba_facts(1)[OF that f]] st(2) by (simp add: region_sec_started)
  ultimately show ?thesis by blast
qed

lemma region_write_ok:
  assumes r: "region_ok slot r" and f: "flash_ok slot prog" and lba: "unat lba < unat slot div 512" and s: "length s = 512"
  shows "\<exists>r'. region_write slot prog lba s r = (True, r') \<and> region_ok slot r' \<and>
    (\<forall>l. unat l < unat slot div 512 \<longrightarrow> region_sec slot r' l = (if l = lba then s else region_sec slot r l))"
proof -
  let ?r = "cache_start r"
  note st = start_ok[OF r]
  obtain c fl where b: "bc_write_sector (flash_read_block slot) (flash_write_block slot prog) lba s (g_cache ?r) (g_flash ?r) =
      (True, c, fl)" "cache_ok slot c fl"
    "\<And>b. unat b < unat slot div 4096 \<Longrightarrow> view slot c fl b = (if b = lba div 8
       then splice (512 * unat (lba mod 8)) s (view slot (g_cache ?r) (g_flash ?r) b) else view slot (g_cache ?r) (g_flash ?r) b)"
    using bc_write_ok[OF st(1) f lba s] by blast
  let ?r' = "?r\<lparr>g_cache := c, g_flash := fl\<rparr>"
  have "region_write slot prog lba s r = (True, ?r')"
    using lba_facts[OF lba f] b(1) by (simp add: region_write_def F12_SECTOR_def Let_def)
  moreover have "region_ok slot ?r'" using b(2) by (simp add: region_ok_def)
  moreover have "region_sec slot ?r' l = (if l = lba then s else region_sec slot r l)" if l: "unat l < unat slot div 512" for l
  proof -
    note ll = lba_facts[OF l f] and lb = lba_facts[OF lba f]
    have same: "l = lba \<longleftrightarrow> l div 8 = lba div 8 \<and> unat (l mod 8) = unat (lba mod 8)"
      by (metis word_mod_div_equality word_unat_eq_iff)
    have len: "length (view slot (g_cache ?r) (g_flash ?r) (l div 8)) = 4096" by (rule view_length[OF st(1) ll(1)])
    have "region_sec slot ?r' l = take 512 (drop (512 * unat (l mod 8)) (view slot c fl (l div 8)))"
      using st(2) by (simp add: region_sec_started)
    also have "\<dots> = (if l = lba then s else region_sec slot ?r l)"
      using b(3)[OF ll(1)] splice_sector[OF len s lb(5) ll(5)] same st(2) by (auto simp: region_sec_started)
    finally show ?thesis using st(3)[OF ll(1)] by simp
  qed
  ultimately show ?thesis by blast
qed

lemma region_sector_io:
  assumes "flash_ok slot prog"
  shows "sector_io (region_read slot prog) (region_write slot prog) (region_sec slot) (region_ok slot) (unat slot div 512)"
proof
  show "length (region_sec slot r l) = 512" if "region_ok slot r" "unat l < unat slot div 512" for r l
    using view_length[OF start_ok(1)[OF that(1)] lba_facts(1)[OF that(2) assms]] lba_facts(5)[OF that(2) assms]
      start_ok(2)[OF that(1)]
    by (subst start_ok(3)[OF that(1) lba_facts(1)[OF that(2) assms], symmetric]) (simp add: region_sec_started)
qed (use region_read_ok region_write_ok assms in blast)+

text \<open>The drive on an ideal flash of the RP2350's size.\<close>

definition ideal_prog :: flash_prog where
  "ideal_prog a b fl = (True, program a b fl)"

lemma ideal_flash: "flash_ok 0x80000 ideal_prog"
  by (simp add: flash_ok_def ideal_prog_def)

interpretation drive: sector_io "region_read 0x80000 ideal_prog" "region_write 0x80000 ideal_prog"
  "region_sec 0x80000" "region_ok 0x80000" "unat (0x80000 :: u32) div 512"
  by (rule region_sector_io[OF ideal_flash])

subsection \<open>The drive as an array of sectors\<close>

definition put_sector :: "u32 \<times> bytes \<Rightarrow> (u32 \<Rightarrow> bytes) \<Rightarrow> u32 \<Rightarrow> bytes" where
  "put_sector w m = m(fst w := snd w)"

fun run_writes :: "u32 \<Rightarrow> flash_prog \<Rightarrow> (u32 \<times> bytes) list \<Rightarrow> region \<Rightarrow> region" where
  "run_writes slot prog [] r = r"
| "run_writes slot prog ((lba, b) # ws) r = run_writes slot prog ws (snd (region_write slot prog lba b r))"

lemma fold_upd_cong: "m l = m' l \<Longrightarrow> fold put_sector ws m l = fold put_sector ws m' l"
proof (induction ws arbitrary: m m')
  case (Cons w ws)
  have "put_sector w m l = put_sector w m' l" by (simp add: put_sector_def Cons.prems)
  then show ?case using Cons.IH[of "put_sector w m" "put_sector w m'"] by simp
qed simp

lemma run_writes_ok:
  assumes "flash_ok slot prog" "region_ok slot r" "\<forall>(l, b) \<in> set ws. unat l < unat slot div 512 \<and> length b = 512"
  shows "region_ok slot (run_writes slot prog ws r) \<and>
    (\<forall>l. unat l < unat slot div 512 \<longrightarrow> region_sec slot (run_writes slot prog ws r) l =
       fold put_sector ws (region_sec slot r) l)"
  using assms(2,3)
proof (induction ws arbitrary: r)
  case (Cons w ws)
  obtain k b where w: "w = (k, b)" by fastforce
  have k: "unat k < unat slot div 512" "length b = 512" using Cons.prems(2) w by auto
  obtain r' where r': "region_write slot prog k b r = (True, r')" "region_ok slot r'"
    "\<And>l. unat l < unat slot div 512 \<Longrightarrow> region_sec slot r' l = (if l = k then b else region_sec slot r l)"
    using region_write_ok[OF Cons.prems(1) assms(1) k] by blast
  have "region_sec slot r' l = (put_sector (k, b) (region_sec slot r)) l" if "unat l < unat slot div 512" for l
    using r'(3)[OF that] by (simp add: put_sector_def)
  then have eq: "fold put_sector ws (region_sec slot r') l =
      fold put_sector ws (put_sector (k, b) (region_sec slot r)) l" if "unat l < unat slot div 512" for l
    using that fold_upd_cong by blast
  have "region_ok slot (run_writes slot prog ws r') \<and> (\<forall>l. unat l < unat slot div 512 \<longrightarrow>
      region_sec slot (run_writes slot prog ws r') l = fold put_sector ws (region_sec slot r') l)"
    by (rule Cons.IH[OF r'(2)]) (use Cons.prems(2) in simp)
  then show ?case using eq by (simp add: w r'(1))
qed simp

text \<open>
  C26. The drive is an array of sectors.  After any sequence of sector writes to addresses on
  the drive, in whatever order they move between flash blocks, every sector reads back as
  the last data written to it or, if it was not written, as what the drive held; and a flush
  puts exactly that array into the flash.
\<close>

theorem drive_is_sector_array:
  assumes "flash_ok slot prog" "region_ok slot r"
    and "\<forall>(l, b) \<in> set ws. unat l < unat slot div 512 \<and> length b = 512" "unat lba < unat slot div 512"
  defines "after \<equiv> run_writes slot prog ws r" and "arr \<equiv> fold put_sector ws (region_sec slot r)"
  shows "fst (region_read slot prog lba after) = Some (arr lba) \<and>
    fst (blk_flush slot prog after) \<and>
    take 512 (drop (512 * unat (lba mod 8)) (flash_block slot (g_flash (snd (blk_flush slot prog after))) (lba div 8))) = arr lba"
proof -
  have a: "region_ok slot after" "region_sec slot after lba = arr lba"
    using run_writes_ok[OF assms(1-3)] assms(4) unfolding after_def arr_def by auto
  note st = start_ok[OF a(1)] and b = lba_facts(1)[OF assms(4,1)]
  obtain c fl where fl: "bc_flush (flash_write_block slot prog) (g_cache (cache_start after)) (g_flash (cache_start after)) = (True, c, fl)"
    "\<And>b. unat b < unat slot div 4096 \<Longrightarrow> flash_block slot fl b = view slot (g_cache (cache_start after)) (g_flash (cache_start after)) b"
    using flush_ok[OF st(1) assms(1)] by blast
  have "blk_flush slot prog after = (True, (cache_start after)\<lparr>g_cache := c, g_flash := fl\<rparr>)"
    by (simp add: blk_flush_def Let_def fl(1))
  moreover have "take 512 (drop (512 * unat (lba mod 8)) (flash_block slot fl (lba div 8))) = arr lba"
    using fl(2)[OF b] st(2) st(3)[OF b] a(2) by (simp add: region_sec_started)
  ultimately show ?thesis using region_read_ok[OF a(1) assms(1,4)] a(2) by auto
qed

definition blank_region :: region where
  "blank_region = \<lparr>g_cache = bc_init [] 0 0, g_cache_ready = False, g_flash = (\<lambda>_. 0xFF)\<rparr>"

lemma blank_ok: "region_ok slot blank_region"
  by (simp add: region_ok_def blank_region_def)

theorem drive_is_sector_array_witness:
  "fst (region_read 0x80000 ideal_prog 3
     (run_writes 0x80000 ideal_prog [(3, replicate 512 7), (800, replicate 512 1), (3, replicate 512 9)] blank_region)) =
   Some (replicate 512 9)"
  using drive_is_sector_array[OF ideal_flash, of blank_region "[(3, replicate 512 7), (800, replicate 512 1), (3, replicate 512 9)]" 3]
  by (simp add: blank_ok put_sector_def)

text \<open>
  The range checks of the drive wrap.  \<open>(lba + 1) * 512\<close> and \<open>off + len\<close> are computed in 32
  bits, so the last block numbers pass every check: a host that reads sector 0xFFFFFFFF gets
  the 512 bytes below the drive's flash region, the end of the running firmware, and one that
  writes it has the 4 KB block there erased and reprogrammed at the next flush.
\<close>

theorem drive_range_wraps:
  fixes fl :: flash
  assumes "flash_ok slot prog" "length s = 512"
  defines "r \<equiv> blank_region\<lparr>g_flash := fl\<rparr>"
  shows "fst (region_read slot prog 0xFFFFFFFF r) = Some (map (\<lambda>i. fl (slot - 512 + of_nat i)) [0..<512]) \<and>
    g_flash (snd (blk_flush slot prog (snd (region_write slot prog 0xFFFFFFFF s r)))) =
      program (slot - 4096) (map (\<lambda>i. fl (slot - 4096 + of_nat i)) [0..<3584] @ s) fl"
proof -
  let ?B = "map (\<lambda>i. fl (slot - 4096 + of_nat i)) [0..<4096]"
  let ?c = "\<lparr>buf = ?B, block_size = 4096, sector_size = 512, block = 0x1FFFFFFF, dirty = False\<rparr>"
  have rd: "storage_usb_read slot (- 4096) 4096 fl = Some ?B"
    by (simp add: storage_usb_read_def)
  have off: "(0x1FFFFFFF :: u32) * 4096 = - 4096" by simp
  have frb: "flash_read_block slot 0x1FFFFFFF fl = Some ?B"
    unfolding flash_read_block_def STORAGE_USB_BLOCK_def off by (rule rd)
  have load: "bc_load (flash_read_block slot) (flash_write_block slot prog) 0x1FFFFFFF (bc_init [] 4096 512) fl = (True, ?c, fl)"
    using frb by (simp add: bc_load_def bc_flush_def bc_init_def BC_INVALID_def)
  have st: "cache_start r = r\<lparr>g_cache := bc_init [] 4096 512, g_cache_ready := True\<rparr>"
    by (simp add: cache_start_def r_def blank_region_def bc_init_def STORAGE_USB_BLOCK_def F12_SECTOR_def)
  have "((0xFFFFFFFF :: u32) + 1) * 512 = 0" by simp
  then have guard: "\<not> ((0xFFFFFFFF :: u32) + 1) * F12_SECTOR > slot" unfolding F12_SECTOR_def by (simp only: word_not_simps) simp
  have gf: "g_flash r = fl" by (simp add: r_def)
  have sector: "take 512 (drop 3584 ?B) = map (\<lambda>i. fl (slot - 512 + of_nat i)) [0..<512]"
    by (rule nth_equalityI) (simp_all add: algebra_simps)
  have read: "fst (region_read slot prog 0xFFFFFFFF r) = Some (map (\<lambda>i. fl (slot - 512 + of_nat i)) [0..<512])"
    unfolding region_read_def if_not_P[OF guard]
    using load sector
    by (simp add: st gf bc_read_sector_def Let_def bc_init_def BC_INVALID_def sector_at_def)
  let ?b = "map (\<lambda>i. fl (slot - 4096 + of_nat i)) [0..<3584] @ s"
  have sp: "splice 3584 s ?B = ?b" using assms(2) by (simp add: splice_def take_map)
  have written: "region_write slot prog 0xFFFFFFFF s r =
      (True, r\<lparr>g_cache := ?c\<lparr>buf := ?b, dirty := True\<rparr>, g_cache_ready := True, g_flash := fl\<rparr>)"
    unfolding region_write_def if_not_P[OF guard]
    using load sp assms(2) gf
    by (simp add: st bc_write_sector_def Let_def bc_init_def)
  have "flash_write_block slot prog 0x1FFFFFFF ?b fl = (True, program (slot - 4096) ?b fl)"
    unfolding flash_write_block_def STORAGE_USB_BLOCK_def off
    using assms(1,2) by (simp add: storage_usb_write_block_def STORAGE_USB_BLOCK_def flash_ok_def)
  then have "g_flash (snd (blk_flush slot prog (snd (region_write slot prog 0xFFFFFFFF s r)))) = program (slot - 4096) ?b fl"
    using gf by (simp add: written blk_flush_def cache_start_def bc_flush_def BC_INVALID_def Let_def)
  then show ?thesis using read by blast
qed

theorem drive_range_wraps_witness:
  "fst (region_read 0x80000 ideal_prog 0xFFFFFFFF (blank_region\<lparr>g_flash := (\<lambda>a. if a < 0x80000 then 0x55 else 0)\<rparr>)) =
     Some (replicate 512 0x55)"
proof -
  have "map (\<lambda>i. if (0x7FE00 :: u32) + of_nat i < 0x80000 then (0x55 :: u8) else 0) [0..<512] = replicate 512 0x55"
  proof (rule nth_equalityI)
    fix i assume "i < length (map (\<lambda>i. if (0x7FE00 :: u32) + of_nat i < 0x80000 then (0x55 :: u8) else 0) [0..<512])"
    then have i: "i < 512" by simp
    then have "unat ((0x7FE00 :: u32) + of_nat i) = 0x7FE00 + i" by (simp add: unat_u32_add_small unat_of_nat_u32)
    then show "map (\<lambda>i. if (0x7FE00 :: u32) + of_nat i < 0x80000 then (0x55 :: u8) else 0) [0..<512] ! i =
        replicate 512 0x55 ! i" using i by (simp add: word_less_nat_alt)
  qed simp
  then show ?thesis
    using drive_range_wraps[OF ideal_flash, of "replicate 512 0" "\<lambda>a. if a < 0x80000 then 0x55 else 0"] by simp
qed

end
