(* ===== verification/FatNames.thy ===== *)
theory FatNames
  imports CLib
begin

text \<open>
  Directory entries of the transfer drive: the parts of \<open>os/core/fatview.cpp\<close> that encode a
  32-byte entry (time stamps, 8.3 names with the case bits, long-name entries) and the parts
  of \<open>os/core/fat12.cpp\<close> that decode one.  The main theorem is that a time stamp survives the
  trip through the entry.
\<close>

section \<open>Model\<close>

subsection \<open>Bytes in little-endian order\<close>

definition rd16 :: "bytes \<Rightarrow> nat \<Rightarrow> u16" where
  "rd16 p k = ucast (p ! k) OR push_bit 8 (ucast (p ! (k + 1)))"

definition rd32 :: "bytes \<Rightarrow> nat \<Rightarrow> u32" where
  "rd32 p k = ucast (p ! k) OR push_bit 8 (ucast (p ! (k + 1))) OR
     push_bit 16 (ucast (p ! (k + 2))) OR push_bit 24 (ucast (p ! (k + 3)))"

definition put16 :: "nat \<Rightarrow> u16 \<Rightarrow> bytes \<Rightarrow> bytes" where
  "put16 k v p = p[k := ucast v, k + 1 := ucast (drop_bit 8 v)]"

definition put32 :: "nat \<Rightarrow> u32 \<Rightarrow> bytes \<Rightarrow> bytes" where
  "put32 k v p = p[k := ucast v, k + 1 := ucast (drop_bit 8 v), k + 2 := ucast (drop_bit 16 v),
     k + 3 := ucast (drop_bit 24 v)]"

definition put_bytes :: "nat \<Rightarrow> bytes \<Rightarrow> bytes \<Rightarrow> bytes" where
  "put_bytes k s p = take k p @ s @ drop (k + length s) p"


subsection \<open>Time stamps\<close>

definition leap_year :: "nat \<Rightarrow> bool" where
  "leap_year y = (y mod 4 = 0 \<and> y mod 100 \<noteq> 0 \<or> y mod 400 = 0)"

definition year_len :: "nat \<Rightarrow> nat" where
  "year_len y = (if leap_year y then 366 else 365)"

function year_loop :: "nat \<Rightarrow> nat \<Rightarrow> nat \<times> nat" where
  "year_loop days year =
     (if days < year_len year then (days, year) else year_loop (days - year_len year) (year + 1))"
  by pat_completeness auto
termination by (relation "measure fst") (auto simp: year_len_def split: if_splits)

definition mlen :: "nat list" where
  "mlen = [31, 28, 31, 30, 31, 30] @ [31, 31, 30, 31, 30, 31]"

definition month_len :: "bool \<Rightarrow> nat \<Rightarrow> nat" where
  "month_len leap month = mlen ! month + (if month = 1 \<and> leap then 1 else 0)"

function month_loop :: "bool \<Rightarrow> nat \<Rightarrow> nat \<Rightarrow> nat \<times> nat" where
  "month_loop leap days month =
     (if month < 12 \<and> \<not> days < month_len leap month
      then month_loop leap (days - month_len leap month) (month + 1) else (days, month))"
  by pat_completeness auto
termination by (relation "measure (\<lambda>(_, _, m). 12 - m)") auto

declare year_loop.simps [simp del] month_loop.simps [simp del]

definition FAT_EPOCH :: u32 where "FAT_EPOCH = 315532800"

definition pack_date :: "nat \<Rightarrow> nat \<Rightarrow> nat \<Rightarrow> u16" where
  "pack_date y m d = push_bit 9 (of_nat y) OR push_bit 5 (of_nat m) OR of_nat d"

definition pack_time :: "nat \<Rightarrow> nat \<Rightarrow> nat \<Rightarrow> u16" where
  "pack_time h m s = push_bit 11 (of_nat h) OR push_bit 5 (of_nat m) OR of_nat s"

definition fat_time_encode :: "u32 \<Rightarrow> u16 \<times> u16" where
  "fat_time_encode epoch =
     (if epoch < FAT_EPOCH then (push_bit 5 1 OR 1, 0)
      else let secs = unat (epoch - FAT_EPOCH); days = secs div 86400; rem = secs mod 86400;
               hour = rem div 3600; mn = rem mod 3600 div 60; sc = rem mod 60;
               (days, year) = year_loop days 1980;
               (days, month) = month_loop (leap_year year) days 0;
               y = (if year - 1980 > 127 then 127 else year - 1980)
           in (pack_date y (month + 1) (days + 1), pack_time hour mn (sc div 2)))"

text \<open>
  Decoding.  The month of an entry is four bits and comes from the volume; \<open>past\<close> stands for
  what lies behind the twelve-entry table, which months 13 to 15 read.
\<close>

definition cum :: "u32 list" where
  "cum = [0, 31, 59, 90, 120, 151] @ [181, 212, 243, 273, 304, 334]"

definition cum_at :: "(nat \<Rightarrow> u32) \<Rightarrow> nat \<Rightarrow> u32" where
  "cum_at past i = (if i < 12 then cum ! i else past (i - 12))"

definition days_before :: "nat \<Rightarrow> u32" where
  "days_before year = sum_list (map (\<lambda>y. of_nat (year_len y)) [1970..<year])"

definition fat_epoch :: "(nat \<Rightarrow> u32) \<Rightarrow> u16 \<Rightarrow> u16 \<Rightarrow> u32" where
  "fat_epoch past date time =
     (if date = 0 then 0
      else let year = 1980 + unat (drop_bit 9 date AND 0x7F); month = unat (drop_bit 5 date AND 0x0F);
               day = unat (date AND 0x1F)
           in if month = 0 \<or> day = 0 then 0
              else let days = days_before year + cum_at past (month - 1);
                       days = (if leap_year year \<and> month > 2 then days + 1 else days);
                       days = days + (of_nat day - 1);
                       secs = ucast (drop_bit 11 time AND 0x1F) * 3600 + ucast (drop_bit 5 time AND 0x3F) * 60 +
                              ucast (time AND 0x1F) * 2
                   in days * 86400 + secs)"

subsection \<open>8.3 names\<close>

definition FAT_CASE_BASE_LOWER :: u8 where "FAT_CASE_BASE_LOWER = 0x08"
definition FAT_CASE_EXT_LOWER :: u8 where "FAT_CASE_EXT_LOWER = 0x10"

definition is_lower :: "char \<Rightarrow> bool" where "is_lower c = (CHR ''a'' \<le> c \<and> c \<le> CHR ''z'')"
definition is_upper :: "char \<Rightarrow> bool" where "is_upper c = (CHR ''A'' \<le> c \<and> c \<le> CHR ''Z'')"

definition to_upper :: "char \<Rightarrow> char" where
  "to_upper c = (if is_lower c then char_of (of_char c - 32 :: nat) else c)"

definition to_lower :: "char \<Rightarrow> char" where
  "to_lower c = (if is_upper c then char_of (of_char c + 32 :: nat) else c)"

definition illegal_83 :: "char \<Rightarrow> bool" where
  "illegal_83 c = (c < CHR 0x20 \<or> c = CHR 0x22 \<or> c \<in> set ''*+,./:;<=>?[]|'' \<or> c = CHR 0x5C)"

text \<open>One half of the name: what is stored, and which cases were seen.\<close>

fun half_83 :: "nat \<Rightarrow> string \<Rightarrow> string \<Rightarrow> bool \<Rightarrow> bool \<Rightarrow> string \<times> bool \<times> bool" where
  "half_83 cap [] out lo up = (out, lo, up)"
| "half_83 cap (c # cs) out lo up =
     (if length out \<ge> cap then (out, lo, up)
      else if illegal_83 c then half_83 cap cs out lo up
      else half_83 cap cs (out @ [to_upper c]) (lo \<or> is_lower c) (up \<or> is_upper c))"

definition last_dot :: "string \<Rightarrow> (string \<times> string) option" where
  "last_dot name =
     (case dropWhile (\<lambda>c. c \<noteq> CHR ''.'') (rev name) of
        [] \<Rightarrow> None
      | _ # r \<Rightarrow> Some (rev r, rev (takeWhile (\<lambda>c. c \<noteq> CHR ''.'') (rev name))))"

definition pad :: "nat \<Rightarrow> string \<Rightarrow> string" where
  "pad n s = s @ replicate (n - length s) CHR '' ''"

definition fat_shortname :: "string \<Rightarrow> (string \<times> u8) option" where
  "fat_shortname name =
     (case name of [] \<Rightarrow> None
      | c # _ \<Rightarrow> if c = CHR ''.'' then None
        else let (base, ext) = (case last_dot name of Some (b, e) \<Rightarrow> (b, e) | None \<Rightarrow> (name, []));
                 (b, bl, bu) = half_83 8 base [] False False;
                 (x, xl, xu) = half_83 3 ext [] False False;
                 flags = (if bl \<and> \<not> bu then FAT_CASE_BASE_LOWER else 0) OR (if xl \<and> \<not> xu then FAT_CASE_EXT_LOWER else 0);
                 out = pad 8 b @ pad 3 x
             in if b = [] then None
                else Some (if hd out = CHR 0xE5 then CHR 0x05 # tl out else out, flags))"

definition render_83 :: "string \<Rightarrow> u8 \<Rightarrow> string" where
  "render_83 name flags =
     (let lb = flags AND FAT_CASE_BASE_LOWER \<noteq> 0; le = flags AND FAT_CASE_EXT_LOWER \<noteq> 0;
          low = (\<lambda>f c. if f then to_lower c else c);
          base = map (low lb) (takeWhile (\<lambda>c. c \<noteq> CHR '' '') (take 8 name));
          ext = takeWhile (\<lambda>c. c \<noteq> CHR '' '') (take 3 (drop 8 name))
      in if name ! 8 \<noteq> CHR '' '' then base @ CHR ''.'' # map (low le) ext else base)"

definition fat_name_fits_83 :: "string \<Rightarrow> bool" where
  "fat_name_fits_83 name =
     (name = [] \<or> (case fat_shortname name of None \<Rightarrow> False | Some (sn, flags) \<Rightarrow> render_83 sn flags = name))"

definition fat_entries_for :: "string \<Rightarrow> nat" where
  "fat_entries_for lname = (if fat_name_fits_83 lname then 1 else 1 + (length lname + 12) div 13)"

text \<open>The name an 8.3 entry shows (\<open>short_name\<close> of \<open>fat12.cpp\<close>).\<close>

definition to_bytes :: "string \<Rightarrow> bytes" where "to_bytes s = map of_char s"

definition of_bytes :: "bytes \<Rightarrow> string" where "of_bytes b = map (\<lambda>x. char_of (unat x)) b"

definition short_name :: "bytes \<Rightarrow> string" where
  "short_name e = cstr (render_83 (of_bytes (take 11 e)) (e ! 12))"

subsection \<open>Directory entries\<close>

definition FAT_ATTR_VOLUME_ID :: u8 where "FAT_ATTR_VOLUME_ID = 0x08"
definition FAT_ATTR_ARCHIVE :: u8 where "FAT_ATTR_ARCHIVE = 0x20"

definition fat_dirent :: "string \<Rightarrow> u8 \<Rightarrow> u32 \<Rightarrow> u32 \<Rightarrow> u32 \<Rightarrow> u8 \<Rightarrow> bytes" where
  "fat_dirent name attr first_cluster fsize mtime case_flags =
     (let e = put_bytes 0 (to_bytes name) (replicate 32 0); e = e[11 := attr, 12 := case_flags];
          (d, t) = fat_time_encode mtime;
          e = put16 14 t e; e = put16 16 d e; e = put16 18 d e; e = put16 22 t e; e = put16 24 d e;
          e = put16 20 0 e; e = put16 26 (ucast first_cluster) e
      in put32 28 fsize e)"

definition fat_dirent_label :: "string \<Rightarrow> bytes" where
  "fat_dirent_label label = fat_dirent (pad 11 (take 11 label)) FAT_ATTR_VOLUME_ID 0 0 0 0"

definition lfn_off :: "nat list" where
  "lfn_off = [1, 3, 5, 7, 9] @ [14, 16, 18, 20, 22, 24] @ [28, 30]"

definition lfn_checksum :: "string \<Rightarrow> u8" where
  "lfn_checksum name83 = fold (\<lambda>c sum. push_bit 7 (sum AND 1) + drop_bit 1 sum + of_char c) (take 11 name83) 0"

definition lfn_char :: "string \<Rightarrow> nat \<Rightarrow> u16" where
  "lfn_char name idx = (if idx < length name then of_char (name ! idx) else if idx = length name then 0 else 0xFFFF)"

text \<open>One long-name entry, as \<open>f12_write\<close> lays it out.\<close>

definition lfn_entry :: "string \<Rightarrow> string \<Rightarrow> nat \<Rightarrow> bool \<Rightarrow> bytes" where
  "lfn_entry name name83 sq lastp =
     (let e = (replicate 32 0)[0 := of_nat sq OR (if lastp then 0x40 else 0), 11 := 0x0F, 13 := lfn_checksum name83]
      in fold (\<lambda>k e. put16 (lfn_off ! k) (lfn_char name ((sq - 1) * 13 + k)) e) [0..<13] e)"

text \<open>
  Gathering a long name back from one entry into the zeroed name buffer; the boolean says
  the name is still usable.
\<close>

definition F12_MAXNAME :: nat where "F12_MAXNAME = 64"

fun lfn_chars :: "bytes \<Rightarrow> nat \<Rightarrow> nat list \<Rightarrow> string \<Rightarrow> string \<times> bool" where
  "lfn_chars e base [] name = (name, True)"
| "lfn_chars e base (k # ks) name =
     (let idx = base + k; c = rd16 e (lfn_off ! k) in
      if c = 0xFFFF \<or> c = 0 then lfn_chars e base ks name
      else if idx \<ge> F12_MAXNAME - 1 then (name, False)
      else if c > 0x7F then (name, False)
      else lfn_chars e base ks (name[idx := char_of (unat c)]))"

definition lfn_gather :: "bytes \<Rightarrow> string \<Rightarrow> string \<times> bool" where
  "lfn_gather e name =
     (let sq = unat (e ! 0 AND 0x1F) in
      if sq = 0 then (name, False) else lfn_chars e ((sq - 1) * 13) [0..<13] name)"

definition ieq :: "string \<Rightarrow> string \<Rightarrow> bool" where
  "ieq a b = (map to_lower a = map to_lower b)"

section \<open>Time stamps survive\<close>

lemma take_bit_small: "n < 2 ^ k \<Longrightarrow> k < 16 \<Longrightarrow> take_bit k (of_nat n :: u16) = of_nat n"
  by (metis of_nat_take_bit take_bit_nat_eq_self)

lemma date_fields:
  assumes "y < 128" "m < 16" "d < 32"
  shows "drop_bit 9 (pack_date y m d) AND 0x7F = of_nat y" "drop_bit 5 (pack_date y m d) AND 0x0F = of_nat m"
    "pack_date y m d AND 0x1F = of_nat d"
proof -
  have t: "take_bit 7 (of_nat y :: u16) = of_nat y" "take_bit 4 (of_nat m :: u16) = of_nat m"
    "take_bit 5 (of_nat d :: u16) = of_nat d" using assms by (auto intro!: take_bit_small)
  have k: "(0x7F :: u16) = mask 7" "(0x0F :: u16) = mask 4" "(0x1F :: u16) = mask 5"
    by (simp_all add: mask_eq_exp_minus_1)
  let ?p = "push_bit 9 (take_bit 7 (of_nat y)) OR push_bit 5 (take_bit 4 (of_nat m)) OR take_bit 5 (of_nat d) :: u16"
  have p: "pack_date y m d = ?p" by (simp only: pack_date_def t)
  have "drop_bit 9 ?p AND mask 7 = take_bit 7 (of_nat y)"
    by (rule bit_word_eqI) (auto simp: bit_simps)
  moreover have "drop_bit 5 ?p AND mask 4 = take_bit 4 (of_nat m)"
    by (rule bit_word_eqI) (auto simp: bit_simps)
  moreover have "?p AND mask 5 = take_bit 5 (of_nat d)"
    by (rule bit_word_eqI) (auto simp: bit_simps)
  ultimately show "drop_bit 9 (pack_date y m d) AND 0x7F = of_nat y" "drop_bit 5 (pack_date y m d) AND 0x0F = of_nat m"
    "pack_date y m d AND 0x1F = of_nat d"
    unfolding p k by (simp_all only: t)
qed

lemma time_fields:
  assumes "h < 32" "m < 64" "s < 32"
  shows "drop_bit 11 (pack_time h m s) AND 0x1F = of_nat h" "drop_bit 5 (pack_time h m s) AND 0x3F = of_nat m"
    "pack_time h m s AND 0x1F = of_nat s"
proof -
  have t: "take_bit 5 (of_nat h :: u16) = of_nat h" "take_bit 6 (of_nat m :: u16) = of_nat m"
    "take_bit 5 (of_nat s :: u16) = of_nat s" using assms by (auto intro!: take_bit_small)
  have k: "(0x1F :: u16) = mask 5" "(0x3F :: u16) = mask 6" by (simp_all add: mask_eq_exp_minus_1)
  let ?p = "push_bit 11 (take_bit 5 (of_nat h)) OR push_bit 5 (take_bit 6 (of_nat m)) OR take_bit 5 (of_nat s) :: u16"
  have p: "pack_time h m s = ?p" by (simp only: pack_time_def t)
  have "drop_bit 11 ?p AND mask 5 = take_bit 5 (of_nat h)"
    by (rule bit_word_eqI) (auto simp: bit_simps)
  moreover have "drop_bit 5 ?p AND mask 6 = take_bit 6 (of_nat m)"
    by (rule bit_word_eqI) (auto simp: bit_simps)
  moreover have "?p AND mask 5 = take_bit 5 (of_nat s)"
    by (rule bit_word_eqI) (auto simp: bit_simps)
  ultimately show "drop_bit 11 (pack_time h m s) AND 0x1F = of_nat h" "drop_bit 5 (pack_time h m s) AND 0x3F = of_nat m"
    "pack_time h m s AND 0x1F = of_nat s"
    unfolding p k by (simp_all only: t)
qed

text \<open>The calendar loops divide the days exactly.\<close>

lemma year_loop_sum:
  "year_loop days year = (d, y) \<Longrightarrow>
     year \<le> y \<and> d < year_len y \<and> days = (\<Sum>k = year..<y. year_len k) + d"
proof (induction days year rule: year_loop.induct)
  case (1 days year)
  show ?case
  proof (cases "days < year_len year")
    case True
    then show ?thesis using "1.prems" by (simp add: year_loop.simps[of days])
  next
    case False
    then have "year_loop (days - year_len year) (year + 1) = (d, y)" using "1.prems" by (simp add: year_loop.simps[of days])
    from "1.IH"[OF False this] show ?thesis using False by (auto simp: sum.atLeast_Suc_lessThan)
  qed
qed

lemma month_loop_sum:
  "month_loop leap days month = (d, m) \<Longrightarrow> month \<le> 12 \<Longrightarrow>
     month \<le> m \<and> m \<le> 12 \<and> (m < 12 \<longrightarrow> d < month_len leap m) \<and> days = (\<Sum>k = month..<m. month_len leap k) + d"
proof (induction leap days month rule: month_loop.induct)
  case (1 leap days month)
  show ?case
  proof (cases "month < 12 \<and> \<not> days < month_len leap month")
    case False
    then show ?thesis using "1.prems" by (auto simp: month_loop.simps[of leap days] split: if_splits)
  next
    case True
    then have "month_loop leap (days - month_len leap month) (month + 1) = (d, m)" using "1.prems"(1)
      by (simp add: month_loop.simps[of leap days])
    from "1.IH"[OF True this] show ?thesis using True by (auto simp: sum.atLeast_Suc_lessThan)
  qed
qed


lemma month_sums:
  "\<forall>leap \<in> {True, False}. \<forall>m \<in> set [0..<12]. month_len leap m \<le> 31 \<and>
     sum_list (map (month_len leap) [0..<m]) = unat (cum ! m) + (if leap \<and> m > 1 then 1 else 0)"
  by code_simp

lemma year_sums: "\<forall>leap \<in> {True, False}. sum_list (map (month_len leap) [0..<12]) = (if leap then 366 else 365)"
  by code_simp

lemma cum_months:
  assumes "m < 12"
  shows "(\<Sum>k = 0..<m. month_len leap k) = unat (cum ! m) + (if leap \<and> m > 1 then 1 else 0)"
    "month_len leap m \<le> 31"
proof -
  have "month_len leap m \<le> 31 \<and> sum_list (map (month_len leap) [0..<m]) = unat (cum ! m) + (if leap \<and> m > 1 then 1 else 0)"
    using bspec[OF month_sums, of leap] assms by (cases leap) auto
  then show "(\<Sum>k = 0..<m. month_len leap k) = unat (cum ! m) + (if leap \<and> m > 1 then 1 else 0)"
    "month_len leap m \<le> 31" by (simp_all add: interv_sum_list_conv_sum_set_nat)
qed

lemma year_months: "(\<Sum>k = 0..<12. month_len (leap_year y) k) = year_len y"
proof -
  have "sum_list (map (month_len (leap_year y)) [0..<12]) = year_len y"
    using bspec[OF year_sums, of "leap_year y"] by (cases "leap_year y") (simp_all add: year_len_def)
  then show ?thesis by (simp add: interv_sum_list_conv_sum_set_nat)
qed

lemma days_before_sum:
  assumes "1980 \<le> y"
  shows "days_before y = of_nat (3652 + (\<Sum>k = 1980..<y. year_len k))"
proof -
  have l: "sum_list (map (\<lambda>y. of_nat (year_len y)) [a..<b]) = (of_nat (\<Sum>k = a..<b. year_len k) :: u32)" for a b
    by (induction b) (auto simp: sum.op_ivl_Suc)
  have "(\<Sum>k = 1970..<y. year_len k) = (\<Sum>k = 1970..<1980. year_len k) + (\<Sum>k = 1980..<y. year_len k)"
    using assms by (simp add: sum.atLeastLessThan_concat)
  moreover have "(\<Sum>k = 1970..<1980. year_len k) = 3652"
  proof -
    have "{1970..<1980} = {1970, 1971, 1972, 1973, 1974, 1975, 1976, 1977, 1978, 1979 :: nat}"
      by (simp add: set_eq_iff) presburger
    then show ?thesis by (simp add: year_len_def leap_year_def)
  qed
  ultimately show ?thesis by (simp add: days_before_def l)
qed

lemma small_u16:
  assumes "n < 128"
  shows "unat (of_nat n :: u16) = n" "(ucast (of_nat n :: u16) :: u32) = of_nat n"
proof -
  have n: "n < 2 ^ LENGTH(16)" using assms by simp
  then show "unat (of_nat n :: u16) = n" by (metis of_nat_inverse)
  then show "(ucast (of_nat n :: u16) :: u32) = of_nat n" by (metis of_nat_unat)
qed

lemma recombine: "(D::nat) = 3652 + q \<Longrightarrow> r = s + x \<Longrightarrow> q * 86400 + r = n \<Longrightarrow> D * 86400 + s + x = 315532800 + n"
  by simp

lemma years_of_days:
  assumes "(\<Sum>k = 1980..<y. year_len k) \<le> 46058" "1980 \<le> y"
  shows "y - 1980 \<le> 127"
proof (rule ccontr)
  assume "\<not> y - 1980 \<le> 127"
  then have y: "2108 \<le> y" by simp
  have "(\<Sum>k = 1980..<y. 365) \<le> (\<Sum>k = 1980..<y. year_len k)" by (rule sum_mono) (simp add: year_len_def)
  then have "365 * (y - 1980) \<le> 46058" using assms(1) by simp
  then show False using y by simp
qed

lemma fat_time_survives:
  assumes "FAT_EPOCH \<le> e" "fat_time_encode e = (date, time)"
  shows "unat (fat_epoch past date time) = unat e - unat e mod 2"
proof -
  define secs where "secs = unat (e - FAT_EPOCH)"
  have se: "secs = unat e - 315532800" "315532800 \<le> unat e" "unat e < 4294967296"
    using assms(1) by (simp_all add: secs_def FAT_EPOCH_def unat_u32_sub_small word_le_nat_alt)
  obtain d y where yl: "year_loop (secs div 86400) 1980 = (d, y)" by fastforce
  note Y = year_loop_sum[OF yl]
  obtain dd m where ml: "month_loop (leap_year y) d 0 = (dd, m)" by fastforce
  note M = month_loop_sum[OF ml]
  have m: "m < 12"
  proof (rule ccontr)
    assume "\<not> m < 12"
    then have "d = year_len y + dd" using M year_months[of y] by (simp add: le_antisym)
    then show False using Y by simp
  qed
  have dsum: "d = unat (cum ! m) + (if leap_year y \<and> m > 1 then 1 else 0) + dd" "dd < month_len (leap_year y) m"
    using M m cum_months(1)[OF m] by auto
  have "month_len (leap_year y) m \<le> 31" by (rule cum_months(2)[OF m])
  then have dd: "dd + 1 < 32" using dsum(2) by simp
  have "secs div 86400 \<le> 46058" using se by linarith
  then have y127: "y - 1980 \<le> 127" by (intro years_of_days) (use Y in auto)
  let ?rem = "secs mod 86400"
  have dt: "date = pack_date (y - 1980) (m + 1) (dd + 1)" "time = pack_time (?rem div 3600) (?rem mod 3600 div 60) (?rem mod 60 div 2)"
    using assms yl ml y127 leD[OF assms(1)] by (simp_all add: fat_time_encode_def Let_def secs_def)
  have fd: "drop_bit 9 date AND 0x7F = of_nat (y - 1980)" "drop_bit 5 date AND 0x0F = of_nat (m + 1)" "date AND 0x1F = of_nat (dd + 1)"
    unfolding dt by (rule date_fields; use y127 m dd in simp)+
  have tb: "?rem div 3600 < 32" "?rem mod 3600 div 60 < 64" "?rem mod 60 div 2 < 32" by auto
  note ft = time_fields[OF tb, folded dt(2)]
  note u = small_u16
  have u': "unat (drop_bit 9 date AND 0x7F) = y - 1980" "unat (drop_bit 5 date AND 0x0F) = m + 1" "unat (date AND 0x1F) = dd + 1"
    unfolding fd using y127 m dd by (simp_all add: u del: of_nat_add of_nat_Suc)
  have nz: "date \<noteq> 0" using u'(2) by auto
  let ?days = "3652 + (\<Sum>k = 1980..<y. year_len k) + d"
  have y: "1980 + (y - 1980) = y" using Y by simp
  have cu: "cum_at past m = of_nat (unat (cum ! m))" using m by (simp add: cum_at_def)
  let ?secs = "?rem div 3600 * 3600 + ?rem mod 3600 div 60 * 60 + ?rem mod 60 div 2 * 2"
  have tm: "ucast (drop_bit 11 time AND 0x1F) * 3600 + ucast (drop_bit 5 time AND 0x3F) * 60 + ucast (time AND 0x1F) * 2 =
      (of_nat ?secs :: u32)"
    unfolding ft using tb by (simp add: u(2))
  have "fat_epoch past date time = of_nat ?days * 86400 + of_nat ?secs"
    unfolding fat_epoch_def Let_def u' y tm using nz dsum(1) days_before_sum[of y] Y cu by simp
  then have v: "fat_epoch past date time = of_nat (?days * 86400 + ?secs)" by simp
  have days: "?days = 3652 + secs div 86400" using Y by simp
  have sec: "?rem = ?secs + secs mod 2"
  proof -
    have "?rem = ?rem div 3600 * 3600 + ?rem mod 3600" by simp
    moreover have "?rem mod 3600 = ?rem mod 3600 div 60 * 60 + ?rem mod 60"
      using div_mult_mod_eq[of "?rem mod 3600" 60] by (simp add: mod_mod_cancel)
    moreover have "?rem mod 60 = ?rem mod 60 div 2 * 2 + secs mod 2"
      using div_mult_mod_eq[of "?rem mod 60" 2] by (simp add: mod_mod_cancel)
    ultimately show ?thesis by linarith
  qed
  have "?days * 86400 + ?secs + secs mod 2 = 315532800 + secs"
    by (rule recombine[OF days sec div_mult_mod_eq])
  moreover have "unat e mod 2 = secs mod 2"
  proof -
    have "unat e = secs + 157766400 * 2" using se by linarith
    then show ?thesis by (metis mod_mult_self1)
  qed
  moreover have "315532800 + secs = unat e" using se(1,2) by simp
  ultimately have "?days * 86400 + ?secs = unat e - unat e mod 2" by (metis add_diff_cancel_right')
  moreover have "unat e - unat e mod 2 < 4294967296" using se(3) by linarith
  ultimately show ?thesis unfolding v by (metis unat_of_nat_u32)
qed


lemma rd16_bytes: "ucast (ucast v :: u8) OR push_bit 8 (ucast (ucast (drop_bit 8 v) :: u8)) = (v :: u16)"
  by (rule bit_word_eqI) (auto simp: bit_simps)

lemma rd32_bytes:
  "ucast (ucast v :: u8) OR push_bit 8 (ucast (ucast (drop_bit 8 v) :: u8)) OR
     push_bit 16 (ucast (ucast (drop_bit 16 v) :: u8)) OR push_bit 24 (ucast (ucast (drop_bit 24 v) :: u8)) = (v :: u32)"
proof (rule bit_word_eqI)
  fix n assume "n < LENGTH(32)"
  then consider "n < 8" | "8 \<le> n" "n < 16" | "16 \<le> n" "n < 24" | "24 \<le> n" "n < 32" by fastforce
  then show "bit (ucast (ucast v :: u8) OR push_bit 8 (ucast (ucast (drop_bit 8 v) :: u8)) OR
      push_bit 16 (ucast (ucast (drop_bit 16 v) :: u8)) OR push_bit 24 (ucast (ucast (drop_bit 24 v) :: u8)) :: u32) n = bit v n"
    by cases (auto simp: bit_simps)
qed

lemma rd16_put16 [simp]: "k + 1 < length p \<Longrightarrow> rd16 (put16 k v p) k = v"
  by (simp add: rd16_def put16_def rd16_bytes)

lemma rd16_put16_other [simp]: "j + 1 < k \<or> k + 1 < j \<Longrightarrow> rd16 (put16 k v p) j = rd16 p j"
  by (auto simp: rd16_def put16_def)

lemma rd16_put32_other [simp]: "j + 1 < k \<Longrightarrow> rd16 (put32 k v p) j = rd16 p j"
  by (auto simp: rd16_def put32_def)

lemma rd32_put32 [simp]: "k + 3 < length p \<Longrightarrow> rd32 (put32 k v p) k = v"
  by (simp add: rd32_def put32_def rd32_bytes)

lemma put_length [simp]: "length (put16 k v p) = length p" "length (put32 k w p) = length p"
  by (simp_all add: put16_def put32_def)

lemma put_nth [simp]:
  "i < k \<Longrightarrow> put16 k v p ! i = p ! i" "i < k \<Longrightarrow> put32 k w p ! i = p ! i"
  by (simp_all add: put16_def put32_def)

lemma put_take [simp]:
  "n \<le> k \<Longrightarrow> take n (put16 k v p) = take n p" "n \<le> k \<Longrightarrow> take n (put32 k w p) = take n p"
  by (simp_all add: put16_def put32_def)

lemma of_bytes_to_bytes [simp]: "of_bytes (to_bytes s) = s"
proof -
  have "char_of (unat (of_char c :: u8)) = c" for c
  proof -
    have "(of_char c :: u8) = of_nat (of_char c)" by (metis of_nat_of_char)
    moreover have "of_char c < (2 ^ LENGTH(8) :: nat)" using nat_of_char_less_256[of c] by simp
    ultimately have "unat (of_char c :: u8) = of_char c" by (metis of_nat_inverse)
    then show ?thesis by simp
  qed
  then show ?thesis by (simp add: of_bytes_def to_bytes_def map_idI)
qed

text \<open>
  C27. Directory entries survive.  An entry written for an 8.3 name reads back with the same
  name, attributes, first cluster and size, and with the file's time, from 1980 to the end
  of a 32-bit clock, rounded down to the two seconds the format stores.
\<close>

theorem dirent_roundtrip:
  fixes name :: string and attr flags :: u8 and first_cluster fsize mtime :: u32
  assumes "length name = 11" "FAT_EPOCH \<le> mtime"
  defines "e \<equiv> fat_dirent name attr first_cluster fsize mtime flags"
  shows "length e = 32 \<and> of_bytes (take 11 e) = name \<and> e ! 11 = attr \<and> e ! 12 = flags \<and>
    rd16 e 26 = ucast first_cluster \<and> rd32 e 28 = fsize \<and>
    unat (fat_epoch past (rd16 e 24) (rd16 e 22)) = unat mtime - unat mtime mod 2"
proof -
  obtain d t where dt: "fat_time_encode mtime = (d, t)" by fastforce
  define h where "h = (put_bytes 0 (to_bytes name) (replicate 32 0))[11 := attr, 12 := flags]"
  have h: "length h = 32" "take 11 h = to_bytes name" "h ! 11 = attr" "h ! 12 = flags"
    using assms(1) by (simp_all add: h_def put_bytes_def to_bytes_def)
  have e: "e = put32 28 fsize (put16 26 (ucast first_cluster) (put16 20 0 (put16 24 d (put16 22 t
      (put16 18 d (put16 16 d (put16 14 t h)))))))"
    by (simp add: e_def fat_dirent_def dt h_def Let_def)
  show ?thesis unfolding e using h fat_time_survives[OF assms(2) dt, of past] by simp
qed

theorem dirent_roundtrip_witness:
  "rd32 (fat_dirent ''README  TXT'' 0x20 2 1500 1700000001 0) 28 = 1500"
  using dirent_roundtrip[of "''README  TXT''" 1700000001 "0x20" 2 1500 0 "\<lambda>_. 0"] by (simp add: FAT_EPOCH_def)

text \<open>
  A month of 13, 14 or 15, which a host can write, makes the decoder read behind its table.
\<close>

theorem fat_epoch_overreads:
  "fat_epoch past (pack_date 0 13 1) 0 = 315532800 + (past 0 + 1) * 86400"
proof -
  have f: "unat (drop_bit 9 (pack_date 0 13 1) AND 0x7F) = 0" "unat (drop_bit 5 (pack_date 0 13 1) AND 0x0F) = 13"
    "unat (pack_date 0 13 1 AND 0x1F) = 1"
    by (subst date_fields small_u16; simp)+
  have d: "days_before 1980 = 3652" using days_before_sum[of 1980] by simp
  have nz: "pack_date 0 13 1 \<noteq> 0" using f(3) by auto
  show ?thesis
    unfolding fat_epoch_def using nz
    by (simp add: f[simplified] Let_def cum_at_def d leap_year_def algebra_simps)
qed

end
