(* ===== verification/Fat12.thy ===== *)
theory Fat12
  imports BlockCache FatNames
begin

text \<open>
  \<open>os/core/fat12.cpp\<close>: the FAT12 driver of the transfer drive, over any disk of sectors (the
  record \<open>f12_io\<close>, in the firmware \<open>region_read\<close> and \<open>region_write\<close> of the block layer).  A
  disk operation returns the new disk, because reading moves the cache.  Fields the source
  keeps in 8 or 16 bits are held zero-extended in 32.  Copies into a caller's buffer are
  results.  \<open>free_chain\<close> follows links found on the disk and is a partial function; the other
  loops are bounded by what they count.
\<close>

section \<open>Model\<close>

record 'd f12_io =
  io_read :: "u32 \<Rightarrow> 'd \<Rightarrow> bytes option \<times> 'd"
  io_write :: "u32 \<Rightarrow> bytes \<Rightarrow> 'd \<Rightarrow> bool \<times> 'd"
  io_sectors :: u32

record f12 =
  reserved :: u32
  num_fats :: u32
  root_entries :: u32
  spc :: u32
  fat_sectors :: u32
  first_fat :: u32
  first_root :: u32
  first_data :: u32
  clusters :: u32
  mounted :: bool

definition F12_FREE :: u16 where "F12_FREE = 0"
definition F12_EOC :: u16 where "F12_EOC = 0xFFF"
definition DIRENT :: u32 where "DIRENT = 32"

subsection \<open>The twelve-bit table\<close>

definition fat_byte :: "'d f12_io \<Rightarrow> f12 \<Rightarrow> u32 \<Rightarrow> 'd \<Rightarrow> u8 option \<times> 'd" where
  "fat_byte io f off d =
     (case io_read io (first_fat f + off div F12_SECTOR) d of
        (None, d) \<Rightarrow> (None, d)
      | (Some s, d) \<Rightarrow> (Some (s ! unat (off mod F12_SECTOR)), d))"

definition fat_byte_set :: "'d f12_io \<Rightarrow> f12 \<Rightarrow> u32 \<Rightarrow> u8 \<Rightarrow> u8 \<Rightarrow> 'd \<Rightarrow> bool \<times> 'd" where
  "fat_byte_set io f off msk val d =
     (let lba = first_fat f + off div F12_SECTOR; k = unat (off mod F12_SECTOR) in
      case io_read io lba d of
        (None, d) \<Rightarrow> (False, d)
      | (Some s, d) \<Rightarrow> io_write io lba (s[k := (s ! k AND NOT msk) OR (val AND msk)]) d)"

definition fat_off :: "u32 \<Rightarrow> u32" where "fat_off cluster = cluster + cluster div 2"

definition fat_get :: "'d f12_io \<Rightarrow> f12 \<Rightarrow> u32 \<Rightarrow> 'd \<Rightarrow> u16 \<times> 'd" where
  "fat_get io f cluster d =
     (case fat_byte io f (fat_off cluster) d of
        (None, d) \<Rightarrow> (F12_EOC, d)
      | (Some a, d) \<Rightarrow> (case fat_byte io f (fat_off cluster + 1) d of
            (None, d) \<Rightarrow> (F12_EOC, d)
          | (Some b, d) \<Rightarrow>
              (if cluster AND 1 \<noteq> 0 then drop_bit 4 (ucast a) OR push_bit 4 (ucast b)
               else ucast a OR push_bit 8 (ucast b AND 0x0F), d)))"

definition fat_set :: "'d f12_io \<Rightarrow> f12 \<Rightarrow> u32 \<Rightarrow> u16 \<Rightarrow> 'd \<Rightarrow> bool \<times> 'd" where
  "fat_set io f cluster val d =
     (let off = fat_off cluster; v = val AND 0x0FFF in
      if cluster AND 1 \<noteq> 0
      then (case fat_byte_set io f off 0xF0 (ucast (push_bit 4 v)) d of
          (False, d) \<Rightarrow> (False, d)
        | (True, d) \<Rightarrow> fat_byte_set io f (off + 1) 0xFF (ucast (drop_bit 4 v)) d)
      else (case fat_byte_set io f off 0xFF (ucast v) d of
          (False, d) \<Rightarrow> (False, d)
        | (True, d) \<Rightarrow> fat_byte_set io f (off + 1) 0x0F (ucast (drop_bit 8 v)) d))"

subsection \<open>Mounting and formatting\<close>

definition f12_zero :: f12 where
  "f12_zero = \<lparr>reserved = 0, num_fats = 0, root_entries = 0, spc = 0, fat_sectors = 0, first_fat = 0,
     first_root = 0, first_data = 0, clusters = 0, mounted = False\<rparr>"

definition root_sectors :: "f12 \<Rightarrow> u32" where
  "root_sectors f = (root_entries f * DIRENT + F12_SECTOR - 1) div F12_SECTOR"

definition f12_mount :: "'d f12_io \<Rightarrow> 'd \<Rightarrow> f12 option \<times> 'd" where
  "f12_mount io d =
     (case io_read io 0 d of (None, d) \<Rightarrow> (None, d)
      | (Some b, d) \<Rightarrow>
        (if b ! 510 \<noteq> 0x55 \<or> b ! 511 \<noteq> 0xAA then (None, d)
         else if rd16 b 11 \<noteq> ucast F12_SECTOR then (None, d)
         else let f = f12_zero\<lparr>spc := ucast (b ! 13), reserved := ucast (rd16 b 14), num_fats := ucast (b ! 16),
                        root_entries := ucast (rd16 b 17), fat_sectors := ucast (rd16 b 22)\<rparr>;
                  tot = ucast (rd16 b 19); tot = (if tot = 0 then rd32 b 32 else tot)
              in if spc f = 0 \<or> reserved f = 0 \<or> num_fats f = 0 \<or> fat_sectors f = 0 then (None, d)
                 else if tot = 0 \<or> tot > io_sectors io then (None, d)
                 else let ff = reserved f; fr = ff + fat_sectors f * num_fats f; fd = fr + root_sectors f;
                          f = f\<lparr>first_fat := ff, first_root := fr, first_data := fd\<rparr>
                      in if fd \<ge> tot then (None, d)
                         else let n = (tot - fd) div spc f in
                           if n = 0 \<or> n \<ge> 4085 then (None, d)
                           else (Some (f\<lparr>clusters := n, mounted := True\<rparr>), d)))"

definition dir_write_slot :: "'d f12_io \<Rightarrow> f12 \<Rightarrow> u32 \<Rightarrow> bytes \<Rightarrow> 'd \<Rightarrow> bool \<times> 'd" where
  "dir_write_slot io f slot entry d =
     (let per = F12_SECTOR div DIRENT; lba = first_root f + slot div per in
      case io_read io lba d of
        (None, d) \<Rightarrow> (False, d)
      | (Some s, d) \<Rightarrow> io_write io lba (put_bytes (unat ((slot mod per) * DIRENT)) entry s) d)"

text \<open>The table and the cluster count depend on each other; eight passes settle them.\<close>

fun settle :: "nat \<Rightarrow> f12 \<Rightarrow> u32 \<Rightarrow> u32 \<Rightarrow> u32 \<Rightarrow> (u32 \<times> u32) option" where
  "settle 0 f tot fs n = Some (fs, n)"
| "settle (Suc k) f tot fs n =
     (let overhead = reserved f + fs * num_fats f + root_sectors f in
      if tot \<le> overhead then None
      else let n = (tot - overhead) div spc f;
               need = (((n + 2) * 3 + 1) div 2 + F12_SECTOR - 1) div F12_SECTOR
           in if need = fs then Some (fs, n) else settle k f tot need n)"

fun write_same :: "'d f12_io \<Rightarrow> u32 \<Rightarrow> nat \<Rightarrow> bytes \<Rightarrow> 'd \<Rightarrow> bool \<times> 'd" where
  "write_same io lba 0 s d = (True, d)"
| "write_same io lba (Suc n) s d =
     (case io_write io lba s d of (False, d) \<Rightarrow> (False, d) | (True, d) \<Rightarrow> write_same io (lba + 1) n s d)"

definition boot_sector :: "f12 \<Rightarrow> u32 \<Rightarrow> string option \<Rightarrow> u32 \<Rightarrow> bytes" where
  "boot_sector f tot label serial =
     (let s = (replicate 512 0)[0 := 0xEB, 1 := 0x3C, 2 := 0x90];
          s = put_bytes 3 (to_bytes ''MSWIN4.1'') s; s = put16 11 (ucast F12_SECTOR) s;
          s = s[13 := ucast (spc f)]; s = put16 14 (ucast (reserved f)) s; s = s[16 := ucast (num_fats f)];
          s = put16 17 (ucast (root_entries f)) s;
          s = (if tot < 0x10000 then put32 32 0 (put16 19 (ucast tot) s) else put32 32 tot (put16 19 0 s));
          s = s[21 := 0xF8]; s = put16 22 (ucast (fat_sectors f)) s; s = put16 24 63 s; s = put16 26 255 s;
          s = s[36 := 0x80, 38 := 0x29]; s = put32 39 (if serial \<noteq> 0 then serial else 0x52504332) s;
          s = put_bytes 43 (to_bytes (pad 11 (take 11 (case label of Some l \<Rightarrow> l | None \<Rightarrow> [])))) s;
          s = put_bytes 54 (to_bytes ''FAT12   '') s
      in s[510 := 0x55, 511 := 0xAA])"

definition f12_format :: "'d f12_io \<Rightarrow> string option \<Rightarrow> u32 \<Rightarrow> 'd \<Rightarrow> f12 option \<times> 'd" where
  "f12_format io label serial d =
     (let f = f12_zero\<lparr>spc := 1, reserved := 1, num_fats := 1, root_entries := 128\<rparr> in
      case settle 8 f (io_sectors io) 1 0 of
        None \<Rightarrow> (None, d)
      | Some (fs, n) \<Rightarrow>
        if n = 0 then (None, d)
        else let n = (if n > 4084 then 4084 else n);
                 ff = reserved f; fr = ff + fs * num_fats f; fd = fr + root_sectors f;
                 f = f\<lparr>fat_sectors := fs, first_fat := ff, first_root := fr, first_data := fd, clusters := n\<rparr>;
                 tot = fd + n * spc f
             in case io_write io 0 (boot_sector f tot label serial) d of (False, d) \<Rightarrow> (None, d)
               | (True, d) \<Rightarrow> (case write_same io ff (unat (fs * num_fats f)) (replicate 512 0) d of (False, d) \<Rightarrow> (None, d)
               | (True, d) \<Rightarrow> (case write_same io fr (unat (root_sectors f)) (replicate 512 0) d of (False, d) \<Rightarrow> (None, d)
               | (True, d) \<Rightarrow> (let f = f\<lparr>mounted := True\<rparr> in case fat_set io f 0 0xFF8 d of (False, d) \<Rightarrow> (None, d)
               | (True, d) \<Rightarrow> (case fat_set io f 1 0xFFF d of (False, d) \<Rightarrow> (None, d)
               | (True, d) \<Rightarrow> (case dir_write_slot io f 0
                     (fat_dirent_label (case label of Some l \<Rightarrow> l | None \<Rightarrow> ''RPCORTEX'')) d of
                   (False, d) \<Rightarrow> (None, d) | (True, d) \<Rightarrow> (Some f, d)))))))"

subsection \<open>Reading the directory\<close>

record f12_entry =
  e_name :: string
  e_size :: u32
  e_mtime :: u32
  e_cluster :: u16
  e_is_dir :: bool

text \<open>The locals of \<open>dir_scan\<close> and what it reports; \<open>listed\<close> is what the callback is handed.\<close>

record scan =
  lname :: string
  lok :: bool
  run_start :: "nat option"
  run_len :: u32
  free_run :: "nat option"
  found :: "(nat \<times> f12_entry) option"
  listed :: "f12_entry list"

definition lname_clear :: string where "lname_clear = replicate F12_MAXNAME (CHR 0x00)"

definition scan_init :: scan where
  "scan_init = \<lparr>lname = lname_clear, lok = False, run_start = None, run_len = 0, free_run = None,
     found = None, listed = []\<rparr>"

definition scan_free :: "f12 \<Rightarrow> u32 \<Rightarrow> nat \<Rightarrow> u8 \<Rightarrow> scan \<Rightarrow> bool \<times> scan" where
  "scan_free f free_needed slot e0 s =
     (let s = (if run_start s = None then s\<lparr>run_start := Some slot, run_len := 0\<rparr> else s);
          s = s\<lparr>run_len := run_len s + 1\<rparr>;
          s = (if free_needed \<noteq> 0 \<and> run_len s \<ge> free_needed \<and> free_run s = None
               then s\<lparr>free_run := run_start s\<rparr> else s)
      in if e0 = 0
         then let start = (case run_start s of Some k \<Rightarrow> k | None \<Rightarrow> slot) in
           (True, if free_needed \<noteq> 0 \<and> free_run s = None \<and> root_entries f - of_nat start \<ge> free_needed
                  then s\<lparr>free_run := Some start\<rparr> else s)
         else (False, s\<lparr>lok := False, lname := lname_clear\<rparr>))"

definition dir_entry :: "(nat \<Rightarrow> u32) \<Rightarrow> scan \<Rightarrow> bytes \<Rightarrow> f12_entry" where
  "dir_entry past s e =
     \<lparr>e_name = (if lok s \<and> lname s ! 0 \<noteq> CHR 0x00 then cstr (lname s) else short_name e),
      e_size = rd32 e 28, e_mtime = fat_epoch past (rd16 e 24) (rd16 e 22), e_cluster = rd16 e 26,
      e_is_dir = (e ! 11 AND 0x10 \<noteq> 0)\<rparr>"

text \<open>One slot; the boolean says that the scan stops here.\<close>

definition scan_slot ::
  "(nat \<Rightarrow> u32) \<Rightarrow> f12 \<Rightarrow> string option \<Rightarrow> u32 \<Rightarrow> nat \<Rightarrow> bytes \<Rightarrow> scan \<Rightarrow> bool \<times> scan" where
  "scan_slot past f want free_needed slot e s =
     (if e ! 0 = 0 \<or> e ! 0 = 0xE5 then scan_free f free_needed slot (e ! 0) s
      else let s = s\<lparr>run_start := None, run_len := 0\<rparr> in
        if e ! 11 AND 0x0F = 0x0F
        then let s = (if e ! 0 AND 0x40 \<noteq> 0 then s\<lparr>lname := lname_clear, lok := True\<rparr> else s)
             in (False, if lok s then (case lfn_gather e (lname s) of (n, ok) \<Rightarrow> s\<lparr>lname := n, lok := ok\<rparr>) else s)
        else if e ! 11 AND 0x08 \<noteq> 0 then (False, s\<lparr>lok := False\<rparr>)
        else let ent = dir_entry past s e; s = s\<lparr>lok := False, lname := lname_clear\<rparr>
             in case want of
                  Some w \<Rightarrow> if ieq (e_name ent) w \<or> ieq (short_name e) w
                            then (True, s\<lparr>found := Some (slot, ent)\<rparr>) else (False, s)
                | None \<Rightarrow> (False, s\<lparr>listed := listed s @ [ent]\<rparr>))"

fun scan_slots ::
  "(nat \<Rightarrow> u32) \<Rightarrow> f12 \<Rightarrow> string option \<Rightarrow> u32 \<Rightarrow> nat \<Rightarrow> bytes \<Rightarrow> nat list \<Rightarrow> scan \<Rightarrow> bool \<times> scan" where
  "scan_slots past f want free_needed base sct [] s = (False, s)"
| "scan_slots past f want free_needed base sct (i # is) s =
     (case scan_slot past f want free_needed (base + i) (take 32 (drop (32 * i) sct)) s of
        (True, s) \<Rightarrow> (True, s)
      | (False, s) \<Rightarrow> scan_slots past f want free_needed base sct is s)"

fun scan_sectors ::
  "'d f12_io \<Rightarrow> (nat \<Rightarrow> u32) \<Rightarrow> f12 \<Rightarrow> string option \<Rightarrow> u32 \<Rightarrow> nat list \<Rightarrow> scan \<Rightarrow> 'd \<Rightarrow> bool \<times> scan \<times> 'd" where
  "scan_sectors io past f want free_needed [] s d = (True, s, d)"
| "scan_sectors io past f want free_needed (sn # sns) s d =
     (case io_read io (first_root f + of_nat sn) d of
        (None, d) \<Rightarrow> (False, s, d)
      | (Some sct, d) \<Rightarrow> (case scan_slots past f want free_needed (16 * sn) sct [0..<16] s of
            (True, s) \<Rightarrow> (True, s, d)
          | (False, s) \<Rightarrow> scan_sectors io past f want free_needed sns s d))"

definition dir_scan ::
  "'d f12_io \<Rightarrow> (nat \<Rightarrow> u32) \<Rightarrow> f12 \<Rightarrow> string option \<Rightarrow> u32 \<Rightarrow> 'd \<Rightarrow> bool \<times> scan \<times> 'd" where
  "dir_scan io past f want free_needed d =
     scan_sectors io past f want free_needed [0..<unat (root_sectors f)] scan_init d"

definition f12_list :: "'d f12_io \<Rightarrow> (nat \<Rightarrow> u32) \<Rightarrow> f12 \<Rightarrow> 'd \<Rightarrow> bool \<times> f12_entry list \<times> 'd" where
  "f12_list io past f d =
     (if \<not> mounted f then (False, [], d)
      else case dir_scan io past f None 0 d of (ok, s, d) \<Rightarrow> (ok, listed s, d))"

definition f12_find :: "'d f12_io \<Rightarrow> (nat \<Rightarrow> u32) \<Rightarrow> f12 \<Rightarrow> string option \<Rightarrow> 'd \<Rightarrow> f12_entry option \<times> 'd" where
  "f12_find io past f name d =
     (if \<not> mounted f \<or> name = None then (None, d)
      else case dir_scan io past f name 0 d of
          (False, s, d) \<Rightarrow> (None, d)
        | (True, s, d) \<Rightarrow> (map_option snd (found s), d))"

subsection \<open>Reading a file\<close>

record cursor =
  cur_first :: u32
  cur_cluster :: u32
  cur_at :: u32

definition f12_cursor_init :: cursor where
  "f12_cursor_init = \<lparr>cur_first = 0, cur_cluster = 0, cur_at = 0\<rparr>"

definition in_chain :: "u32 \<Rightarrow> bool" where "in_chain c = (c \<ge> 2 \<and> c < 0xFF8)"

definition bytes_per_cluster :: "f12 \<Rightarrow> u32" where "bytes_per_cluster f = spc f * F12_SECTOR"

fun skip_clusters :: "'d f12_io \<Rightarrow> f12 \<Rightarrow> nat \<Rightarrow> u32 \<Rightarrow> 'd \<Rightarrow> u32 \<times> 'd" where
  "skip_clusters io f 0 cluster d = (cluster, d)"
| "skip_clusters io f (Suc n) cluster d =
     (if in_chain cluster
      then case fat_get io f cluster d of (c, d) \<Rightarrow> skip_clusters io f n (ucast c) d
      else (cluster, d))"

text \<open>The copying loop: \<open>left\<close> is \<open>len - done\<close> and \<open>out\<close> what has been copied.\<close>

function read_loop :: "'d f12_io \<Rightarrow> f12 \<Rightarrow> u32 \<Rightarrow> u32 \<Rightarrow> nat \<Rightarrow> bytes \<Rightarrow> 'd \<Rightarrow> bytes \<times> 'd" where
  "read_loop io f cluster within left out d =
     (if \<not> (left > 0 \<and> in_chain cluster) then (out, d)
      else case io_read io (first_data f + (cluster - 2) * spc f + within div F12_SECTOR) d of
          (None, d) \<Rightarrow> (out, d)
        | (Some sct, d) \<Rightarrow>
           (let in_sector = unat (within mod F12_SECTOR); n = min (512 - in_sector) left;
                out = out @ take n (drop in_sector sct); within = within + of_nat n
            in if within \<ge> bytes_per_cluster f
               then case fat_get io f cluster d of (c, d) \<Rightarrow> read_loop io f (ucast c) 0 (left - n) out d
               else read_loop io f cluster within (left - n) out d))"
  by pat_completeness auto

definition f12_read ::
  "'d f12_io \<Rightarrow> f12 \<Rightarrow> f12_entry option \<Rightarrow> cursor option \<Rightarrow> u32 \<Rightarrow> u32 \<Rightarrow> 'd \<Rightarrow> bytes \<times> cursor option \<times> 'd" where
  "f12_read io f ent cur off len d =
     (case ent of None \<Rightarrow> ([], cur, d)
      | Some e \<Rightarrow>
        if \<not> mounted f \<or> e_is_dir e \<or> off \<ge> e_size e then ([], cur, d)
        else let len = (if off + len > e_size e then e_size e - off else len);
                 (cluster, base) = (case cur of
                     Some c \<Rightarrow> if cur_first c = ucast (e_cluster e) \<and> cur_cluster c \<ge> 2 \<and> cur_at c \<le> off
                               then (cur_cluster c, cur_at c) else (ucast (e_cluster e), 0)
                   | None \<Rightarrow> (ucast (e_cluster e), 0));
                 skip = (off - base) div bytes_per_cluster f; start = base + skip * bytes_per_cluster f;
                 (cluster, d) = skip_clusters io f (unat skip) cluster d;
                 cur = (case cur of Some _ \<Rightarrow> if cluster \<ge> 2
                            then Some \<lparr>cur_first = ucast (e_cluster e), cur_cluster = cluster, cur_at = start\<rparr> else cur
                        | None \<Rightarrow> None);
                 (out, d) = read_loop io f cluster (off - start) (unat len) [] d
             in (out, cur, d))"

subsection \<open>Writing\<close>

fun alloc_scan :: "'d f12_io \<Rightarrow> f12 \<Rightarrow> u32 \<Rightarrow> u32 list \<Rightarrow> 'd \<Rightarrow> u32 \<times> 'd" where
  "alloc_scan io f after [] d = (0, d)"
| "alloc_scan io f after (c # cs) d =
     (case fat_get io f c d of (v, d) \<Rightarrow>
        if v \<noteq> F12_FREE then alloc_scan io f after cs d
        else case fat_set io f c F12_EOC d of
            (False, d) \<Rightarrow> (0, d)
          | (True, d) \<Rightarrow> if after = 0 then (c, d)
              else (case fat_set io f after (ucast c) d of (False, d) \<Rightarrow> (0, d) | (True, d) \<Rightarrow> (c, d)))"

definition all_clusters :: "f12 \<Rightarrow> u32 list" where
  "all_clusters f = map of_nat [2..<unat (clusters f + 2)]"

definition alloc_cluster :: "'d f12_io \<Rightarrow> f12 \<Rightarrow> u32 \<Rightarrow> 'd \<Rightarrow> u32 \<times> 'd" where
  "alloc_cluster io f after d = alloc_scan io f after (all_clusters f) d"

partial_function (option) free_chain :: "'d f12_io \<Rightarrow> f12 \<Rightarrow> u32 \<Rightarrow> 'd \<Rightarrow> 'd option" where
  "free_chain io f cluster d =
     (if in_chain cluster
      then case fat_get io f cluster d of (nxt, d) \<Rightarrow>
        (case fat_set io f cluster F12_FREE d of
           (ok, d) \<Rightarrow> if ok then free_chain io f (ucast nxt) d else Some d)
      else Some d)"

declare free_chain.simps [code]

fun remove_slots :: "'d f12_io \<Rightarrow> f12 \<Rightarrow> nat \<Rightarrow> nat \<Rightarrow> 'd \<Rightarrow> bool \<times> 'd" where
  "remove_slots io f hit 0 d = (True, d)"
| "remove_slots io f hit (Suc slot) d =
     (case io_read io (first_root f + of_nat slot div 16) d of
        (None, d) \<Rightarrow> (False, d)
      | (Some sct, d) \<Rightarrow>
        (let e8 = take 32 (drop (32 * (slot mod 16)) sct) in
         if slot \<noteq> hit \<and> e8 ! 11 AND 0x0F \<noteq> 0x0F then (True, d)
         else case dir_write_slot io f (of_nat slot) (e8[0 := 0xE5]) d of
             (False, d) \<Rightarrow> (False, d)
           | (True, d) \<Rightarrow> if slot \<noteq> hit \<and> e8 ! 0 AND 0x40 \<noteq> 0 then (True, d) else remove_slots io f hit slot d))"

definition f12_remove :: "'d f12_io \<Rightarrow> (nat \<Rightarrow> u32) \<Rightarrow> f12 \<Rightarrow> string option \<Rightarrow> 'd \<Rightarrow> (bool \<times> 'd) option" where
  "f12_remove io past f name d =
     (if \<not> mounted f then Some (False, d)
      else case dir_scan io past f name 0 d of (ok, s, d) \<Rightarrow>
        (case (if ok then found s else None) of
           None \<Rightarrow> Some (False, d)
         | Some (slot, e) \<Rightarrow> (case free_chain io f (ucast (e_cluster e)) d of
               None \<Rightarrow> None
             | Some d \<Rightarrow> Some (remove_slots io f slot (Suc slot) d))))"

text \<open>
  The data of a file.  \<open>src\<close> is the callback that delivers bytes: the result is what it put in the
  buffer, and its length what it returned.  The inner loop fills one cluster.
\<close>

type_synonym 'c source = "u32 \<Rightarrow> u32 \<Rightarrow> 'c \<Rightarrow> bytes \<times> 'c"

fun fill_cluster ::
  "'d f12_io \<Rightarrow> f12 \<Rightarrow> 'c source \<Rightarrow> u32 \<Rightarrow> u32 \<Rightarrow> u32 list \<Rightarrow> u32 \<Rightarrow> 'c \<Rightarrow> 'd \<Rightarrow> bool \<times> u32 \<times> 'c \<times> 'd" where
  "fill_cluster io f src fsize c [] dne ctx d = (True, dne, ctx, d)"
| "fill_cluster io f src fsize c (sn # sns) dne ctx d =
     (if dne \<ge> fsize then (True, dne, ctx, d)
      else let want = min (fsize - dne) F12_SECTOR in
        case src dne want ctx of (b, ctx) \<Rightarrow>
          if length b \<noteq> unat want then (False, dne, ctx, d)
          else case io_write io (first_data f + (c - 2) * spc f + sn) (put_bytes 0 b (replicate 512 0)) d of
              (False, d) \<Rightarrow> (False, dne, ctx, d)
            | (True, d) \<Rightarrow> fill_cluster io f src fsize c sns (dne + want) ctx d)"

text \<open>The outer loop; a failure frees what was allocated.  The first cluster is the result.\<close>

partial_function (option) write_data ::
  "'d f12_io \<Rightarrow> f12 \<Rightarrow> 'c source \<Rightarrow> u32 \<Rightarrow> u32 \<Rightarrow> u32 \<Rightarrow> u32 \<Rightarrow> 'c \<Rightarrow> 'd \<Rightarrow> (u32 option \<times> 'c \<times> 'd) option" where
  "write_data io f src fsize fst_c prev dne ctx d =
     (if dne \<ge> fsize then Some (Some fst_c, ctx, d)
      else case alloc_cluster io f prev d of (c, d) \<Rightarrow>
        if c = 0
        then (if fst_c \<noteq> 0 then map_option (\<lambda>d. (None, ctx, d)) (free_chain io f fst_c d) else Some (None, ctx, d))
        else let fst_c = (if fst_c = 0 then c else fst_c) in
          case fill_cluster io f src fsize c (map of_nat [0..<unat (spc f)]) dne ctx d of
            (ok, dne, ctx, d) \<Rightarrow>
              if ok then write_data io f src fsize fst_c c dne ctx d
              else map_option (\<lambda>d. (None, ctx, d)) (free_chain io f fst_c d))"

declare write_data.simps [code]

fun write_lfn :: "'d f12_io \<Rightarrow> f12 \<Rightarrow> string \<Rightarrow> string \<Rightarrow> nat \<Rightarrow> nat \<Rightarrow> nat list \<Rightarrow> 'd \<Rightarrow> bool \<times> 'd" where
  "write_lfn io f name name83 run n [] d = (True, d)"
| "write_lfn io f name name83 run n (i # is) d =
     (case dir_write_slot io f (of_nat (run + i)) (lfn_entry name name83 (n - i) (i = 0)) d of
        (False, d) \<Rightarrow> (False, d)
      | (True, d) \<Rightarrow> write_lfn io f name name83 run n is d)"

definition write_entry ::
  "'d f12_io \<Rightarrow> f12 \<Rightarrow> string \<Rightarrow> string \<Rightarrow> u8 \<Rightarrow> nat \<Rightarrow> nat \<Rightarrow> u32 \<Rightarrow> u32 \<Rightarrow> u32 \<Rightarrow> 'd \<Rightarrow> bool \<times> 'd" where
  "write_entry io f name name83 flags run slots fst_c fsize mtime d =
     (let n = slots - 1 in
      case write_lfn io f name name83 run n [0..<n] d of
        (False, d) \<Rightarrow> (False, d)
      | (True, d) \<Rightarrow>
          dir_write_slot io f (of_nat (run + n)) (fat_dirent name83 FAT_ATTR_ARCHIVE fst_c fsize mtime flags) d)"

definition f12_write ::
  "'d f12_io \<Rightarrow> (nat \<Rightarrow> u32) \<Rightarrow> f12 \<Rightarrow> string option \<Rightarrow> u32 \<Rightarrow> u32 \<Rightarrow> 'c source \<Rightarrow> 'c \<Rightarrow> 'd \<Rightarrow> (bool \<times> 'c \<times> 'd) option" where
  "f12_write io past f name fsize mtime src ctx d =
     (case name of None \<Rightarrow> Some (False, ctx, d)
      | Some nm \<Rightarrow>
        if \<not> mounted f \<or> nm = [] then Some (False, ctx, d)
        else case f12_find io past f name d of (ex, d) \<Rightarrow>
          case (if ex \<noteq> None then map_option snd (f12_remove io past f name d) else Some d) of
            None \<Rightarrow> None
          | Some d \<Rightarrow> (case fat_shortname nm of
                None \<Rightarrow> Some (False, ctx, d)
              | Some (name83, flags) \<Rightarrow>
                (let slots = fat_entries_for nm in
                 case dir_scan io past f None (of_nat slots) d of (ok, s, d) \<Rightarrow>
                   (case (if ok then free_run s else None) of
                      None \<Rightarrow> Some (False, ctx, d)
                    | Some run \<Rightarrow> (case write_data io f src fsize 0 0 0 ctx d of
                          None \<Rightarrow> None
                        | Some (None, ctx, d) \<Rightarrow> Some (False, ctx, d)
                        | Some (Some fst_c, ctx, d) \<Rightarrow>
                            (case write_entry io f nm name83 flags run slots fst_c fsize mtime d of
                               (ok, d) \<Rightarrow> Some (ok, ctx, d)))))))"

subsection \<open>Capacity\<close>

definition f12_total_bytes :: "f12 \<Rightarrow> u32" where
  "f12_total_bytes f = (if mounted f then clusters f * spc f * F12_SECTOR else 0)"

fun count_free :: "'d f12_io \<Rightarrow> f12 \<Rightarrow> u32 list \<Rightarrow> u32 \<Rightarrow> 'd \<Rightarrow> u32 \<times> 'd" where
  "count_free io f [] n d = (n, d)"
| "count_free io f (c # cs) n d =
     (case fat_get io f c d of (v, d) \<Rightarrow> count_free io f cs (if v = F12_FREE then n + 1 else n) d)"

definition f12_free_bytes :: "'d f12_io \<Rightarrow> f12 \<Rightarrow> 'd \<Rightarrow> u32 \<times> 'd" where
  "f12_free_bytes io f d =
     (if \<not> mounted f then (0, d)
      else case count_free io f (all_clusters f) 0 d of (n, d) \<Rightarrow> (n * spc f * F12_SECTOR, d))"

lemma mod_sector: "unat (x mod F12_SECTOR) < 512"
  by (simp add: F12_SECTOR_def unat_mod)

termination read_loop
proof (relation "measure (\<lambda>(io, f, cluster, within, left, out, d). left)", goal_cases)
  case 1
  show ?case by simp
next
  case (2 io f cluster within left)
  then show ?case using mod_sector[of within] by (auto simp: Let_def)
next
  case (3 io f cluster within left)
  then show ?case using mod_sector[of within] by (auto simp: Let_def)
qed

declare read_loop.simps [simp del]

section \<open>The twelve-bit table is an array\<close>

text \<open>Entries as the packing defines them, over the bytes of the table.\<close>

definition entry_of :: "(nat \<Rightarrow> u8) \<Rightarrow> nat \<Rightarrow> u16" where
  "entry_of B c =
     (let k = c + c div 2 in
      if odd c then drop_bit 4 (ucast (B k)) OR push_bit 4 (ucast (B (k + 1)))
      else ucast (B k) OR push_bit 8 (ucast (B (k + 1)) AND 0x0F))"

definition set_entry :: "nat \<Rightarrow> u16 \<Rightarrow> (nat \<Rightarrow> u8) \<Rightarrow> nat \<Rightarrow> u8" where
  "set_entry c v B =
     (let k = c + c div 2; w = v AND 0x0FFF in
      if odd c
      then B(k := (B k AND NOT 0xF0) OR (ucast (push_bit 4 w) AND 0xF0),
             k + 1 := (B (k + 1) AND NOT 0xFF) OR (ucast (drop_bit 4 w) AND 0xFF))
      else B(k := (B k AND NOT 0xFF) OR (ucast w AND 0xFF),
             k + 1 := (B (k + 1) AND NOT 0x0F) OR (ucast (drop_bit 8 w) AND 0x0F)))"

lemma even_odd_cases:
  obtains (even) m where "c = 2 * m" | (odd) m where "c = 2 * m + (1 :: nat)"
  by (metis evenE oddE)

lemma fat_nibbles:
  "(0xF0 :: u8) = push_bit 4 (mask 4)" "(0xFF :: u8) = mask 8" "(0x0F :: u8) = mask 4" "(0x0F :: u16) = mask 4"
  "(0x0FFF :: u16) = mask 12"
  by (simp_all add: mask_eq_exp_minus_1)

lemma entry_of_even: "entry_of B (2 * m) = ucast (B (3 * m)) OR push_bit 8 (ucast (B (3 * m + 1)) AND 0x0F)"
  by (simp add: entry_of_def Let_def)

lemma entry_of_odd: "entry_of B (2 * m + 1) = drop_bit 4 (ucast (B (3 * m + 1))) OR push_bit 4 (ucast (B (3 * m + 2)))"
  by (simp add: entry_of_def Let_def)

lemma set_entry_even:
  "set_entry (2 * m) v B = B(3 * m := ucast (v AND 0x0FFF), 3 * m + 1 := (B (3 * m + 1) AND 0xF0) OR (ucast (drop_bit 8 v) AND 0x0F))"
proof -
  have "(b AND NOT 0xFF) OR (x AND 0xFF) = x" for b x :: u8
    by (rule bit_word_eqI) (auto simp: fat_nibbles bit_simps)
  moreover have "(b AND NOT 0x0F) OR (ucast (drop_bit 8 (v AND 0x0FFF)) AND 0x0F) =
      (b AND 0xF0) OR (ucast (drop_bit 8 v) AND 0x0F)" for b :: u8
    by (rule bit_word_eqI) (auto simp: fat_nibbles bit_simps)
  ultimately show ?thesis by (simp add: set_entry_def Let_def)
qed

lemma set_entry_odd:
  "set_entry (2 * m + 1) v B = B(3 * m + 1 := (B (3 * m + 1) AND 0x0F) OR ucast (push_bit 4 v), 3 * m + 2 := ucast (drop_bit 4 (v AND 0x0FFF)))"
proof -
  have "(b AND NOT 0xFF) OR (x AND 0xFF) = x" for b x :: u8
    by (rule bit_word_eqI) (auto simp: fat_nibbles bit_simps)
  moreover have "(b AND NOT 0xF0) OR (ucast (push_bit 4 (v AND 0x0FFF)) AND 0xF0) =
      (b AND 0x0F) OR ucast (push_bit 4 v)" for b :: u8
    by (rule bit_word_eqI) (auto simp: fat_nibbles bit_simps)
  ultimately show ?thesis by (simp add: set_entry_def Let_def)
qed

lemma thirds:
  "3 * m \<noteq> 3 * n + 1" "3 * m \<noteq> 3 * n + 2" "3 * m + 1 \<noteq> 3 * n + 2" "3 * m + 1 \<noteq> 3 * (n :: nat)"
  "3 * m + 2 \<noteq> 3 * n" "3 * m + 2 \<noteq> 3 * n + 1" "2 * m \<noteq> 2 * n + 1" "2 * m + 1 \<noteq> 2 * n"
  by presburger+

lemma entry_of_set_entry: "entry_of (set_entry c v B) c' = (if c' = c then v AND 0x0FFF else entry_of B c')"
proof (cases c rule: even_odd_cases)
  case (even m)
  show ?thesis
  proof (cases c' rule: even_odd_cases)
    case e: (even m')
    have "ucast (ucast (v AND 0x0FFF) :: u8) OR push_bit 8 (ucast ((b AND 0xF0) OR (ucast (drop_bit 8 v) AND 0x0F) :: u8) AND 0x0F) =
        v AND 0x0FFF" for b
      by (rule bit_word_eqI) (auto simp: fat_nibbles bit_simps)
    then show ?thesis unfolding even e entry_of_even set_entry_even by (simp add: thirds del: One_nat_def)
  next
    case o': (odd m')
    have "drop_bit 4 (ucast ((b AND 0xF0) OR (ucast (drop_bit 8 v) AND 0x0F) :: u8)) = (drop_bit 4 (ucast b) :: u16)" for b :: u8
      by (rule bit_word_eqI) (auto simp: fat_nibbles bit_simps dest: bit_imp_le_length)
    then show ?thesis unfolding even o' entry_of_odd set_entry_even by (simp add: thirds del: One_nat_def)
  qed
next
  case (odd m)
  show ?thesis
  proof (cases c' rule: even_odd_cases)
    case e: (even m')
    have "push_bit 8 (ucast ((b AND 0x0F) OR ucast (push_bit 4 v) :: u8) AND 0x0F) = (push_bit 8 (ucast b AND 0x0F) :: u16)" for b :: u8
      by (rule bit_word_eqI) (auto simp: fat_nibbles bit_simps)
    then show ?thesis unfolding odd e entry_of_even set_entry_odd by (simp add: thirds del: One_nat_def)
  next
    case o': (odd m')
    have "drop_bit 4 (ucast ((b AND 0x0F) OR ucast (push_bit 4 v) :: u8)) OR
        push_bit 4 (ucast (ucast (drop_bit 4 (v AND 0x0FFF)) :: u8)) = v AND 0x0FFF" for b :: u8
      by (rule bit_word_eqI) (auto simp: fat_nibbles bit_simps)
    then show ?thesis unfolding odd o' entry_of_odd set_entry_odd by (simp add: thirds del: One_nat_def)
  qed
qed

text \<open>The table as a disk of sectors holds it.\<close>

definition table_byte :: "('d \<Rightarrow> u32 \<Rightarrow> bytes) \<Rightarrow> f12 \<Rightarrow> 'd \<Rightarrow> nat \<Rightarrow> u8" where
  "table_byte sec f d k = sec d (first_fat f + of_nat (k div 512)) ! (k mod 512)"

definition table :: "('d \<Rightarrow> u32 \<Rightarrow> bytes) \<Rightarrow> f12 \<Rightarrow> 'd \<Rightarrow> nat \<Rightarrow> u16" where
  "table sec f d c = entry_of (table_byte sec f d) c"

definition same_on :: "('d \<Rightarrow> u32 \<Rightarrow> bytes) \<Rightarrow> u32 set \<Rightarrow> 'd \<Rightarrow> 'd \<Rightarrow> bool" where
  "same_on sec L d d' = (\<forall>l \<in> L. sec d' l = sec d l)"

lemma same_on_refl [simp]: "same_on sec L d d"
  by (simp add: same_on_def)

lemma same_on_trans [trans]: "same_on sec L d d' \<Longrightarrow> same_on sec L d' d'' \<Longrightarrow> same_on sec L d d''"
  by (simp add: same_on_def)

lemma same_on_mono: "same_on sec L d d' \<Longrightarrow> K \<subseteq> L \<Longrightarrow> same_on sec K d d'"
  by (auto simp: same_on_def)

lemma entry_of_cong: "B (c + c div 2) = B' (c + c div 2) \<Longrightarrow> B (c + c div 2 + 1) = B' (c + c div 2 + 1) \<Longrightarrow>
    entry_of B c = entry_of B' c"
  by (simp add: entry_of_def Let_def)

lemma set_entry_cong: "\<forall>j < n. B j = B' j \<Longrightarrow> c + c div 2 + 1 < n \<Longrightarrow> j < n \<Longrightarrow> set_entry c v B j = set_entry c v B' j"
  by (simp add: set_entry_def Let_def)

text \<open>
  The contract of a volume's table: it lies on the disk (twelve sectors hold every cluster number
  a chain can contain).
\<close>

locale fat_table = sector_io "io_read io" "io_write io" sec good nsec
  for io :: "'d f12_io" and sec :: "'d \<Rightarrow> u32 \<Rightarrow> bytes" and good :: "'d \<Rightarrow> bool" and nsec :: nat +
  fixes f :: f12
  assumes table_fits: "unat (first_fat f) + 12 \<le> nsec" "nsec \<le> 4294967296"
begin

lemma table_lba:
  assumes "j < 12"
  shows "unat (first_fat f + of_nat j) = unat (first_fat f) + j" "unat (first_fat f + of_nat j) < nsec"
proof -
  have j: "unat (of_nat j :: u32) = j" using assms by (simp add: unat_of_nat_u32)
  show e: "unat (first_fat f + of_nat j) = unat (first_fat f) + j"
    using assms table_fits j by (subst unat_u32_add_small) auto
  show "unat (first_fat f + of_nat j) < nsec" using e assms table_fits by simp
qed

lemma off_split:
  "off div F12_SECTOR = of_nat (unat off div 512)" "unat (off mod F12_SECTOR) = unat off mod 512"
proof -
  have "unat (off div F12_SECTOR) = unat off div 512" by (simp add: F12_SECTOR_def unat_div)
  then show "off div F12_SECTOR = of_nat (unat off div 512)" by (metis of_nat_unat ucast_id)
  show "unat (off mod F12_SECTOR) = unat off mod 512" by (simp add: F12_SECTOR_def unat_mod)
qed

lemma table_byte_same:
  assumes "same_on sec {l. unat l < nsec} d d'" "k < 6144"
  shows "table_byte sec f d' k = table_byte sec f d k"
proof -
  have "k div 512 < 12" using assms(2) by (simp add: less_mult_imp_div_less)
  then show ?thesis using assms(1) table_lba by (simp add: table_byte_def same_on_def)
qed

lemma fat_byte_ok:
  assumes "good d" "unat off < 6144"
  shows "\<exists>d'. fat_byte io f off d = (Some (table_byte sec f d (unat off)), d') \<and> good d' \<and>
    same_on sec {l. unat l < nsec} d d'"
proof -
  have j: "unat off div 512 < 12" using assms(2) by (simp add: less_mult_imp_div_less)
  obtain d' where "io_read io (first_fat f + of_nat (unat off div 512)) d =
      (Some (sec d (first_fat f + of_nat (unat off div 512))), d')" "good d'"
      "\<forall>l. unat l < nsec \<longrightarrow> sec d' l = sec d l"
    using rd_law[OF assms(1) table_lba(2)[OF j]] by blast
  then show ?thesis by (simp add: fat_byte_def off_split table_byte_def same_on_def)
qed

lemma fat_byte_set_ok:
  assumes "good d" "unat off < 6144"
  shows "\<exists>d'. fat_byte_set io f off msk val d = (True, d') \<and> good d' \<and>
    (\<forall>k < 6144. table_byte sec f d' k = ((table_byte sec f d)(unat off :=
       (table_byte sec f d (unat off) AND NOT msk) OR (val AND msk))) k) \<and>
    same_on sec ({l. unat l < nsec} - {first_fat f + of_nat (unat off div 512)}) d d'"
proof -
  let ?j = "unat off div 512" and ?i = "unat off mod 512"
  have j: "?j < 12" using assms(2) by (simp add: less_mult_imp_div_less)
  let ?lba = "first_fat f + of_nat ?j"
  obtain d1 where d1: "io_read io ?lba d = (Some (sec d ?lba), d1)" "good d1" "\<And>l. unat l < nsec \<Longrightarrow> sec d1 l = sec d l"
    using rd_law[OF assms(1) table_lba(2)[OF j]] by blast
  let ?s = "(sec d ?lba)[?i := (sec d ?lba ! ?i AND NOT msk) OR (val AND msk)]"
  have len: "length (sec d ?lba) = 512" by (rule sec_length[OF assms(1) table_lba(2)[OF j]])
  obtain d2 where d2: "io_write io ?lba ?s d1 = (True, d2)" "good d2"
      "\<And>l. unat l < nsec \<Longrightarrow> sec d2 l = (if l = ?lba then ?s else sec d1 l)"
    using wr_law[OF d1(2) table_lba(2)[OF j], of ?s] len by auto
  have "table_byte sec f d2 k = ((table_byte sec f d)(unat off :=
       (table_byte sec f d (unat off) AND NOT msk) OR (val AND msk))) k" if k: "k < 6144" for k
  proof -
    have k': "k div 512 < 12" using k by (simp add: less_mult_imp_div_less)
    have eq: "first_fat f + of_nat (k div 512) = ?lba \<longleftrightarrow> k div 512 = ?j"
      using table_lba(1)[OF k'] table_lba(1)[OF j] by (metis add_left_cancel)
    show ?thesis
    proof (cases "k div 512 = ?j")
      case True
      then have "k = unat off \<longleftrightarrow> k mod 512 = ?i" by (metis div_mod_decomp)
      then show ?thesis using True d2(3)[OF table_lba(2)[OF j]] len by (auto simp: table_byte_def nth_list_update)
    next
      case False
      then show ?thesis using eq d2(3)[OF table_lba(2)[OF k']] d1(3)[OF table_lba(2)[OF k']] by (auto simp: table_byte_def)
    qed
  qed
  moreover have "fat_byte_set io f off msk val d = (True, d2)"
    using d1(1) d2(1) by (simp add: fat_byte_set_def off_split)
  moreover have "same_on sec ({l. unat l < nsec} - {?lba}) d d2" using d1(3) d2(3) by (simp add: same_on_def)
  ultimately show ?thesis using d2(2) by blast
qed

end

lemma of_nat_u32_of_unat: "of_nat (unat c) = (c :: u32)"
  by (metis of_nat_unat ucast_id)

lemma odd_u32: "(c AND 1 \<noteq> 0) = odd (unat (c :: u32))"
proof -
  have "(c AND 1 \<noteq> 0) = odd c" by (simp add: and_one_eq odd_iff_mod_2_eq_one)
  also have "\<dots> = odd (unat c)" unfolding bit_0[symmetric] by (simp add: bit_unsigned_iff)
  finally show ?thesis .
qed

lemma fat_off_nat:
  assumes "unat c < 4088"
  shows "unat (fat_off c) = unat c + unat c div 2" "unat (fat_off c + 1) = unat c + unat c div 2 + 1"
    "unat c + unat c div 2 + 1 < 6144"
proof -
  show b: "unat c + unat c div 2 + 1 < 6144" using assms by linarith
  have d: "unat (c div 2) = unat c div 2" by (simp add: unat_div)
  show e: "unat (fat_off c) = unat c + unat c div 2"
    unfolding fat_off_def using b d by (subst unat_u32_add_small) auto
  show "unat (fat_off c + 1) = unat c + unat c div 2 + 1"
    using b e by (subst unat_u32_add_small) auto
qed

lemma set_entry_bytes:
  fixes B1 :: "nat \<Rightarrow> u8"
  assumes "\<forall>k < n. B1 k = (B(i := x)) k" "\<forall>k < n. B2 k = (B1(i + 1 := (B1 (i + 1) AND NOT m) OR w)) k" "i + 1 < n"
  shows "\<forall>k < n. B2 k = (B(i := x, i + 1 := (B (i + 1) AND NOT m) OR w)) k"
  using assms by simp

context fat_table
begin

lemma table_same:
  assumes "same_on sec {l. unat l < nsec} d d'" "c < 4088"
  shows "table sec f d' c = table sec f d c"
  unfolding table_def by (rule entry_of_cong) (use assms table_byte_same in auto)

lemma fat_get_ok:
  assumes "good d" "unat c < 4088"
  shows "\<exists>d'. fat_get io f c d = (table sec f d (unat c), d') \<and> good d' \<and> same_on sec {l. unat l < nsec} d d'"
proof -
  note n = fat_off_nat[OF assms(2)]
  obtain d1 where d1: "fat_byte io f (fat_off c) d = (Some (table_byte sec f d (unat c + unat c div 2)), d1)" "good d1"
    "same_on sec {l. unat l < nsec} d d1"
    using fat_byte_ok[OF assms(1), of "fat_off c"] n by auto
  obtain d2 where d2: "fat_byte io f (fat_off c + 1) d1 = (Some (table_byte sec f d1 (unat c + unat c div 2 + 1)), d2)" "good d2"
    "same_on sec {l. unat l < nsec} d1 d2"
    using fat_byte_ok[OF d1(2), of "fat_off c + 1"] n by auto
  have "fat_get io f c d = (table sec f d (unat c), d2)"
    using d1(1) d2(1) table_byte_same[OF d1(3) n(3)]
    by (simp add: fat_get_def odd_u32 table_def entry_of_def Let_def)
  then show ?thesis using d2(2) same_on_trans[OF d1(3) d2(3)] by blast
qed

lemma set_two:
  assumes "good d" "unat c < 4088"
  shows "\<exists>d1 d2. fat_byte_set io f (fat_off c) m1 v1 d = (True, d1) \<and> fat_byte_set io f (fat_off c + 1) m2 v2 d1 = (True, d2) \<and>
    good d2 \<and> (\<forall>k < 6144. table_byte sec f d2 k = ((table_byte sec f d)
      (unat c + unat c div 2 := (table_byte sec f d (unat c + unat c div 2) AND NOT m1) OR (v1 AND m1),
       unat c + unat c div 2 + 1 := (table_byte sec f d (unat c + unat c div 2 + 1) AND NOT m2) OR (v2 AND m2))) k) \<and>
    same_on sec ({l. unat l < nsec} - {first_fat f + of_nat ((unat c + unat c div 2) div 512),
      first_fat f + of_nat ((unat c + unat c div 2 + 1) div 512)}) d d2"
proof -
  let ?i = "unat c + unat c div 2"
  note n = fat_off_nat[OF assms(2)]
  obtain d1 where d1: "fat_byte_set io f (fat_off c) m1 v1 d = (True, d1)" "good d1"
    "\<forall>k < 6144. table_byte sec f d1 k = ((table_byte sec f d)(?i := (table_byte sec f d ?i AND NOT m1) OR (v1 AND m1))) k"
    "same_on sec ({l. unat l < nsec} - {first_fat f + of_nat (?i div 512)}) d d1"
    using fat_byte_set_ok[OF assms(1), of "fat_off c" m1 v1] n by auto
  obtain d2 where d2: "fat_byte_set io f (fat_off c + 1) m2 v2 d1 = (True, d2)" "good d2"
    "\<forall>k < 6144. table_byte sec f d2 k = ((table_byte sec f d1)(?i + 1 := (table_byte sec f d1 (?i + 1) AND NOT m2) OR (v2 AND m2))) k"
    "same_on sec ({l. unat l < nsec} - {first_fat f + of_nat ((?i + 1) div 512)}) d1 d2"
    using fat_byte_set_ok[OF d1(2), of "fat_off c + 1" m2 v2] n by auto
  let ?L = "{l. unat l < nsec} - {first_fat f + of_nat (?i div 512), first_fat f + of_nat ((?i + 1) div 512)}"
  have "same_on sec ?L d d2"
    by (rule same_on_trans[OF same_on_mono[OF d1(4)] same_on_mono[OF d2(4)]]) auto
  then show ?thesis using d1(1) d2(1,2) set_entry_bytes[OF d1(3) d2(3) n(3)] by blast
qed

lemma fat_set_ok:
  assumes "good d" "unat c < 4088"
  shows "\<exists>d'. fat_set io f c v d = (True, d') \<and> good d' \<and>
    (\<forall>k < 4088. table sec f d' k = ((table sec f d)(unat c := v AND 0x0FFF)) k) \<and>
    same_on sec ({l. unat l < nsec} - {first_fat f + of_nat ((unat c + unat c div 2) div 512),
      first_fat f + of_nat ((unat c + unat c div 2 + 1) div 512)}) d d'"
proof -
  let ?L = "{l. unat l < nsec} - {first_fat f + of_nat ((unat c + unat c div 2) div 512),
      first_fat f + of_nat ((unat c + unat c div 2 + 1) div 512)}"
  obtain d' where d': "fat_set io f c v d = (True, d')" "good d'"
    "\<forall>k < 6144. table_byte sec f d' k = set_entry (unat c) v (table_byte sec f d) k" "same_on sec ?L d d'"
  proof (cases "odd (unat c)")
    case True
    obtain d1 d2 where "fat_byte_set io f (fat_off c) 0xF0 (ucast (push_bit 4 (v AND 0x0FFF))) d = (True, d1)"
      "fat_byte_set io f (fat_off c + 1) 0xFF (ucast (drop_bit 4 (v AND 0x0FFF))) d1 = (True, d2)" "good d2"
      "\<forall>k < 6144. table_byte sec f d2 k = set_entry (unat c) v (table_byte sec f d) k" "same_on sec ?L d d2"
      using set_two[OF assms, of "0xF0" "ucast (push_bit 4 (v AND 0x0FFF))" "0xFF" "ucast (drop_bit 4 (v AND 0x0FFF))"] True
      unfolding set_entry_def Let_def by auto
    then show ?thesis using True that[of d2] by (simp add: fat_set_def odd_u32 Let_def)
  next
    case False
    obtain d1 d2 where "fat_byte_set io f (fat_off c) 0xFF (ucast (v AND 0x0FFF)) d = (True, d1)"
      "fat_byte_set io f (fat_off c + 1) 0x0F (ucast (drop_bit 8 (v AND 0x0FFF))) d1 = (True, d2)" "good d2"
      "\<forall>k < 6144. table_byte sec f d2 k = set_entry (unat c) v (table_byte sec f d) k" "same_on sec ?L d d2"
      using set_two[OF assms, of "0xFF" "ucast (v AND 0x0FFF)" "0x0F" "ucast (drop_bit 8 (v AND 0x0FFF))"] False
      unfolding set_entry_def Let_def by auto
    then show ?thesis using False that[of d2] by (simp add: fat_set_def odd_u32 Let_def)
  qed
  have "table sec f d' k = ((table sec f d)(unat c := v AND 0x0FFF)) k" if "k < 4088" for k
  proof -
    have "table sec f d' k = entry_of (set_entry (unat c) v (table_byte sec f d)) k"
      unfolding table_def by (rule entry_of_cong) (use d'(3) that in auto)
    then show ?thesis by (simp add: entry_of_set_entry table_def)
  qed
  then show ?thesis using d'(1,2,4) by blast
qed

end

subsection \<open>Freeing a chain ends\<close>

definition used :: "(nat \<Rightarrow> u16) \<Rightarrow> nat set" where
  "used T = {k \<in> {2..<4088}. T k \<noteq> 0}"

lemma used_finite [simp]: "finite (used T)"
  by (simp add: used_def)

lemma used_shrinks:
  assumes "\<And>k. k < 4088 \<Longrightarrow> T' k = (T(c := 0)) k" "2 \<le> c" "c < 4088" "T c \<noteq> 0"
  shows "used T' \<subset> used T"
proof
  show "used T' \<subseteq> used T"
  proof
    fix k assume "k \<in> used T'"
    then show "k \<in> used T" using assms(1)[of k] by (simp add: used_def split: if_splits)
  qed
  have "c \<in> used T" "c \<notin> used T'" using assms(1)[of c] assms(2-4) by (simp_all add: used_def)
  then show "used T' \<noteq> used T" by blast
qed

lemma in_chain_nat: "in_chain c \<longleftrightarrow> 2 \<le> unat c \<and> unat c < 4088"
  by (simp add: in_chain_def word_le_nat_alt word_less_nat_alt)

lemma not_in_chain_0 [simp]: "\<not> in_chain 0"
  by (simp add: in_chain_def)

lemma free_chain_end: "\<not> in_chain c \<Longrightarrow> free_chain io f c d = Some d"
  by (simp add: free_chain.simps[of io f c d])

lemma free_chain_step:
  assumes "in_chain c" "fat_get io f c d = (v, d1)" "fat_set io f c F12_FREE d1 = (True, d2)"
  shows "free_chain io f c d = free_chain io f (ucast v) d2"
  using assms by (simp add: free_chain.simps[of io f c d])

text \<open>The sectors a chain of any numbers can reach in the table.\<close>

definition table_reach :: "f12 \<Rightarrow> u32 set" where
  "table_reach f = (\<lambda>j. first_fat f + of_nat j) ` {..<12}"

context fat_table
begin

lemma fat_set_reach:
  assumes "good d" "unat c < 4088"
  shows "\<exists>d'. fat_set io f c v d = (True, d') \<and> good d' \<and>
    (\<forall>k < 4088. table sec f d' k = ((table sec f d)(unat c := v AND 0x0FFF)) k) \<and>
    same_on sec ({l. unat l < nsec} - table_reach f) d d'"
proof -
  have "(unat c + unat c div 2) div 512 < 12" "(unat c + unat c div 2 + 1) div 512 < 12"
    using fat_off_nat(3)[OF assms(2)] by (simp_all add: less_mult_imp_div_less)
  then have "first_fat f + of_nat ((unat c + unat c div 2) div 512) \<in> table_reach f"
    "first_fat f + of_nat ((unat c + unat c div 2 + 1) div 512) \<in> table_reach f"
    unfolding table_reach_def by blast+
  then have sub: "{l. unat l < nsec} - table_reach f \<subseteq> {l. unat l < nsec} - {first_fat f + of_nat ((unat c + unat c div 2) div 512),
      first_fat f + of_nat ((unat c + unat c div 2 + 1) div 512)}" by blast
  obtain d' where d': "fat_set io f c v d = (True, d')" "good d'"
    "\<forall>k < 4088. table sec f d' k = ((table sec f d)(unat c := v AND 0x0FFF)) k"
    "same_on sec ({l. unat l < nsec} - {first_fat f + of_nat ((unat c + unat c div 2) div 512),
      first_fat f + of_nat ((unat c + unat c div 2 + 1) div 512)}) d d'"
    using fat_set_ok[OF assms, of v] by blast
  show ?thesis by (intro exI[of _ d'] conjI d'(1,2,3) same_on_mono[OF d'(4) sub])
qed

lemma free_chain_ok:
  assumes "good d"
  shows "\<exists>d'. free_chain io f c d = Some d' \<and> good d' \<and>
    (\<forall>k < 4088. table sec f d' k = 0 \<or> table sec f d' k = table sec f d k) \<and> (in_chain c \<longrightarrow> table sec f d' (unat c) = 0) \<and>
    same_on sec ({l. unat l < nsec} - table_reach f) d d'"
  using assms
proof (induction "card (used (table sec f d))" arbitrary: c d rule: less_induct)
  case less
  show ?case
  proof (cases "in_chain c")
    case False
    then show ?thesis using less.prems free_chain_end[OF False] by (intro exI[of _ d]) simp
  next
    case True
    then have c: "2 \<le> unat c" "unat c < 4088" by (simp_all add: in_chain_nat)
    obtain d1 where d1: "fat_get io f c d = (table sec f d (unat c), d1)" "good d1" "same_on sec {l. unat l < nsec} d d1"
      using fat_get_ok[OF less.prems c(2)] by blast
    obtain d2 where d2: "fat_set io f c F12_FREE d1 = (True, d2)" "good d2"
      "\<And>k. k < 4088 \<Longrightarrow> table sec f d2 k = ((table sec f d1)(unat c := 0)) k" "same_on sec ({l. unat l < nsec} - table_reach f) d1 d2"
      using fat_set_reach[OF d1(2) c(2), of F12_FREE] by (auto simp: F12_FREE_def)
    have T: "table sec f d2 k = ((table sec f d)(unat c := 0)) k" if "k < 4088" for k
      using d2(3)[OF that] table_same[OF d1(3) that] by simp
    have fr: "same_on sec ({l. unat l < nsec} - table_reach f) d d2"
      by (rule same_on_trans[OF same_on_mono[OF d1(3)] d2(4)]) blast
    have step: "free_chain io f c d = free_chain io f (ucast (table sec f d (unat c))) d2"
      by (rule free_chain_step[OF True d1(1) d2(1)])
    show ?thesis
    proof (cases "table sec f d (unat c) = 0")
      case zero: True
      then have "free_chain io f c d = Some d2" using step by (simp add: free_chain_end)
      then show ?thesis using d2(2) T fr c(2) by (intro exI[of _ d2]) simp
    next
      case False
      have "used (table sec f d2) \<subset> used (table sec f d)"
        by (rule used_shrinks[OF T c False])
      then have "card (used (table sec f d2)) < card (used (table sec f d))" by (simp add: psubset_card_mono)
      from less.hyps[OF this d2(2), of "ucast (table sec f d (unat c))"] obtain d' where d':
        "free_chain io f (ucast (table sec f d (unat c))) d2 = Some d'" "good d'"
        "\<And>k. k < 4088 \<Longrightarrow> table sec f d' k = 0 \<or> table sec f d' k = table sec f d2 k"
        "same_on sec ({l. unat l < nsec} - table_reach f) d2 d'" by blast
      have "table sec f d' k = 0 \<or> table sec f d' k = table sec f d k" if "k < 4088" for k
        using d'(3)[OF that] T[OF that] by (auto split: if_splits)
      moreover have "table sec f d' (unat c) = 0" using d'(3)[OF c(2)] T[OF c(2)] by auto
      ultimately show ?thesis using d'(1,2) step same_on_trans[OF fr d'(4)] by (intro exI[of _ d']) simp
    qed
  qed
qed

end

section \<open>The table of the transfer drive\<close>

definition region_io :: "u32 \<Rightarrow> flash_prog \<Rightarrow> region f12_io" where
  "region_io slot prog =
     \<lparr>io_read = region_read slot prog, io_write = region_write slot prog, io_sectors = slot div F12_SECTOR\<rparr>"

definition table_on_drive :: "u32 \<Rightarrow> flash_prog \<Rightarrow> f12 \<Rightarrow> bool" where
  "table_on_drive slot prog f = (flash_ok slot prog \<and> unat (first_fat f) + 12 \<le> unat slot div 512)"

lemma region_fat_table:
  assumes "table_on_drive slot prog f"
  shows "fat_table (region_io slot prog) (region_sec slot) (region_ok slot) (unat slot div 512) f"
proof (rule fat_table.intro)
  show "sector_io (io_read (region_io slot prog)) (io_write (region_io slot prog)) (region_sec slot) (region_ok slot) (unat slot div 512)"
    using region_sector_io assms by (simp add: region_io_def table_on_drive_def)
  have "unat slot div 512 \<le> unat slot" by simp
  then have "unat slot div 512 \<le> 4294967296" using unat_u32_less[of slot] by linarith
  then show "fat_table_axioms (unat slot div 512) f" using assms by (simp add: fat_table_axioms_def table_on_drive_def)
qed

text \<open>The volume \<open>f12_format\<close> lays out on a drive of 1024 sectors.\<close>

definition drive_volume :: f12 where
  "drive_volume = \<lparr>reserved = 1, num_fats = 1, root_entries = 128, spc = 1, fat_sectors = 3, first_fat = 1,
     first_root = 4, first_data = 12, clusters = 1012, mounted = True\<rparr>"

lemma drive_table: "table_on_drive 0x80000 ideal_prog drive_volume"
  using ideal_flash by (simp add: table_on_drive_def drive_volume_def)

interpretation drive_fat: fat_table "region_io 0x80000 ideal_prog" "region_sec 0x80000" "region_ok 0x80000"
  "unat (0x80000 :: u32) div 512" drive_volume
  by (rule region_fat_table[OF drive_table])

fun run_sets :: "'d f12_io \<Rightarrow> f12 \<Rightarrow> (u32 \<times> u16) list \<Rightarrow> 'd \<Rightarrow> bool \<times> 'd" where
  "run_sets io f [] d = (True, d)"
| "run_sets io f ((c, v) # ws) d =
     (case fat_set io f c v d of (ok, d) \<Rightarrow> (case run_sets io f ws d of (ok', d) \<Rightarrow> (ok \<and> ok', d)))"

definition put_entry12 :: "u32 \<times> u16 \<Rightarrow> (nat \<Rightarrow> u16) \<Rightarrow> nat \<Rightarrow> u16" where
  "put_entry12 w T = T(unat (fst w) := snd w AND 0x0FFF)"

lemma fold_put_entry12_cong: "T k = T' k \<Longrightarrow> fold put_entry12 ws T k = fold put_entry12 ws T' k"
proof (induction ws arbitrary: T T')
  case (Cons w ws)
  have "put_entry12 w T k = put_entry12 w T' k" by (simp add: put_entry12_def Cons.prems)
  then show ?case using Cons.IH[of "put_entry12 w T" "put_entry12 w T'"] by simp
qed simp

context fat_table
begin

lemma run_sets_ok:
  assumes "good d" "\<forall>(c, v) \<in> set ws. unat c < 4088"
  shows "\<exists>d'. run_sets io f ws d = (True, d') \<and> good d' \<and>
    (\<forall>k < 4088. table sec f d' k = fold put_entry12 ws (table sec f d) k) \<and>
    same_on sec ({l. unat l < nsec} - table_reach f) d d'"
  using assms
proof (induction ws arbitrary: d)
  case Nil
  then show ?case by simp
next
  case (Cons w ws)
  obtain c v where w: "w = (c, v)" by fastforce
  obtain d1 where d1: "fat_set io f c v d = (True, d1)" "good d1"
    "\<And>k. k < 4088 \<Longrightarrow> table sec f d1 k = put_entry12 (c, v) (table sec f d) k"
    "same_on sec ({l. unat l < nsec} - table_reach f) d d1"
    using fat_set_reach[OF Cons.prems(1), of c v] Cons.prems(2) w by (auto simp: put_entry12_def)
  obtain d2 where d2: "run_sets io f ws d1 = (True, d2)" "good d2"
    "\<And>k. k < 4088 \<Longrightarrow> table sec f d2 k = fold put_entry12 ws (table sec f d1) k"
    "same_on sec ({l. unat l < nsec} - table_reach f) d1 d2"
    using Cons.IH[OF d1(2)] Cons.prems(2) by auto
  have "table sec f d2 k = fold put_entry12 (w # ws) (table sec f d) k" if "k < 4088" for k
    using d2(3)[OF that] w
      fold_put_entry12_cong[of "table sec f d1" k "put_entry12 (c, v) (table sec f d)" ws, OF d1(3)[OF that]] by simp
  then show ?case using d1(1) d2(1,2) same_on_trans[OF d1(4) d2(4)] w by (intro exI[of _ d2]) simp
qed

end

text \<open>
  C28. The packed table is an array of twelve-bit numbers.  Two entries share the middle one of
  three bytes, and an entry may begin in one sector and end in the next; still, after any
  sequence of \<open>fat_set\<close>s (all of which succeed) every entry reads back as the last value
  stored in it or, if none was, as before, and no sector outside the table has changed.
\<close>

theorem fat_table_array:
  assumes "table_on_drive slot prog f" "region_ok slot r" "\<forall>(c, v) \<in> set ws. unat c < 4088" "unat c < 4088"
    and "unat l < unat slot div 512" "l \<notin> table_reach f"
  defines "io \<equiv> region_io slot prog"
  shows "fst (run_sets io f ws r) \<and>
    fst (fat_get io f c (snd (run_sets io f ws r))) = fold put_entry12 ws (\<lambda>k. fst (fat_get io f (of_nat k) r)) (unat c) \<and>
    region_sec slot (snd (run_sets io f ws r)) l = region_sec slot r l"
proof -
  let ?T = "table (region_sec slot) f"
  note ft = region_fat_table[OF assms(1), folded io_def]
  obtain r' where r': "run_sets io f ws r = (True, r')" "region_ok slot r'"
    "\<And>k. k < 4088 \<Longrightarrow> ?T r' k = fold put_entry12 ws (?T r) k"
    "same_on (region_sec slot) ({l. unat l < unat slot div 512} - table_reach f) r r'"
    using fat_table.run_sets_ok[OF ft assms(2,3)] by blast
  have "fst (fat_get io f c r') = ?T r' (unat c)" using fat_table.fat_get_ok[OF ft r'(2) assms(4)] by force
  also have "\<dots> = fold put_entry12 ws (?T r) (unat c)" by (rule r'(3)[OF assms(4)])
  also have "\<dots> = fold put_entry12 ws (\<lambda>k. fst (fat_get io f (of_nat k) r)) (unat c)"
    by (rule fold_put_entry12_cong) (use fat_table.fat_get_ok[OF ft assms(2,4)] in \<open>force simp: of_nat_u32_of_unat\<close>)
  finally show ?thesis using r'(1,4) assms(5,6) by (simp add: same_on_def)
qed

definition zero_region :: region where
  "zero_region = blank_region\<lparr>g_flash := (\<lambda>_. 0)\<rparr>"

lemma zero_ok: "region_ok 0x80000 zero_region"
  by (simp add: region_ok_def zero_region_def blank_region_def)

theorem fat_table_array_witness:
  "fst (fat_get (region_io 0x80000 ideal_prog) drive_volume 341
     (snd (run_sets (region_io 0x80000 ideal_prog) drive_volume [(341, 0x123), (340, 0xABC), (341, 0x1456), (342, 0x789)] zero_region))) = 0x456"
proof -
  have "table_reach drive_volume \<subseteq> {l. unat l < 100}"
  proof
    fix l assume "l \<in> table_reach drive_volume"
    then obtain j where "l = 1 + of_nat j" "j < 12" by (auto simp: table_reach_def drive_volume_def)
    then show "l \<in> {l. unat l < 100}" by (simp add: unat_u32_add unat_of_nat_u32 flip: of_nat_Suc)
  qed
  then have "100 \<notin> table_reach drive_volume" by auto
  then show ?thesis
    using fat_table_array[OF drive_table zero_ok, of "[(341, 0x123), (340, 0xABC), (341, 0x1456), (342, 0x789)]" 341 100]
    by (simp add: put_entry12_def)
qed

text \<open>
  C29. Freeing a chain ends, whatever the table holds.  The links come from the drive, which the
  host writes: a chain may run in a circle or leave the volume.  \<open>free_chain\<close> returns all the
  same; it has freed the cluster it was given, changed no other entry except to free it, and
  written nothing but the sectors that cluster numbers address in the table.
\<close>

theorem free_chain_terminates:
  assumes "table_on_drive slot prog f" "region_ok slot r"
  defines "io \<equiv> region_io slot prog"
  shows "\<exists>r'. free_chain io f c r = Some r' \<and> region_ok slot r' \<and> (in_chain c \<longrightarrow> fst (fat_get io f c r') = F12_FREE) \<and>
    (\<forall>k. unat k < 4088 \<longrightarrow> fst (fat_get io f k r') = F12_FREE \<or> fst (fat_get io f k r') = fst (fat_get io f k r)) \<and>
    (\<forall>l. unat l < unat slot div 512 \<and> l \<notin> table_reach f \<longrightarrow> region_sec slot r' l = region_sec slot r l)"
proof -
  let ?T = "table (region_sec slot) f"
  note ft = region_fat_table[OF assms(1), folded io_def]
  obtain r' where r': "free_chain io f c r = Some r'" "region_ok slot r'"
    "\<And>k. k < 4088 \<Longrightarrow> ?T r' k = 0 \<or> ?T r' k = ?T r k" "in_chain c \<Longrightarrow> ?T r' (unat c) = 0"
    "same_on (region_sec slot) ({l. unat l < unat slot div 512} - table_reach f) r r'"
    using fat_table.free_chain_ok[OF ft assms(2), of c] by blast
  have get: "fst (fat_get io f k q) = ?T q (unat k)" if "region_ok slot q" "unat k < 4088" for k q
    using fat_table.fat_get_ok[OF ft that] by force
  show ?thesis using r' get[OF r'(2)] get[OF assms(2)]
    by (intro exI[of _ r']) (auto simp: F12_FREE_def in_chain_nat same_on_def)
qed

text \<open>Two clusters that point at each other.\<close>

theorem free_chain_terminates_witness:
  "\<exists>r'. free_chain (region_io 0x80000 ideal_prog) drive_volume 5
     (snd (run_sets (region_io 0x80000 ideal_prog) drive_volume [(5, 6), (6, 5)] zero_region)) = Some r'"
proof -
  have "region_ok 0x80000 (snd (run_sets (region_io 0x80000 ideal_prog) drive_volume [(5, 6), (6, 5)] zero_region))"
    using drive_fat.run_sets_ok[OF zero_ok, of "[(5, 6), (6, 5)]"] by auto
  from free_chain_terminates[OF drive_table this, of 5] show ?thesis by blast
qed

end
