(* ===== verification/Fat12Data.thy ===== *)
theory Fat12Data
  imports Fat12
begin

text \<open>
  What the FAT12 driver does to file data: cluster allocation, the loop of \<open>f12_write\<close> that stores a
  file in a chain of clusters, and \<open>f12_read\<close> with and without its cursor, on a volume whose
  geometry is the one mounting and formatting aim at (locale \<open>fat_volume\<close>).
\<close>

section \<open>File data\<close>

text \<open>
  A volume whose parts lie in order on the disk, with a table long enough for its clusters:
  what \<open>f12_mount\<close> and \<open>f12_format\<close> are meant to establish.
\<close>

definition f12_ok :: "nat \<Rightarrow> f12 \<Rightarrow> bool" where
  "f12_ok nsec f =
     (0 < unat (spc f) \<and> unat (spc f) < 256 \<and> 0 < unat (clusters f) \<and> unat (clusters f) < 4085 \<and>
      3 * (unat (clusters f) + 2) \<le> 1024 * unat (fat_sectors f) \<and>
      unat (first_fat f) + unat (fat_sectors f) \<le> unat (first_data f) \<and>
      unat (first_data f) + unat (clusters f) * unat (spc f) \<le> nsec)"

definition cluster_ok :: "f12 \<Rightarrow> u32 \<Rightarrow> bool" where
  "cluster_ok f c = (2 \<le> unat c \<and> unat c < unat (clusters f) + 2)"

definition table_lbas :: "f12 \<Rightarrow> u32 set" where
  "table_lbas f = {l. unat (first_fat f) \<le> unat l \<and> unat l < unat (first_fat f) + unat (fat_sectors f)}"

definition data_lba :: "f12 \<Rightarrow> u32 \<Rightarrow> nat \<Rightarrow> u32" where
  "data_lba f c s = first_data f + (c - 2) * spc f + of_nat s"

definition is_chain :: "f12 \<Rightarrow> (nat \<Rightarrow> u16) \<Rightarrow> u32 list \<Rightarrow> bool" where
  "is_chain f T cs =
     (distinct cs \<and> (\<forall>c \<in> set cs. cluster_ok f c) \<and>
      (\<forall>i < length cs. T (unat (cs ! i)) = (if i + 1 < length cs then ucast (cs ! (i + 1)) else F12_EOC)))"

text \<open>The sector that holds the data from position \<open>p\<close> on, its tail zeroed.\<close>

definition sector_of :: "bytes \<Rightarrow> nat \<Rightarrow> bytes" where
  "sector_of data p = put_bytes 0 (take 512 (drop p data)) (replicate 512 0)"

definition holds :: "('d \<Rightarrow> u32 \<Rightarrow> bytes) \<Rightarrow> f12 \<Rightarrow> 'd \<Rightarrow> u32 list \<Rightarrow> bytes \<Rightarrow> bool" where
  "holds sec f d cs data =
     (\<forall>i < length cs. \<forall>s < unat (spc f). (i * unat (spc f) + s) * 512 < length data \<longrightarrow>
        sec d (data_lba f (cs ! i) s) = sector_of data ((i * unat (spc f) + s) * 512))"

lemma table_bound: "2 * i \<le> 3 * c \<Longrightarrow> 3 * (n + 2) \<le> 1024 * F \<Longrightarrow> c < n + 2 \<Longrightarrow> i + 1 < 512 * (F :: nat)"
  by simp

lemma sector_of_length [simp]: "length (sector_of data p) = 512"
  by (simp add: sector_of_def put_bytes_def)

lemma take_sector_of:
  assumes "k + n \<le> 512" "p + k + n \<le> length data"
  shows "take n (drop k (sector_of data p)) = take n (drop (p + k) data)"
proof -
  have "take n (drop k (take 512 (drop p data) @ drop (length (take 512 (drop p data))) (replicate 512 0))) =
      take n (drop k (take 512 (drop p data)))" using assms by (auto simp: min_def)
  also have "\<dots> = take n (drop (p + k) data)" using assms by (simp add: drop_take add.commute min_absorb1)
  finally show ?thesis by (simp add: sector_of_def put_bytes_def)
qed

locale fat_volume = fat_table io sec good nsec f
  for io :: "'d f12_io" and sec :: "'d \<Rightarrow> u32 \<Rightarrow> bytes" and good :: "'d \<Rightarrow> bool" and nsec :: nat and f :: f12 +
  assumes geometry: "f12_ok nsec f"
begin

lemma cluster_small: "cluster_ok f c \<Longrightarrow> unat c < 4088"
  using geometry by (simp add: cluster_ok_def f12_ok_def)

lemma cluster_in_chain: "cluster_ok f c \<Longrightarrow> in_chain c"
  using geometry by (simp add: cluster_ok_def f12_ok_def in_chain_nat)

lemma data_lba_nat:
  assumes "cluster_ok f c" "s < unat (spc f)"
  shows "unat (data_lba f c s) = unat (first_data f) + (unat c - 2) * unat (spc f) + s" "unat (data_lba f c s) < nsec"
proof -
  let ?k = "unat c - 2" and ?S = "unat (spc f)"
  have k: "?k < unat (clusters f)" "2 \<le> unat c" using assms(1) by (auto simp: cluster_ok_def)
  have "?k * ?S + ?S = (?k + 1) * ?S" by simp
  also have "\<dots> \<le> unat (clusters f) * ?S" using k by (intro mult_le_mono1) simp
  finally have m: "?k * ?S + ?S \<le> unat (clusters f) * ?S" .
  have g: "unat (first_data f) + unat (clusters f) * ?S \<le> nsec" "nsec \<le> 4294967296"
    using geometry table_fits by (simp_all add: f12_ok_def)
  have "unat (c - 2) = ?k" using k by (simp add: unat_u32_sub_small)
  then have "unat ((c - 2) * spc f) = ?k * ?S" using m g assms(2) by (simp add: unat_word_ariths)
  moreover have "unat (of_nat s :: u32) = s" using assms(2) geometry by (simp add: unat_of_nat_u32 f12_ok_def)
  ultimately show e: "unat (data_lba f c s) = unat (first_data f) + ?k * ?S + s"
    using m g assms(2) unfolding data_lba_def by (simp add: unat_word_ariths)
  show "unat (data_lba f c s) < nsec" using e m g assms(2) by linarith
qed

lemma data_lba_inj:
  assumes "cluster_ok f c" "s < unat (spc f)" "cluster_ok f c'" "s' < unat (spc f)"
  shows "data_lba f c s = data_lba f c' s' \<longleftrightarrow> c = c' \<and> s = s'"
proof
  assume "data_lba f c s = data_lba f c' s'"
  then have e: "(unat c - 2) * unat (spc f) + s = (unat c' - 2) * unat (spc f) + s'"
    using data_lba_nat(1)[OF assms(1,2)] data_lba_nat(1)[OF assms(3,4)] by simp
  have "((unat c - 2) * unat (spc f) + s) div unat (spc f) = unat c - 2"
    "((unat c' - 2) * unat (spc f) + s') div unat (spc f) = unat c' - 2" using assms(2,4) by simp_all
  then have "unat c - 2 = unat c' - 2" using e by simp
  then have "unat c = unat c'" using assms(1,3) unfolding cluster_ok_def by linarith
  then have "c = c'" by (metis of_nat_unat ucast_id)
  with e show "c = c' \<and> s = s'" by simp
qed simp

lemma data_not_table:
  assumes "cluster_ok f c" "s < unat (spc f)"
  shows "data_lba f c s \<notin> table_lbas f"
  using data_lba_nat(1)[OF assms] geometry by (simp add: table_lbas_def f12_ok_def)

text \<open>The table operations, for the clusters of the volume: only the table's sectors change.\<close>

lemma fat_set_vol:
  assumes "good d" "unat c < unat (clusters f) + 2"
  shows "\<exists>d'. fat_set io f c v d = (True, d') \<and> good d' \<and>
    (\<forall>k < 4088. table sec f d' k = ((table sec f d)(unat c := v AND 0x0FFF)) k) \<and>
    same_on sec ({l. unat l < nsec} - table_lbas f) d d'"
proof -
  let ?i = "unat c + unat c div 2"
  have c: "unat c < 4088" using assms(2) geometry by (simp add: f12_ok_def)
  have "2 * ?i \<le> 3 * unat c" by simp
  moreover have "3 * (unat (clusters f) + 2) \<le> 1024 * unat (fat_sectors f)" using geometry by (simp add: f12_ok_def)
  ultimately have b: "?i + 1 < 512 * unat (fat_sectors f)" using assms(2) by (rule table_bound)
  have "first_fat f + of_nat (j div 512) \<in> table_lbas f" if "j \<le> ?i + 1" for j
  proof -
    have "j div 512 < 12" "j div 512 < unat (fat_sectors f)"
      using that b fat_off_nat(3)[OF c] by (simp_all add: less_mult_imp_div_less)
    then show ?thesis using table_lba(1)[of "j div 512"] by (simp add: table_lbas_def)
  qed
  then have sub: "{l. unat l < nsec} - table_lbas f \<subseteq> {l. unat l < nsec} - {first_fat f + of_nat (?i div 512),
      first_fat f + of_nat ((?i + 1) div 512)}" using le_add1[of ?i 1] by blast
  obtain d' where d': "fat_set io f c v d = (True, d')" "good d'"
    "\<forall>k < 4088. table sec f d' k = ((table sec f d)(unat c := v AND 0x0FFF)) k"
    "same_on sec ({l. unat l < nsec} - {first_fat f + of_nat (?i div 512), first_fat f + of_nat ((?i + 1) div 512)}) d d'"
    using fat_set_ok[OF assms(1) c, of v] by blast
  show ?thesis by (intro exI[of _ d'] conjI d'(1,2,3) same_on_mono[OF d'(4) sub])
qed

end

text \<open>What \<open>alloc_cluster\<close> does to the table.\<close>

definition alloc_in :: "u32 \<Rightarrow> u32 \<Rightarrow> (nat \<Rightarrow> u16) \<Rightarrow> nat \<Rightarrow> u16" where
  "alloc_in after c T = (if after = 0 then T(unat c := F12_EOC) else T(unat c := F12_EOC, unat after := ucast c))"

lemma eoc_masked: "F12_EOC AND 0x0FFF = F12_EOC"
  by (simp add: F12_EOC_def)

lemma cluster_masked:
  assumes "unat (c :: u32) < 4096"
  shows "(ucast c :: u16) AND 0x0FFF = ucast c" "ucast (ucast c :: u16) = c"
proof -
  have b: "n < 12" if "bit c n" for n
  proof (rule ccontr)
    assume "\<not> n < 12"
    then have that': "12 \<le> n" by simp
    from that have "bit (unat c) n" by (simp add: bit_unsigned_iff)
    moreover have "(2 :: nat) ^ 12 \<le> 2 ^ n" using that' by (rule power_increasing) simp
    then have "unat c div 2 ^ n = 0" using assms by simp
    ultimately show False by (simp add: bit_iff_odd)
  qed
  show "(ucast c :: u16) AND 0x0FFF = ucast c"
    by (rule bit_word_eqI) (auto simp: fat_nibbles bit_simps dest: b)
  show "ucast (ucast c :: u16) = c"
    by (rule bit_word_eqI) (auto simp: bit_simps dest: b)
qed

context fat_volume
begin

lemma alloc_scan_ok:
  assumes "good d" "\<forall>c \<in> set cs. cluster_ok f c" "after \<noteq> 0 \<longrightarrow> cluster_ok f after"
  shows "\<exists>d'. good d' \<and> same_on sec ({l. unat l < nsec} - table_lbas f) d d' \<and>
    (case List.find (\<lambda>c. table sec f d (unat c) = 0) cs of
       None \<Rightarrow> alloc_scan io f after cs d = (0, d') \<and> same_on sec {l. unat l < nsec} d d'
     | Some c \<Rightarrow> alloc_scan io f after cs d = (c, d') \<and> (\<forall>k < 4088. table sec f d' k = alloc_in after c (table sec f d) k))"
  using assms(1,2)
proof (induction cs arbitrary: d)
  case Nil
  then show ?case by (intro exI[of _ d]) simp
next
  case (Cons c cs)
  let ?L = "{l. unat l < nsec} - table_lbas f"
  have c: "cluster_ok f c" using Cons.prems(2) by simp
  note c4 = cluster_small[OF c]
  obtain d1 where d1: "fat_get io f c d = (table sec f d (unat c), d1)" "good d1" "same_on sec {l. unat l < nsec} d d1"
    using fat_get_ok[OF Cons.prems(1) c4] by blast
  have T1: "table sec f d1 k = table sec f d k" if "k < 4088" for k by (rule table_same[OF d1(3) that])
  have s1: "same_on sec ?L d d1" by (rule same_on_mono[OF d1(3)]) blast
  show ?case
  proof (cases "table sec f d (unat c) = 0")
    case False
    have "List.find (\<lambda>c. table sec f d1 (unat c) = 0) cs = List.find (\<lambda>c. table sec f d (unat c) = 0) cs"
      by (rule find_cong) (use T1 cluster_small Cons.prems(2) in auto)
    moreover have "alloc_in after x (table sec f d1) k = alloc_in after x (table sec f d) k" if "k < 4088" for x k
      using T1[OF that] by (cases "after = 0") (simp_all add: alloc_in_def)
    ultimately obtain d' where d': "good d'" "same_on sec ?L d1 d'"
      "case List.find (\<lambda>c. table sec f d (unat c) = 0) cs of
         None \<Rightarrow> alloc_scan io f after cs d1 = (0, d') \<and> same_on sec {l. unat l < nsec} d1 d'
       | Some c \<Rightarrow> alloc_scan io f after cs d1 = (c, d') \<and> (\<forall>k < 4088. table sec f d' k = alloc_in after c (table sec f d) k)"
      using Cons.IH[OF d1(2)] Cons.prems(2) by (auto split: option.splits)
    then show ?thesis using False d1(1) same_on_trans[OF s1 d'(2)] same_on_trans[OF d1(3)]
      by (intro exI[of _ d']) (auto simp: F12_FREE_def split: option.splits)
  next
    case True
    obtain d2 where d2: "fat_set io f c F12_EOC d1 = (True, d2)" "good d2"
      "\<And>k. k < 4088 \<Longrightarrow> table sec f d2 k = ((table sec f d1)(unat c := F12_EOC)) k" "same_on sec ?L d1 d2"
      using fat_set_vol[OF d1(2), of c F12_EOC] c by (auto simp: cluster_ok_def eoc_masked)
    note s2 = same_on_trans[OF s1 d2(4)]
    show ?thesis
    proof (cases "after = 0")
      case a: True
      then show ?thesis using True d1(1) d2 T1 s2
        by (intro exI[of _ d2]) (simp add: F12_FREE_def alloc_in_def)
    next
      case a: False
      then have ak: "cluster_ok f after" using assms(3) by simp
      obtain d3 where d3: "fat_set io f after (ucast c) d2 = (True, d3)" "good d3"
        "\<And>k. k < 4088 \<Longrightarrow> table sec f d3 k = ((table sec f d2)(unat after := ucast c)) k" "same_on sec ?L d2 d3"
        using fat_set_vol[OF d2(2), of after "ucast c"] ak cluster_masked(1)[of c] c4 by (auto simp: cluster_ok_def)
      show ?thesis using a True d1(1) d2(1,3) d3 T1 same_on_trans[OF s2 d3(4)]
        by (intro exI[of _ d3]) (simp add: F12_FREE_def alloc_in_def)
    qed
  qed
qed

end

text \<open>A source that delivers the bytes of \<open>data\<close>.\<close>

definition delivers :: "'c source \<Rightarrow> bytes \<Rightarrow> bool" where
  "delivers src data = (\<forall>off want ctx. fst (src off want ctx) = take (unat want) (drop (unat off) data))"

lemma unat_min: "unat (min a b) = min (unat a) (unat (b :: u32))"
  by (simp add: min_def word_le_nat_alt)

context fat_volume
begin

lemma fill_cluster_ok:
  assumes "good d" "cluster_ok f c" "delivers src data" "length data = unat fsize"
    "s \<le> unat (spc f)" "unat dne = min (unat fsize) (base + 512 * s)"
  shows "\<exists>dne' ctx' d'. fill_cluster io f src fsize c (map of_nat [s..<unat (spc f)]) dne ctx d = (True, dne', ctx', d') \<and>
    unat dne' = min (unat fsize) (base + 512 * unat (spc f)) \<and> good d' \<and>
    (\<forall>t. s \<le> t \<and> t < unat (spc f) \<and> base + 512 * t < unat fsize \<longrightarrow> sec d' (data_lba f c t) = sector_of data (base + 512 * t)) \<and>
    same_on sec ({l. unat l < nsec} - data_lba f c ` {s..<unat (spc f)}) d d'"
  using assms(1,5,6)
proof (induction "unat (spc f) - s" arbitrary: s dne ctx d)
  case 0
  then have "s = unat (spc f)" by simp
  then show ?case using 0 by (intro exI conjI[OF _ conjI[OF _ conjI]]) auto
next
  case (Suc k)
  then have s: "s < unat (spc f)" by simp
  then have ex: "[s..<unat (spc f)] = s # [Suc s..<unat (spc f)]" by (rule upt_conv_Cons)
  show ?case
  proof (cases "dne \<ge> fsize")
    case True
    then have "unat fsize \<le> unat dne" by (simp add: word_le_nat_alt)
    then have b: "unat fsize \<le> base + 512 * s" using Suc.prems(3) by simp
    have "base + 512 * s \<le> base + 512 * unat (spc f)" using s by simp
    then have "unat dne = min (unat fsize) (base + 512 * unat (spc f))" using b Suc.prems(3) by linarith
    moreover have "sec d (data_lba f c t) = sector_of data (base + 512 * t)"
      if "s \<le> t" "base + 512 * t < unat fsize" for t using b that by linarith
    ultimately show ?thesis using True Suc.prems(1) by (simp add: ex)
  next
    case False
    then have lt: "unat dne < unat fsize" by (simp add: word_le_nat_alt)
    then have dn: "unat dne = base + 512 * s" using Suc.prems(3) by simp
    define want where "want = min (fsize - dne) F12_SECTOR"
    have w: "unat want = min (unat fsize - unat dne) 512"
      using lt by (simp add: want_def unat_min unat_u32_sub_small F12_SECTOR_def)
    obtain b ctx1 where src: "src dne want ctx = (b, ctx1)" by fastforce
    then have bb: "b = take (unat want) (drop (unat dne) data)" using assms(3) unfolding delivers_def by (metis fst_conv)
    have len: "length b = unat want" using bb w assms(4) by simp
    have "b = take 512 (drop (unat dne) data)" using bb w assms(4) by (simp add: min_def)
    then have sct: "put_bytes 0 b (replicate 512 0) = sector_of data (base + 512 * s)" by (simp add: sector_of_def dn)
    let ?lba = "data_lba f c s"
    obtain d1 where d1: "io_write io ?lba (sector_of data (base + 512 * s)) d = (True, d1)" "good d1"
      "\<forall>l. unat l < nsec \<longrightarrow> sec d1 l = (if l = ?lba then sector_of data (base + 512 * s) else sec d l)"
      using wr_law[OF Suc.prems(1) data_lba_nat(2)[OF assms(2) s] sector_of_length] by blast
    have nw: "unat dne + unat want < 4294967296" using w lt unat_u32_less[of fsize] by linarith
    have dn': "unat (dne + want) = min (unat fsize) (base + 512 * Suc s)"
      unfolding unat_u32_add_small[OF nw] using w dn lt by simp
    have step: "fill_cluster io f src fsize c (map of_nat [s..<unat (spc f)]) dne ctx d =
        fill_cluster io f src fsize c (map of_nat [Suc s..<unat (spc f)]) (dne + want) ctx1 d1"
      using False src len d1(1) by (simp add: ex want_def[symmetric] sct data_lba_def)
    have "k = unat (spc f) - Suc s" "Suc s \<le> unat (spc f)" using Suc.hyps(2) s by simp_all
    from Suc.hyps(1)[OF this(1) d1(2) this(2) dn', of ctx1] obtain dne' ctx' d' where ih:
      "fill_cluster io f src fsize c (map of_nat [Suc s..<unat (spc f)]) (dne + want) ctx1 d1 = (True, dne', ctx', d')"
      "unat dne' = min (unat fsize) (base + 512 * unat (spc f))" "good d'"
      "\<forall>t. Suc s \<le> t \<and> t < unat (spc f) \<and> base + 512 * t < unat fsize \<longrightarrow> sec d' (data_lba f c t) = sector_of data (base + 512 * t)"
      "same_on sec ({l. unat l < nsec} - data_lba f c ` {Suc s..<unat (spc f)}) d1 d'" by blast
    have "?lba \<notin> data_lba f c ` {Suc s..<unat (spc f)}"
    proof
      assume "?lba \<in> data_lba f c ` {Suc s..<unat (spc f)}"
      then obtain t where "?lba = data_lba f c t" "Suc s \<le> t" "t < unat (spc f)" by auto
      then show False using data_lba_inj[OF assms(2) s assms(2), of t] by simp
    qed
    then have here: "sec d' ?lba = sector_of data (base + 512 * s)"
      using ih(5) d1(3) data_lba_nat(2)[OF assms(2) s] by (simp add: same_on_def)
    have all: "sec d' (data_lba f c t) = sector_of data (base + 512 * t)"
      if "s \<le> t" "t < unat (spc f)" "base + 512 * t < unat fsize" for t
      using that ih(4) here by (cases "t = s") auto
    have "{s..<unat (spc f)} = insert s {Suc s..<unat (spc f)}" using s by auto
    then have "same_on sec ({l. unat l < nsec} - data_lba f c ` {s..<unat (spc f)}) d d'"
      using ih(5) d1(3) by (auto simp: same_on_def)
    then show ?thesis using step ih(1-3) all by auto
  qed
qed

end

definition free_clusters :: "f12 \<Rightarrow> (nat \<Rightarrow> u16) \<Rightarrow> u32 set" where
  "free_clusters f T = {c. cluster_ok f c \<and> T (unat c) = 0}"

lemma free_finite [simp]: "finite (free_clusters f T)"
  by simp

lemma ucast_zero:
  assumes "unat (c :: u32) < 4096" "(ucast c :: u16) = 0"
  shows "c = 0"
  using cluster_masked(2)[OF assms(1)] assms(2) by (metis ucast_0)

lemma is_chain_cong:
  assumes "\<And>c. c \<in> set cs \<Longrightarrow> T' (unat c) = T (unat c)"
  shows "is_chain f T' cs = is_chain f T cs"
  using assms by (auto simp: is_chain_def)

lemma chain_extend:
  assumes ch: "is_chain f T cs" and c: "cluster_ok f c" "c \<notin> set cs" and n: "unat (clusters f) < 4085"
  shows "is_chain f (alloc_in (if cs = [] then 0 else last cs) c T) (cs @ [c])"
proof -
  let ?T = "alloc_in (if cs = [] then 0 else last cs) c T"
  have "?T (unat ((cs @ [c]) ! i)) = (if i + 1 < length (cs @ [c]) then ucast ((cs @ [c]) ! (i + 1)) else F12_EOC)"
    if i: "i < length (cs @ [c])" for i
  proof (cases "i < length cs")
    case True
    then have "cs \<noteq> []" by auto
    then have m: "cs ! i \<in> set cs" "cs \<noteq> []" "last cs \<in> set cs" using True by simp_all
    have "cluster_ok f (last cs)" using ch m(3) by (simp add: is_chain_def)
    then have "last cs \<noteq> 0" by (auto simp: cluster_ok_def)
    moreover have "cs ! i \<noteq> c" using m(1) c(2) by auto
    ultimately have nz: "last cs \<noteq> 0" "unat (cs ! i) \<noteq> unat c" by (simp_all add: word_unat_eq_iff)
    show ?thesis
    proof (cases "i + 1 = length cs")
      case l: True
      then have "last cs = cs ! i" using m(2) by (simp add: last_conv_nth flip: l)
      then show ?thesis using True m nz l by (simp add: alloc_in_def nth_append)
    next
      case False
      then have i1: "i + 1 < length cs" "last cs = cs ! (length cs - 1)" using True m(2) by (simp_all add: last_conv_nth)
      then have "cs ! i \<noteq> last cs" using ch True unfolding is_chain_def by (simp add: nth_eq_iff_index_eq)
      then have "unat (cs ! i) \<noteq> unat (last cs)" by (simp add: word_unat_eq_iff)
      then show ?thesis using True m nz i1 ch by (simp add: alloc_in_def nth_append is_chain_def)
    qed
  next
    case False
    then have "i = length cs" using i by simp
    moreover have "cs \<noteq> [] \<Longrightarrow> unat c \<noteq> unat (last cs)" using c(2) last_in_set[of cs] by (metis word_unat_eq_iff)
    ultimately show ?thesis by (auto simp: alloc_in_def)
  qed
  then show ?thesis using ch c unfolding is_chain_def by auto
qed

lemma chain_nonzero:
  assumes "is_chain f T cs" "c \<in> set cs" "unat (clusters f) < 4085"
  shows "T (unat c) \<noteq> 0"
proof -
  obtain i where i: "i < length cs" "c = cs ! i" using assms(2) by (auto simp: in_set_conv_nth)
  have "(ucast (cs ! (i + 1)) :: u16) \<noteq> 0" if "i + 1 < length cs"
  proof -
    have "cluster_ok f (cs ! (i + 1))" using assms(1) that by (simp add: is_chain_def)
    then show ?thesis using ucast_zero[of "cs ! (i + 1)"] assms(3) by (auto simp: cluster_ok_def)
  qed
  then show ?thesis using assms(1) i unfolding is_chain_def by (auto simp: F12_EOC_def)
qed

context fat_volume
begin

lemma few_clusters: "unat (clusters f) < 4085"
  using geometry by (simp add: f12_ok_def)

lemma all_clusters_set: "set (all_clusters f) = {c. cluster_ok f c}"
proof -
  have n: "unat (clusters f + 2) = unat (clusters f) + 2" using few_clusters by (simp add: unat_u32_add_small)
  show ?thesis
  proof (intro equalityI subsetI)
    fix c assume "c \<in> set (all_clusters f)"
    then obtain k where k: "c = of_nat k" "2 \<le> k" "k < unat (clusters f) + 2"
      unfolding all_clusters_def n set_map set_upt by (elim imageE) simp
    then have "unat c = k" using few_clusters by (simp add: unat_of_nat_u32)
    then show "c \<in> {c. cluster_ok f c}" using k by (simp add: cluster_ok_def)
  next
    fix c assume "c \<in> {c. cluster_ok f c}"
    then have "unat c \<in> {2..<unat (clusters f) + 2}" by (simp add: cluster_ok_def)
    then have "of_nat (unat c) \<in> set (all_clusters f)" unfolding all_clusters_def n set_map set_upt by (rule imageI)
    then show "c \<in> set (all_clusters f)" by (simp only: of_nat_u32_of_unat)
  qed
qed

lemma table_same_vol:
  assumes "same_on sec (table_lbas f) d d'" "k < unat (clusters f) + 2"
  shows "table sec f d' k = table sec f d k"
proof -
  have b: "k + k div 2 + 1 < 512 * unat (fat_sectors f)" "k < 4088"
    using table_bound[of "k + k div 2" k "unat (clusters f)" "unat (fat_sectors f)"] assms(2) geometry
    by (simp_all add: f12_ok_def)
  have "table_byte sec f d' j = table_byte sec f d j" if "j \<le> k + k div 2 + 1" for j
  proof -
    have "j div 512 < 12" "j div 512 < unat (fat_sectors f)" using that b by (simp_all add: less_mult_imp_div_less)
    then have "first_fat f + of_nat (j div 512) \<in> table_lbas f" using table_lba(1) by (simp add: table_lbas_def)
    then show ?thesis using assms(1) by (simp add: table_byte_def same_on_def)
  qed
  then show ?thesis unfolding table_def by (intro entry_of_cong) simp_all
qed

lemma alloc_ok:
  assumes "good d" "prev \<noteq> 0 \<longrightarrow> cluster_ok f prev" "free_clusters f (table sec f d) \<noteq> {}"
  shows "\<exists>c d'. alloc_cluster io f prev d = (c, d') \<and> c \<in> free_clusters f (table sec f d) \<and> good d' \<and>
    (\<forall>k < unat (clusters f) + 2. table sec f d' k = alloc_in prev c (table sec f d) k) \<and>
    same_on sec ({l. unat l < nsec} - table_lbas f) d d'"
proof -
  obtain d' where d': "good d'" "same_on sec ({l. unat l < nsec} - table_lbas f) d d'"
    "case List.find (\<lambda>c. table sec f d (unat c) = 0) (all_clusters f) of
       None \<Rightarrow> alloc_scan io f prev (all_clusters f) d = (0, d') \<and> same_on sec {l. unat l < nsec} d d'
     | Some c \<Rightarrow> alloc_scan io f prev (all_clusters f) d = (c, d') \<and> (\<forall>k < 4088. table sec f d' k = alloc_in prev c (table sec f d) k)"
    using alloc_scan_ok[OF assms(1) _ assms(2), of "all_clusters f"] all_clusters_set by auto
  obtain x where x: "x \<in> set (all_clusters f)" "table sec f d (unat x) = 0"
    using assms(3) all_clusters_set by (auto simp: free_clusters_def)
  then obtain c where c: "List.find (\<lambda>c. table sec f d (unat c) = 0) (all_clusters f) = Some c"
    by (cases "List.find (\<lambda>c. table sec f d (unat c) = 0) (all_clusters f)") (auto simp: find_None_iff)
  then have "c \<in> free_clusters f (table sec f d)"
    using all_clusters_set unfolding find_Some_iff free_clusters_def by (metis (mono_tags, lifting) mem_Collect_eq nth_mem)
  then show ?thesis using d' c few_clusters by (intro exI[of _ c] exI[of _ d']) (simp add: alloc_cluster_def)
qed

end

lemma write_data_next:
  assumes "\<not> dne \<ge> fsize" "alloc_cluster io f prev d = (c, d1)" "c \<noteq> 0"
    "fill_cluster io f src fsize c (map of_nat [0..<unat (spc f)]) dne ctx d1 = (True, dne', ctx', d2)"
  shows "write_data io f src fsize fst_c prev dne ctx d =
    write_data io f src fsize (if fst_c = 0 then c else fst_c) c dne' ctx' d2"
  by (subst write_data.simps) (use assms in \<open>simp add: Let_def\<close>)

lemma write_data_done: "dne \<ge> fsize \<Longrightarrow> write_data io f src fsize fst_c prev dne ctx d = Some (Some fst_c, ctx, d)"
  by (simp add: write_data.simps)

definition first_of :: "u32 list \<Rightarrow> u32" where "first_of cs = (if cs = [] then 0 else hd cs)"
definition last_of :: "u32 list \<Rightarrow> u32" where "last_of cs = (if cs = [] then 0 else last cs)"

definition writing :: "('d \<Rightarrow> u32 \<Rightarrow> bytes) \<Rightarrow> f12 \<Rightarrow> bytes \<Rightarrow> u32 list \<Rightarrow> u32 \<Rightarrow> 'd \<Rightarrow> bool" where
  "writing sec f data cs dne d =
     (is_chain f (table sec f d) cs \<and> holds sec f d cs data \<and>
      unat dne = min (length data) (length cs * (unat (spc f) * 512)))"

definition cluster_lbas :: "f12 \<Rightarrow> u32 set \<Rightarrow> u32 set" where
  "cluster_lbas f C = (\<Union>c \<in> C. data_lba f c ` {..<unat (spc f)})"

context fat_volume
begin

lemma cluster_lbas_disjoint:
  assumes "cluster_ok f c" "s < unat (spc f)" "\<forall>x \<in> C. cluster_ok f x" "c \<notin> C"
  shows "data_lba f c s \<in> {l. unat l < nsec} - table_lbas f - cluster_lbas f C"
proof -
  have "data_lba f c s \<noteq> data_lba f x t" if "x \<in> C" "t < unat (spc f)" for x t
    using data_lba_inj[OF assms(1,2) _ that(2), of x] assms(3,4) that(1) by auto
  then have "data_lba f c s \<notin> cluster_lbas f C" unfolding cluster_lbas_def by blast
  then show ?thesis using data_lba_nat(2)[OF assms(1,2)] data_not_table[OF assms(1,2)] by simp
qed

lemma table_not_data: "\<forall>x \<in> C. cluster_ok f x \<Longrightarrow> table_lbas f \<inter> cluster_lbas f C = {}"
  using data_not_table unfolding cluster_lbas_def by blast

lemma table_on_disk: "table_lbas f \<subseteq> {l. unat l < nsec}"
  using geometry by (auto simp: table_lbas_def f12_ok_def)

lemma holds_frame:
  assumes "holds sec f d cs data" "\<forall>c \<in> set cs. cluster_ok f c" "\<forall>x \<in> C. cluster_ok f x" "set cs \<inter> C = {}"
    "same_on sec ({l. unat l < nsec} - table_lbas f - cluster_lbas f C) d d'"
  shows "holds sec f d' cs data"
  unfolding holds_def
proof (intro allI impI)
  fix i s assume i: "i < length cs" "s < unat (spc f)" "(i * unat (spc f) + s) * 512 < length data"
  have "data_lba f (cs ! i) s \<in> {l. unat l < nsec} - table_lbas f - cluster_lbas f C"
    by (rule cluster_lbas_disjoint) (use assms(2-4) i nth_mem[OF i(1)] in blast)+
  then show "sec d' (data_lba f (cs ! i) s) = sector_of data ((i * unat (spc f) + s) * 512)"
    using assms(1,5) i unfolding same_on_def holds_def by metis
qed

lemma holds_snoc:
  assumes "holds sec f d cs data"
    "\<And>t. t < unat (spc f) \<Longrightarrow> length cs * (unat (spc f) * 512) + 512 * t < length data \<Longrightarrow>
       sec d (data_lba f c t) = sector_of data (length cs * (unat (spc f) * 512) + 512 * t)"
  shows "holds sec f d (cs @ [c]) data"
  unfolding holds_def
proof (intro allI impI)
  fix i s assume i: "i < length (cs @ [c])" "s < unat (spc f)" "(i * unat (spc f) + s) * 512 < length data"
  have e: "(i * unat (spc f) + s) * 512 = i * (unat (spc f) * 512) + 512 * s" by (simp add: algebra_simps)
  show "sec d (data_lba f ((cs @ [c]) ! i) s) = sector_of data ((i * unat (spc f) + s) * 512)"
  proof (cases "i < length cs")
    case True
    then show ?thesis using assms(1) i unfolding holds_def by (simp add: nth_append)
  next
    case False
    then have "i = length cs" using i by simp
    then show ?thesis using assms(2)[OF i(2)] i(3) unfolding e by simp
  qed
qed

lemma write_data_step:
  assumes g: "good d" and src: "delivers src data" "length data = unat fsize" and w: "writing sec f data cs dne d"
    and lt: "dne < fsize" and room: "free_clusters f (table sec f d) \<noteq> {}"
  shows "\<exists>c ctx' d' dne'. write_data io f src fsize (first_of cs) (last_of cs) dne ctx d =
      write_data io f src fsize (first_of (cs @ [c])) (last_of (cs @ [c])) dne' ctx' d' \<and>
    good d' \<and> writing sec f data (cs @ [c]) dne' d' \<and> c \<in> free_clusters f (table sec f d) \<and>
    (\<forall>k < unat (clusters f) + 2. table sec f d' k = alloc_in (last_of cs) c (table sec f d) k) \<and>
    same_on sec ({l. unat l < nsec} - table_lbas f - cluster_lbas f {c}) d d'"
proof -
  let ?S = "unat (spc f)"
  let ?base = "length cs * (?S * 512)"
  have ch: "is_chain f (table sec f d) cs" and h: "holds sec f d cs data" and dn: "unat dne = min (unat fsize) ?base"
    using w src(2) by (simp_all add: writing_def)
  have csok: "\<forall>c \<in> set cs. cluster_ok f c" using ch by (simp add: is_chain_def)
  have lok: "last_of cs \<noteq> 0 \<longrightarrow> cluster_ok f (last_of cs)" using csok by (simp add: last_of_def)
  obtain c d1 where c: "alloc_cluster io f (last_of cs) d = (c, d1)" "c \<in> free_clusters f (table sec f d)" "good d1"
    "\<And>k. k < unat (clusters f) + 2 \<Longrightarrow> table sec f d1 k = alloc_in (last_of cs) c (table sec f d) k"
    "same_on sec ({l. unat l < nsec} - table_lbas f) d d1"
    using alloc_ok[OF g lok room] by blast
  have ok: "cluster_ok f c" "c \<notin> set cs" "c \<noteq> 0"
    using c(2) chain_nonzero[OF ch _ few_clusters] by (auto simp: free_clusters_def cluster_ok_def)
  have "unat dne = min (unat fsize) (?base + 512 * 0)" using dn by simp
  from fill_cluster_ok[OF c(3) ok(1) src le0 this, of ctx] obtain dne' ctx' d2 where d2:
    "fill_cluster io f src fsize c (map of_nat [0..<?S]) dne ctx d1 = (True, dne', ctx', d2)"
    "unat dne' = min (unat fsize) (?base + 512 * ?S)" "good d2"
    "\<forall>t. 0 \<le> t \<and> t < ?S \<and> ?base + 512 * t < unat fsize \<longrightarrow> sec d2 (data_lba f c t) = sector_of data (?base + 512 * t)"
    "same_on sec ({l. unat l < nsec} - data_lba f c ` {0..<?S}) d1 d2" by blast
  have cl: "cluster_lbas f {c} = data_lba f c ` {0..<?S}" by (simp add: cluster_lbas_def lessThan_atLeast0)
  have fr: "same_on sec ({l. unat l < nsec} - table_lbas f - cluster_lbas f {c}) d d2"
    using c(5) d2(5) unfolding same_on_def cl by simp
  have "table_lbas f \<subseteq> {l. unat l < nsec} - data_lba f c ` {0..<?S}"
    using table_on_disk table_not_data[of "{c}"] ok(1) cl by auto
  then have T: "table sec f d2 k = alloc_in (last_of cs) c (table sec f d) k" if "k < unat (clusters f) + 2" for k
    using table_same_vol[OF same_on_mono[OF d2(5)] that] c(4)[OF that] by simp
  have "is_chain f (alloc_in (last_of cs) c (table sec f d)) (cs @ [c])"
    using chain_extend[OF ch ok(1,2) few_clusters] by (simp add: last_of_def)
  then have "is_chain f (table sec f d2) (cs @ [c])"
    by (subst is_chain_cong) (use T csok ok(1) in \<open>auto simp: cluster_ok_def\<close>)
  moreover have "holds sec f d2 (cs @ [c]) data"
  proof (rule holds_snoc)
    show "holds sec f d2 cs data" by (rule holds_frame[OF h csok _ _ fr]) (use ok in auto)
  qed (use d2(4) src(2) in auto)
  moreover have "unat dne' = min (length data) (length (cs @ [c]) * (?S * 512))"
    using d2(2) src(2) by (simp add: algebra_simps)
  ultimately have "writing sec f data (cs @ [c]) dne' d2" by (simp add: writing_def)
  moreover have "first_of (cs @ [c]) = (if first_of cs = 0 then c else first_of cs)"
    using csok by (cases cs) (auto simp: first_of_def cluster_ok_def)
  then have "write_data io f src fsize (first_of cs) (last_of cs) dne ctx d =
      write_data io f src fsize (first_of (cs @ [c])) (last_of (cs @ [c])) dne' ctx' d2"
    using write_data_next[of fsize dne, OF _ c(1) ok(3) d2(1)] lt by (simp add: last_of_def)
  ultimately show ?thesis using d2(3) c(2) T fr by blast
qed

end

lemma alloc_in_frame:
  assumes "c \<in> free_clusters f T" "k \<noteq> unat c" "k \<notin> unat ` set cs"
  shows "alloc_in (last_of cs) c T k = T k"
proof (cases "cs = []")
  case False
  then have "k \<noteq> unat (last cs)" using assms(3) by auto
  then show ?thesis using assms(2) False by (simp add: alloc_in_def last_of_def)
qed (use assms(2) in \<open>simp add: alloc_in_def last_of_def\<close>)

context fat_volume
begin

lemma free_after_alloc:
  assumes "c \<in> free_clusters f T" "is_chain f T cs"
    "\<And>k. k < unat (clusters f) + 2 \<Longrightarrow> T' k = alloc_in (last_of cs) c T k"
  shows "free_clusters f T' = free_clusters f T - {c}"
proof -
  have c: "cluster_ok f c" "T (unat c) = 0" using assms(1) by (simp_all add: free_clusters_def)
  have "T' (unat x) = 0 \<longleftrightarrow> T (unat x) = 0 \<and> x \<noteq> c" if x: "cluster_ok f x" for x
  proof -
    have e: "T' (unat x) = alloc_in (last_of cs) c T (unat x)" using assms(3) x by (simp add: cluster_ok_def)
    have uc: "(ucast c :: u16) \<noteq> 0" using ucast_zero[of c] c(1) cluster_small[OF c(1)] by (auto simp: cluster_ok_def)
    consider "x = c" | "x \<noteq> c" "x = last_of cs" | "x \<noteq> c" "x \<noteq> last_of cs" by blast
    then show ?thesis
    proof cases
      case 1
      have "T' (unat c) \<noteq> 0" using e uc 1 by (simp add: alloc_in_def F12_EOC_def)
      then show ?thesis using 1 by simp
    next
      case 2
      then have "x \<in> set cs" using x by (auto simp: last_of_def cluster_ok_def split: if_splits)
      then have "T (unat x) \<noteq> 0" by (rule chain_nonzero[OF assms(2) _ few_clusters])
      moreover have "T' (unat x) \<noteq> 0" using e uc 2 x by (auto simp: alloc_in_def cluster_ok_def)
      ultimately show ?thesis by simp
    next
      case 3
      then have "unat x \<noteq> unat c" "unat x \<noteq> unat (last_of cs)" by (simp_all add: word_unat_eq_iff)
      then show ?thesis using e 3 by (simp add: alloc_in_def)
    qed
  qed
  then show ?thesis using c by (auto simp: free_clusters_def)
qed

lemma write_data_ok:
  assumes "good d" "writing sec f data cs dne d" "delivers src data" "length data = unat fsize"
    "unat fsize \<le> (length cs + card (free_clusters f (table sec f d))) * (unat (spc f) * 512)"
  shows "\<exists>cs' ctx' d'. write_data io f src fsize (first_of cs) (last_of cs) dne ctx d = Some (Some (first_of (cs @ cs')), ctx', d') \<and>
    good d' \<and> writing sec f data (cs @ cs') fsize d' \<and> set cs' \<subseteq> free_clusters f (table sec f d) \<and>
    (\<forall>k < unat (clusters f) + 2. k \<notin> unat ` set (cs @ cs') \<longrightarrow> table sec f d' k = table sec f d k) \<and>
    same_on sec ({l. unat l < nsec} - table_lbas f - cluster_lbas f (set cs')) d d'"
  using assms(1,2,5)
proof (induction "card (free_clusters f (table sec f d))" arbitrary: cs dne ctx d rule: less_induct)
  case less
  let ?B = "unat (spc f) * 512" and ?F = "free_clusters f (table sec f d)"
  have dn: "unat dne = min (unat fsize) (length cs * ?B)" using less.prems(2) assms(4) by (simp add: writing_def)
  show ?case
  proof (cases "dne \<ge> fsize")
    case True
    then have "unat fsize = unat dne" using dn by (simp add: word_le_nat_alt)
    then have "fsize = dne" by (simp add: word_unat_eq_iff)
    then show ?thesis using write_data_done[OF True] less.prems(1,2)
      by (intro exI[of _ "[]"] exI[of _ ctx] exI[of _ d]) simp
  next
    case False
    then have lt: "dne < fsize" by simp
    then have "length cs * ?B < unat fsize" using dn by (simp add: word_less_nat_alt)
    then have "card ?F \<noteq> 0" using less.prems(3) by (metis add_0_right not_less)
    then have room: "?F \<noteq> {}" by auto
    obtain c ctx1 d1 dne1 where st:
      "write_data io f src fsize (first_of cs) (last_of cs) dne ctx d =
        write_data io f src fsize (first_of (cs @ [c])) (last_of (cs @ [c])) dne1 ctx1 d1"
      "good d1" "writing sec f data (cs @ [c]) dne1 d1" "c \<in> ?F"
      "\<And>k. k < unat (clusters f) + 2 \<Longrightarrow> table sec f d1 k = alloc_in (last_of cs) c (table sec f d) k"
      "same_on sec ({l. unat l < nsec} - table_lbas f - cluster_lbas f {c}) d d1"
      using write_data_step[OF less.prems(1) assms(3,4) less.prems(2) lt room] by blast
    have ch: "is_chain f (table sec f d) cs" using less.prems(2) by (simp add: writing_def)
    have F1: "free_clusters f (table sec f d1) = ?F - {c}" by (rule free_after_alloc[OF st(4) ch st(5)])
    then have card: "Suc (card (free_clusters f (table sec f d1))) = card ?F"
      using card.remove[OF free_finite st(4)] by simp
    have "unat fsize \<le> (length (cs @ [c]) + card (free_clusters f (table sec f d1))) * ?B"
      using less.prems(3) unfolding card[symmetric] by simp
    from less.hyps[OF _ st(2,3) this, of ctx1] card obtain cs' ctx' d' where ih:
      "write_data io f src fsize (first_of (cs @ [c])) (last_of (cs @ [c])) dne1 ctx1 d1 =
         Some (Some (first_of ((cs @ [c]) @ cs')), ctx', d')"
      "good d'" "writing sec f data ((cs @ [c]) @ cs') fsize d'" "set cs' \<subseteq> free_clusters f (table sec f d1)"
      "\<forall>k < unat (clusters f) + 2. k \<notin> unat ` set ((cs @ [c]) @ cs') \<longrightarrow> table sec f d' k = table sec f d1 k"
      "same_on sec ({l. unat l < nsec} - table_lbas f - cluster_lbas f (set cs')) d1 d'" by auto
    have tab: "table sec f d' k = table sec f d k"
      if k: "k < unat (clusters f) + 2" "k \<notin> unat ` set (cs @ c # cs')" for k
    proof -
      have "table sec f d' k = table sec f d1 k" using ih(5) k by simp
      also have "\<dots> = table sec f d k"
        unfolding st(5)[OF k(1)] by (rule alloc_in_frame[OF st(4)]) (use k(2) in auto)
      finally show ?thesis .
    qed
    have sub: "cluster_lbas f (set (c # cs')) = cluster_lbas f {c} \<union> cluster_lbas f (set cs')"
      unfolding cluster_lbas_def by simp
    have "same_on sec ({l. unat l < nsec} - table_lbas f - cluster_lbas f (set (c # cs'))) d d'"
      by (rule same_on_trans[OF same_on_mono[OF st(6)] same_on_mono[OF ih(6)]]; unfold sub; blast)
    then show ?thesis
      using st(1,4) ih(1-4) tab F1 by (intro exI[of _ "c # cs'"] exI[of _ ctx'] exI[of _ d']) auto
  qed
qed

end

section \<open>Reading a chain\<close>

lemma bpc_unat:
  assumes "unat (spc f) < 256"
  shows "unat (bytes_per_cluster f) = unat (spc f) * 512"
  using assms by (simp add: bytes_per_cluster_def F12_SECTOR_def unat_word_ariths)

definition cursor_ok :: "f12 \<Rightarrow> u32 list \<Rightarrow> cursor option \<Rightarrow> bool" where
  "cursor_ok f cs cur =
     (case cur of None \<Rightarrow> True
      | Some c \<Rightarrow> cur_first c = first_of cs \<and> cur_cluster c \<ge> 2 \<longrightarrow>
          (\<exists>k < length cs. cur_cluster c = cs ! k \<and> unat (cur_at c) = k * (unat (spc f) * 512)))"

lemma sector_end:
  assumes "n \<le> 512 - (w :: nat) mod 512"
  shows "w + n \<le> (w div 512 + 1) * 512"
proof -
  define q r where "q = w div 512" and "r = w mod 512"
  have "w = q * 512 + r" "r < 512" by (simp_all add: q_def r_def)
  then show ?thesis using assms unfolding q_def[symmetric] r_def[symmetric] by simp
qed

context fat_volume
begin

lemma chain_get:
  assumes "good d" "is_chain f (table sec f d) cs" "i < length cs"
  shows "\<exists>d'. fat_get io f (cs ! i) d = (if i + 1 < length cs then ucast (cs ! (i + 1)) else F12_EOC, d') \<and> good d' \<and>
    same_on sec {l. unat l < nsec} d d'"
proof -
  have "cluster_ok f (cs ! i)" using assms(2,3) by (simp add: is_chain_def)
  from fat_get_ok[OF assms(1) cluster_small[OF this]] show ?thesis using assms(2,3) by (simp add: is_chain_def)
qed

lemma chain_same:
  assumes "same_on sec {l. unat l < nsec} d d'" "is_chain f (table sec f d) cs"
  shows "is_chain f (table sec f d') cs"
proof (subst is_chain_cong)
  fix c assume "c \<in> set cs"
  then have "unat c < 4088" using assms(2) cluster_small by (simp add: is_chain_def)
  then show "table sec f d' (unat c) = table sec f d (unat c)" by (rule table_same[OF assms(1)])
qed (rule assms(2))

lemma holds_same:
  assumes "same_on sec {l. unat l < nsec} d d'" "holds sec f d cs data" "\<forall>c \<in> set cs. cluster_ok f c"
  shows "holds sec f d' cs data"
  unfolding holds_def
proof (intro allI impI)
  fix i s assume i: "i < length cs" "s < unat (spc f)" "(i * unat (spc f) + s) * 512 < length data"
  have "cluster_ok f (cs ! i)" using assms(3) i(1) by simp
  then have "sec d' (data_lba f (cs ! i) s) = sec d (data_lba f (cs ! i) s)"
    using assms(1) data_lba_nat(2) i(2) by (simp add: same_on_def)
  then show "sec d' (data_lba f (cs ! i) s) = sector_of data ((i * unat (spc f) + s) * 512)"
    using assms(2) i by (simp add: holds_def)
qed

lemma chain_next:
  assumes "is_chain f T cs" "i + 1 < length cs"
  shows "ucast (ucast (cs ! (i + 1)) :: u16) = cs ! (i + 1)"
proof -
  have "cluster_ok f (cs ! (i + 1))" using assms by (simp add: is_chain_def)
  then show ?thesis using cluster_small cluster_masked(2)[of "cs ! (i + 1)"] by force
qed

lemma skip_ok:
  assumes "good d" "is_chain f (table sec f d) cs" "i + n < length cs"
  shows "\<exists>d'. skip_clusters io f n (cs ! i) d = (cs ! (i + n), d') \<and> good d' \<and> same_on sec {l. unat l < nsec} d d'"
  using assms
proof (induction n arbitrary: i d)
  case 0
  then show ?case by simp
next
  case (Suc n)
  then have i: "i < length cs" "i + 1 < length cs" by simp_all
  have ic: "in_chain (cs ! i)" using Suc.prems(2) i(1) cluster_in_chain by (simp add: is_chain_def)
  obtain d1 where d1: "fat_get io f (cs ! i) d = (ucast (cs ! (i + 1)), d1)" "good d1" "same_on sec {l. unat l < nsec} d d1"
    using chain_get[OF Suc.prems(1,2) i(1)] i(2) by auto
  obtain d2 where d2: "skip_clusters io f n (cs ! (i + 1)) d1 = (cs ! (i + 1 + n), d2)" "good d2"
    "same_on sec {l. unat l < nsec} d1 d2"
    using Suc.IH[OF d1(2) chain_same[OF d1(3) Suc.prems(2)], of "i + 1"] Suc.prems(3) by auto
  show ?case using ic d1(1) d2(1,2) chain_next[OF Suc.prems(2) i(2)] same_on_trans[OF d1(3) d2(3)]
    by (intro exI[of _ d2]) simp
qed

end

lemma take_split: "n \<le> m \<Longrightarrow> take n (drop p xs) @ take (m - n) (drop (p + n) xs) = take m (drop p xs)"
  using take_add[of n "m - n" "drop p xs"] by (simp add: add.commute)

lemma sector_split:
  fixes w p :: nat
  assumes "w < S * 512" "p = i * (S * 512) + w"
  shows "w div 512 < S" "(i * S + w div 512) * 512 + w mod 512 = p" "(w div 512 + 1) * 512 \<le> S * 512"
proof -
  show s: "w div 512 < S" using assms(1) by (simp add: less_mult_imp_div_less)
  have "w div 512 * 512 + w mod 512 = w" by (rule div_mult_mod_eq)
  then show "(i * S + w div 512) * 512 + w mod 512 = p" using assms(2) by (simp add: algebra_simps)
  show "(w div 512 + 1) * 512 \<le> S * 512" using s by (intro mult_le_mono1) simp
qed

context fat_volume
begin

lemma read_one:
  assumes g: "good d" and ch: "is_chain f (table sec f d) cs" and h: "holds sec f d cs data"
    and w: "unat within < unat (spc f) * 512" and p: "p = i * (unat (spc f) * 512) + unat within" and i: "i < length cs"
    and left: "0 < left" "p + left \<le> length data"
    and n: "n = min (512 - unat (within mod F12_SECTOR)) left"
  shows "\<exists>sct d'. io_read io (first_data f + (cs ! i - 2) * spc f + within div F12_SECTOR) d = (Some sct, d') \<and>
    take n (drop (unat (within mod F12_SECTOR)) sct) = take n (drop p data) \<and> good d' \<and>
    same_on sec {l. unat l < nsec} d d' \<and> 0 < n \<and> n \<le> left \<and> unat (within + of_nat n) = unat within + n \<and>
    unat within + n \<le> unat (spc f) * 512"
proof -
  let ?s = "unat within div 512" and ?k = "unat within mod 512"
  note sp = sector_split[OF w p]
  have m: "unat (within mod F12_SECTOR) = ?k" by (rule off_split)
  have lba: "first_data f + (cs ! i - 2) * spc f + within div F12_SECTOR = data_lba f (cs ! i) ?s"
    by (simp add: data_lba_def off_split(1))
  have c: "cluster_ok f (cs ! i)" using ch i by (simp add: is_chain_def)
  obtain d' where d': "io_read io (data_lba f (cs ! i) ?s) d = (Some (sec d (data_lba f (cs ! i) ?s)), d')" "good d'"
    "\<forall>l. unat l < nsec \<longrightarrow> sec d' l = sec d l"
    using rd_law[OF g data_lba_nat(2)[OF c sp(1)]] by blast
  have k: "?k < 512" by simp
  have nn: "0 < n" "n \<le> left" "n \<le> 512 - ?k" using n left(1) k m by simp_all
  have le: "unat within + n \<le> unat (spc f) * 512" using sector_end[OF nn(3)] sp(3) by (rule le_trans)
  have "(i * unat (spc f) + ?s) * 512 \<le> p" using sp(2) by (metis le_add1)
  then have "(i * unat (spc f) + ?s) * 512 < length data" using left by linarith
  then have sct: "sec d (data_lba f (cs ! i) ?s) = sector_of data ((i * unat (spc f) + ?s) * 512)"
    using h i sp(1) unfolding holds_def by blast
  have "take n (drop ?k (sector_of data ((i * unat (spc f) + ?s) * 512))) = take n (drop p data)"
    using take_sector_of[of ?k n "(i * unat (spc f) + ?s) * 512" data] nn k left(2) sp(2) by simp
  moreover have "unat (spc f) * 512 < 4294967296" using geometry by (simp add: f12_ok_def)
  then have "unat (of_nat n :: u32) = n" "unat within + n < 4294967296" using le by (simp_all add: unat_of_nat_u32)
  then have "unat (within + of_nat n) = unat within + n" by (simp add: unat_u32_add_small)
  ultimately show ?thesis
    using d' nn le unfolding lba m by (intro exI[of _ "sec d (data_lba f (cs ! i) ?s)"] exI[of _ d']) (simp add: sct same_on_def)
qed

lemma read_loop_ok:
  assumes "good d" "is_chain f (table sec f d) cs" "holds sec f d cs data" "length data \<le> length cs * (unat (spc f) * 512)"
    "unat within < unat (spc f) * 512" "p = i * (unat (spc f) * 512) + unat within" "p + left \<le> length data"
    "0 < left \<Longrightarrow> i < length cs \<and> cluster = cs ! i"
  shows "\<exists>d'. read_loop io f cluster within left out d = (out @ take left (drop p data), d') \<and> good d' \<and>
    same_on sec {l. unat l < nsec} d d'"
  using assms(1,2,3,5,6,7,8)
proof (induction left arbitrary: i p cluster within out d rule: less_induct)
  case (less left)
  let ?B = "unat (spc f) * 512"
  show ?case
  proof (cases "left = 0")
    case True
    then show ?thesis using less.prems(1) by (intro exI[of _ d]) (simp add: read_loop.simps)
  next
    case False
    then have i: "0 < left" "i < length cs" "cluster = cs ! i" using less.prems(7) by simp_all
    define n where "n = min (512 - unat (within mod F12_SECTOR)) left"
    obtain sct d1 where d1: "io_read io (first_data f + (cs ! i - 2) * spc f + within div F12_SECTOR) d = (Some sct, d1)"
      "take n (drop (unat (within mod F12_SECTOR)) sct) = take n (drop p data)" "good d1"
      "same_on sec {l. unat l < nsec} d d1" "0 < n" "n \<le> left" "unat (within + of_nat n) = unat within + n"
      "unat within + n \<le> ?B"
      using read_one[OF less.prems(1,2,3,4,5) i(2,1) less.prems(6) n_def] by blast
    have c: "cluster_ok f (cs ! i)" using less.prems(2) i(2) by (simp add: is_chain_def)
    have ic: "in_chain cluster" using cluster_in_chain[OF c] i(3) by simp
    have csok: "\<forall>c \<in> set cs. cluster_ok f c" using less.prems(2) by (simp add: is_chain_def)
    note ch1 = chain_same[OF d1(4) less.prems(2)] and h1 = holds_same[OF d1(4) less.prems(3) csok]
    have lt: "left - n < left" using d1(5) i(1) by simp
    have spl: "take n (drop p data) @ take (left - n) (drop (p + n) data) = take left (drop p data)"
      by (rule take_split[OF d1(6)])
    have b: "unat (bytes_per_cluster f) = ?B" using geometry by (intro bpc_unat) (simp add: f12_ok_def)
    show ?thesis
    proof (cases "within + of_nat n \<ge> bytes_per_cluster f")
      case True
      then have full: "unat within + n = ?B" using d1(7,8) b by (simp add: word_le_nat_alt)
      obtain d2 where d2: "fat_get io f cluster d1 = (if i + 1 < length cs then ucast (cs ! (i + 1)) else F12_EOC, d2)" "good d2"
        "same_on sec {l. unat l < nsec} d1 d2" using chain_get[OF d1(3) ch1 i(2)] i(3) by blast
      have p': "p + n = (i + 1) * ?B + unat (0 :: u32)" using less.prems(5) full by simp
      have nx: "i + 1 < length cs \<and> ucast (if i + 1 < length cs then ucast (cs ! (i + 1)) else F12_EOC) = cs ! (i + 1)"
        if "0 < left - n"
      proof -
        have "(i + 1) * ?B < length cs * ?B" using that p' less.prems(6) assms(4) by simp
        then have "i + 1 < length cs" by (metis mult_less_cancel2)
        then show ?thesis using chain_next[OF ch1] by simp
      qed
      have z: "unat (0 :: u32) < ?B" using geometry by (simp add: f12_ok_def)
      obtain d3 where d3: "read_loop io f (ucast (if i + 1 < length cs then ucast (cs ! (i + 1)) else F12_EOC)) 0 (left - n)
          (out @ take n (drop p data)) d2 = ((out @ take n (drop p data)) @ take (left - n) (drop (p + n) data), d3)"
        "good d3" "same_on sec {l. unat l < nsec} d2 d3"
        using less.IH[OF lt d2(2) chain_same[OF d2(3) ch1] holds_same[OF d2(3) h1 csok] z p' _ nx] less.prems(6) d1(6)
        by fastforce
      have "read_loop io f cluster within left out d = (out @ take left (drop p data), d3)"
        using i(1) ic d1(1,2) True d2(1) d3(1) spl i(3) by (subst read_loop.simps) (simp add: Let_def n_def)
      then show ?thesis using d3(2) same_on_trans[OF d1(4) same_on_trans[OF d2(3) d3(3)]] by blast
    next
      case False
      then have lt2: "unat (within + of_nat n) < ?B" using b by (simp add: word_le_nat_alt)
      have p': "p + n = i * ?B + unat (within + of_nat n)" using less.prems(5) d1(7) by simp
      obtain d3 where d3: "read_loop io f cluster (within + of_nat n) (left - n)
          (out @ take n (drop p data)) d1 = ((out @ take n (drop p data)) @ take (left - n) (drop (p + n) data), d3)"
        "good d3" "same_on sec {l. unat l < nsec} d1 d3"
        using less.IH[OF lt d1(3) ch1 h1 lt2 p'] less.prems(6) d1(6) i by fastforce
      have "read_loop io f cluster within left out d = (out @ take left (drop p data), d3)"
        using i(1) ic d1(1,2) False d3(1) spl i(3) by (subst read_loop.simps) (simp add: Let_def n_def)
      then show ?thesis using d3(2) same_on_trans[OF d1(4) d3(3)] by blast
    qed
  qed
qed

end

text \<open>Where a read starts walking: the first cluster, or the cursor when it is usable.\<close>

definition walk_from :: "f12_entry \<Rightarrow> cursor option \<Rightarrow> u32 \<Rightarrow> u32 \<times> u32" where
  "walk_from e cur off =
     (case cur of
        Some c \<Rightarrow> if cur_first c = ucast (e_cluster e) \<and> cur_cluster c \<ge> 2 \<and> cur_at c \<le> off
                  then (cur_cluster c, cur_at c) else (ucast (e_cluster e), 0)
      | None \<Rightarrow> (ucast (e_cluster e), 0))"

lemma walk_from_ok:
  assumes "cursor_ok f cs cur" "ucast (e_cluster e) = first_of cs" "cs \<noteq> []"
  shows "\<exists>k < length cs. walk_from e cur off = (cs ! k, snd (walk_from e cur off)) \<and>
    unat (snd (walk_from e cur off)) = k * (unat (spc f) * 512) \<and> snd (walk_from e cur off) \<le> off"
proof (cases "\<exists>c. cur = Some c \<and> cur_first c = first_of cs \<and> cur_cluster c \<ge> 2 \<and> cur_at c \<le> off")
  case True
  then obtain c where c: "cur = Some c" "cur_first c = first_of cs" "cur_cluster c \<ge> 2" "cur_at c \<le> off" by blast
  then show ?thesis using assms(1,2) by (auto simp: walk_from_def cursor_ok_def)
next
  case False
  then have "walk_from e cur off = (first_of cs, 0)" using assms(2) by (auto simp: walk_from_def split: option.splits)
  then show ?thesis using assms(3) by (intro exI[of _ 0]) (simp add: first_of_def hd_conv_nth)
qed

lemma unat_u32_mult_small: "unat x * unat y < 4294967296 \<Longrightarrow> unat (x * y :: u32) = unat x * unat y"
  by (simp add: unat_word_ariths)

lemma walk_arith:
  fixes off base B :: u32
  assumes "unat base = k * unat B" "base \<le> off" "0 < unat B"
  shows "unat ((off - base) div B) = unat off div unat B - k" "k \<le> unat off div unat B"
    "unat (base + (off - base) div B * B) = unat off div unat B * unat B"
    "unat (off - (base + (off - base) div B * B)) = unat off mod unat B"
proof -
  have le: "k * unat B \<le> unat off" using assms(1,2) by (simp add: word_le_nat_alt)
  have sub: "unat (off - base) = unat off - k * unat B" using assms(1,2) by (simp add: unat_u32_sub_small word_le_nat_alt)
  show k: "k \<le> unat off div unat B" using le assms(3) by (simp add: less_eq_div_iff_mult_less_eq)
  show d: "unat ((off - base) div B) = unat off div unat B - k"
    by (simp add: unat_div sub) (metis add_diff_cancel_left' assms(3) div_mult_self4 le le_add_diff_inverse2 less_not_refl2 mult.commute add.commute)
  have e: "k * unat B + (unat off div unat B - k) * unat B = unat off div unat B * unat B"
    using k by (simp add: add_mult_distrib[symmetric])
  have le': "unat off div unat B * unat B \<le> unat off" by simp
  then have bd: "unat off div unat B * unat B < 4294967296" using unat_u32_less[of off] by linarith
  then have "(unat off div unat B - k) * unat B < 4294967296" using e by linarith
  then have m: "unat ((off - base) div B * B) = (unat off div unat B - k) * unat B"
    by (subst unat_u32_mult_small) (simp_all add: d)
  show s: "unat (base + (off - base) div B * B) = unat off div unat B * unat B"
    using e bd m assms(1) by (subst unat_u32_add_small) simp_all
  show "unat (off - (base + (off - base) div B * B)) = unat off mod unat B"
    using s le' by (simp add: unat_u32_sub_small minus_div_mult_eq_mod)
qed

context fat_volume
begin

lemma f12_read_ok:
  assumes g: "good d" and m: "mounted f" "\<not> e_is_dir e" and sz: "unat (e_size e) = length data"
    and fc: "ucast (e_cluster e) = first_of cs" and ch: "is_chain f (table sec f d) cs" and h: "holds sec f d cs data"
    and fit: "length data \<le> length cs * (unat (spc f) * 512)" and cu: "cursor_ok f cs cur"
    and ov: "unat off + unat len < 4294967296"
  shows "\<exists>cur' d'. f12_read io f (Some e) cur off len d = (take (unat len) (drop (unat off) data), cur', d') \<and>
    good d' \<and> same_on sec {l. unat l < nsec} d d' \<and> cursor_ok f cs cur'"
proof (cases "off \<ge> e_size e")
  case True
  then have "length data \<le> unat off" using sz by (simp add: word_le_nat_alt)
  then show ?thesis using True g cu by (intro exI[of _ cur] exI[of _ d]) (simp add: f12_read_def)
next
  case False
  let ?B = "bytes_per_cluster f"
  have B: "unat ?B = unat (spc f) * 512" "0 < unat ?B" using geometry bpc_unat by (simp_all add: f12_ok_def)
  have off: "unat off < length data" using False sz by (simp add: word_le_nat_alt)
  then have ne: "cs \<noteq> []" using fit by auto
  define len' where "len' = (if off + len > e_size e then e_size e - off else len)"
  have ol: "unat (off + len) = unat off + unat len" using ov by (rule unat_u32_add_small)
  have len': "unat len' = min (unat len) (length data - unat off)"
    using ol sz off by (auto simp: len'_def word_less_nat_alt unat_u32_sub_small)
  obtain k base where wk: "walk_from e cur off = (cs ! k, base)" "k < length cs" "unat base = k * unat ?B" "base \<le> off"
    using walk_from_ok[OF cu fc ne, of off] B(1) by (metis prod.inject)
  note wa = walk_arith[OF wk(3,4) B(2)]
  define i where "i = unat off div unat ?B"
  have "unat off div unat ?B < length cs" using off fit B by (simp add: div_less_iff_less_mult)
  then have il: "i < length cs" "k + (i - k) = i" using wa(2) by (simp_all add: i_def)
  obtain d1 where d1: "skip_clusters io f (unat ((off - base) div ?B)) (cs ! k) d = (cs ! i, d1)" "good d1"
    "same_on sec {l. unat l < nsec} d d1"
    using skip_ok[OF g ch, of k "i - k"] il wa(1) by (auto simp: i_def)
  have csok: "\<forall>c \<in> set cs. cluster_ok f c" using ch by (simp add: is_chain_def)
  let ?st = "base + (off - base) div ?B * ?B"
  have p: "unat off = i * (unat (spc f) * 512) + unat (off - ?st)" 
    unfolding i_def wa(4) B(1)[symmetric] by (rule div_mult_mod_eq[symmetric])
  have w: "unat (off - ?st) < unat (spc f) * 512" using wa(4) B by simp
  have pl: "unat off + unat len' \<le> length data" using len' off by simp
  obtain d2 where d2: "read_loop io f (cs ! i) (off - ?st) (unat len') [] d1 = (take (unat len') (drop (unat off) data), d2)"
    "good d2" "same_on sec {l. unat l < nsec} d1 d2"
    using read_loop_ok[OF d1(2) chain_same[OF d1(3) ch] holds_same[OF d1(3) h csok] fit w p pl, of "cs ! i" "[]"] il(1) by auto
  have two: "cs ! i \<ge> 2" using csok il(1) by (auto simp: cluster_ok_def word_le_nat_alt)
  define cur' where "cur' = (case cur of Some _ \<Rightarrow>
      Some \<lparr>cur_first = ucast (e_cluster e), cur_cluster = cs ! i, cur_at = ?st\<rparr> | None \<Rightarrow> None)"
  have "cursor_ok f cs cur'"
    using il(1) wa(3) B(1) by (auto simp: cur'_def cursor_ok_def i_def split: option.splits)
  moreover have "f12_read io f (Some e) cur off len d = (take (unat len') (drop (unat off) data), cur', d2)"
    using False m wk(1) d1(1) d2(1) two
    by (auto simp: f12_read_def Let_def walk_from_def len'_def cur'_def split: option.splits)
  moreover have "take (unat len') (drop (unat off) data) = take (unat len) (drop (unat off) data)"
    using len' by (simp add: min_def)
  ultimately show ?thesis using d2(2) same_on_trans[OF d1(3) d2(3)] by auto
qed

end

section \<open>Files on the transfer drive\<close>

definition volume_on_drive :: "u32 \<Rightarrow> flash_prog \<Rightarrow> f12 \<Rightarrow> bool" where
  "volume_on_drive slot prog f = (table_on_drive slot prog f \<and> f12_ok (unat slot div 512) f \<and> mounted f)"

lemma region_fat_volume:
  assumes "volume_on_drive slot prog f"
  shows "fat_volume (region_io slot prog) (region_sec slot) (region_ok slot) (unat slot div 512) f"
  using assms region_fat_table unfolding volume_on_drive_def fat_volume_def fat_volume_axioms_def by blast

lemma drive_on_drive: "volume_on_drive 0x80000 ideal_prog drive_volume"
  using drive_table by (simp add: volume_on_drive_def f12_ok_def) (simp add: drive_volume_def)

interpretation drive_files: fat_volume "region_io 0x80000 ideal_prog" "region_sec 0x80000" "region_ok 0x80000"
  "unat (0x80000 :: u32) div 512" drive_volume
  by (rule region_fat_volume[OF drive_on_drive])

text \<open>A file as the disk holds it: its chain of clusters and its bytes.\<close>

definition stored :: "u32 \<Rightarrow> f12 \<Rightarrow> region \<Rightarrow> f12_entry \<Rightarrow> bytes \<Rightarrow> bool" where
  "stored slot f r e data =
     (\<exists>cs. is_chain f (table (region_sec slot) f r) cs \<and> holds (region_sec slot) f r cs data \<and>
        length data \<le> length cs * (unat (spc f) * 512) \<and> ucast (e_cluster e) = first_of cs \<and>
        unat (e_size e) = length data \<and> \<not> e_is_dir e)"

fun read_seq :: "'d f12_io \<Rightarrow> f12 \<Rightarrow> f12_entry \<Rightarrow> cursor option \<Rightarrow> (u32 \<times> u32) list \<Rightarrow> 'd \<Rightarrow> bytes list" where
  "read_seq io f e cur [] d = []"
| "read_seq io f e cur ((off, len) # rs) d =
     (case f12_read io f (Some e) cur off len d of (b, cur, d) \<Rightarrow> b # read_seq io f e cur rs d)"

lemma read_seq_ok:
  assumes v: "volume_on_drive slot prog f" and e: "unat (e_size e) = length data" "\<not> e_is_dir e" "ucast (e_cluster e) = first_of cs"
    and fit: "length data \<le> length cs * (unat (spc f) * 512)" and ov: "\<forall>(off, len) \<in> set rs. unat off + unat len < 4294967296"
    and "region_ok slot r" "is_chain f (table (region_sec slot) f r) cs" "holds (region_sec slot) f r cs data" "cursor_ok f cs cur"
  shows "read_seq (region_io slot prog) f e cur rs r = map (\<lambda>(off, len). take (unat len) (drop (unat off) data)) rs"
  using ov assms(7-10)
proof (induction rs arbitrary: r cur)
  case (Cons x rs)
  obtain off len where x: "x = (off, len)" by fastforce
  note fv = region_fat_volume[OF v]
  have m: "mounted f" using v by (simp add: volume_on_drive_def)
  obtain cur' r' where r': "f12_read (region_io slot prog) f (Some e) cur off len r = (take (unat len) (drop (unat off) data), cur', r')"
    "region_ok slot r'" "same_on (region_sec slot) {l. unat l < unat slot div 512} r r'" "cursor_ok f cs cur'"
    using fat_volume.f12_read_ok[OF fv Cons.prems(2) m e(2,1,3) Cons.prems(3,4) fit Cons.prems(5), of off len] Cons.prems(1) x
    by auto
  have ok: "\<forall>c \<in> set cs. cluster_ok f c" using Cons.prems(3) by (simp add: is_chain_def)
  show ?case
    using Cons.IH[OF _ r'(2) fat_volume.chain_same[OF fv r'(3) Cons.prems(3)] fat_volume.holds_same[OF fv r'(3) Cons.prems(4) ok] r'(4)]
      Cons.prems(1) x r'(1) by simp
qed simp

lemma cursor_start: "cursor_ok f cs (Some f12_cursor_init)" "cursor_ok f cs None"
  by (simp_all add: cursor_ok_def f12_cursor_init_def)

lemma stored_reads:
  assumes "volume_on_drive slot prog f" "region_ok slot r" "stored slot f r e data"
    "\<forall>(off, len) \<in> set rs. unat off + unat len < 4294967296" "cur \<in> {None, Some f12_cursor_init}"
  shows "read_seq (region_io slot prog) f e cur rs r = map (\<lambda>(off, len). take (unat len) (drop (unat off) data)) rs"
proof -
  obtain cs where cs: "is_chain f (table (region_sec slot) f r) cs" "holds (region_sec slot) f r cs data"
    "length data \<le> length cs * (unat (spc f) * 512)" "ucast (e_cluster e) = first_of cs"
    "unat (e_size e) = length data" "\<not> e_is_dir e" using assms(3) unfolding stored_def by blast
  have "cursor_ok f cs cur" using assms(5) cursor_start by auto
  from read_seq_ok[OF assms(1) cs(5,6,4,3) assms(4,2) cs(1,2) this] show ?thesis .
qed

lemma stored_kept:
  assumes v: "volume_on_drive slot prog f" and s: "stored slot f r e data"
    and t: "\<And>k. k < unat (clusters f) + 2 \<Longrightarrow> k \<notin> unat ` C \<Longrightarrow> table (region_sec slot) f r' k = table (region_sec slot) f r k"
    and C: "C \<subseteq> free_clusters f (table (region_sec slot) f r)"
    and fr: "same_on (region_sec slot) ({l. unat l < unat slot div 512} - table_lbas f - cluster_lbas f C) r r'"
  shows "stored slot f r' e data"
proof -
  note fv = region_fat_volume[OF v]
  obtain cs where cs: "is_chain f (table (region_sec slot) f r) cs" "holds (region_sec slot) f r cs data"
    and rest: "length data \<le> length cs * (unat (spc f) * 512)" "ucast (e_cluster e) = first_of cs"
    "unat (e_size e) = length data" "\<not> e_is_dir e" using s unfolding stored_def by blast
  have ok: "\<forall>c \<in> set cs. cluster_ok f c" using cs(1) by (simp add: is_chain_def)
  have dis: "set cs \<inter> C = {}"
    using C chain_nonzero[OF cs(1) _ fat_volume.few_clusters[OF fv]] by (auto simp: free_clusters_def)
  have "table (region_sec slot) f r' (unat c) = table (region_sec slot) f r (unat c)" if c: "c \<in> set cs" for c
  proof (rule t)
    show "unat c < unat (clusters f) + 2" using ok c by (simp add: cluster_ok_def)
    show "unat c \<notin> unat ` C" using dis c by (auto simp: word_unat_eq_iff[symmetric])
  qed
  then have "is_chain f (table (region_sec slot) f r') cs" using cs(1) is_chain_cong by blast
  moreover have "holds (region_sec slot) f r' cs data"
    by (rule fat_volume.holds_frame[OF fv cs(2) ok _ dis fr]) (use C in \<open>auto simp: free_clusters_def\<close>)
  ultimately show ?thesis using rest unfolding stored_def by blast
qed

text \<open>
  C30. What is written is what is read.  When enough clusters are free for it, the data loop of
  \<open>f12_write\<close> ends, stores the bytes its source delivers in a chain of formerly free clusters and
  returns the first; an entry with that cluster and size then gives back exactly the bytes
  asked for, in any order of reads, with a cursor carried from read to read or without one.
  Every file stored before is still stored, byte for byte.
\<close>

theorem file_data_roundtrip:
  assumes "volume_on_drive slot prog f" "region_ok slot r" "delivers src data" "length data = unat fsize"
    and "unat fsize \<le> card (free_clusters f (table (region_sec slot) f r)) * (unat (spc f) * 512)"
    and "\<forall>(off, len) \<in> set rs. unat off + unat len < 4294967296" "cur \<in> {None, Some f12_cursor_init}"
  defines "io \<equiv> region_io slot prog"
  shows "\<exists>c ctx' r'. write_data io f src fsize 0 0 0 ctx r = Some (Some c, ctx', r') \<and> region_ok slot r' \<and>
    (\<forall>e. e_cluster e = ucast c \<and> e_size e = fsize \<and> \<not> e_is_dir e \<longrightarrow>
       read_seq io f e cur rs r' = map (\<lambda>(off, len). take (unat len) (drop (unat off) data)) rs) \<and>
    (\<forall>e old. stored slot f r e old \<longrightarrow> stored slot f r' e old)"
proof -
  note fv = region_fat_volume[OF assms(1)]
  let ?T = "table (region_sec slot) f r"
  have w: "writing (region_sec slot) f data [] 0 r" by (simp add: writing_def is_chain_def holds_def)
  have "unat fsize \<le> (length [] + card (free_clusters f ?T)) * (unat (spc f) * 512)" using assms(5) by simp
  from fat_volume.write_data_ok[OF fv assms(2) w assms(3,4) this, of ctx] obtain cs ctx' r' where cs:
    "write_data io f src fsize 0 0 0 ctx r = Some (Some (first_of cs), ctx', r')" "region_ok slot r'"
    "writing (region_sec slot) f data cs fsize r'" "set cs \<subseteq> free_clusters f ?T"
    "\<And>k. k < unat (clusters f) + 2 \<Longrightarrow> k \<notin> unat ` set cs \<Longrightarrow> table (region_sec slot) f r' k = ?T k"
    "same_on (region_sec slot) ({l. unat l < unat slot div 512} - table_lbas f - cluster_lbas f (set cs)) r r'"
    unfolding io_def by (auto simp: first_of_def[of "[]"] last_of_def[of "[]"])
  have "first_of cs = 0 \<or> unat (first_of cs) < 4088"
    using cs(3) fat_volume.cluster_small[OF fv] by (auto simp: first_of_def writing_def is_chain_def)
  then have uc: "ucast (ucast (first_of cs) :: u16) = first_of cs" using cluster_masked(2)[of "first_of cs"] by auto
  have "stored slot f r' e data" if "e_cluster e = ucast (first_of cs)" "e_size e = fsize" "\<not> e_is_dir e" for e
    using that cs(3) assms(4) uc unfolding stored_def writing_def by (intro exI[of _ cs]) auto
  then have "\<forall>e. e_cluster e = ucast (first_of cs) \<and> e_size e = fsize \<and> \<not> e_is_dir e \<longrightarrow>
      read_seq io f e cur rs r' = map (\<lambda>(off, len). take (unat len) (drop (unat off) data)) rs"
    using stored_reads[OF assms(1) cs(2) _ assms(6,7)] unfolding io_def by blast
  moreover have "\<forall>e old. stored slot f r e old \<longrightarrow> stored slot f r' e old"
    using stored_kept[OF assms(1) _ cs(5,4,6)] by blast
  ultimately show ?thesis using cs(1,2) by blast
qed

lemma zero_table:
  assumes "k < 4088"
  shows "table (region_sec 0x80000) drive_volume zero_region k = 0"
proof -
  have "region_sec 0x80000 zero_region l = replicate 512 0" for l
    by (simp add: region_sec_def zero_region_def blank_region_def flash_block_def map_replicate_const
      drop_replicate) (simp add: unat_mod)
  then have "table_byte (region_sec 0x80000) drive_volume zero_region j = 0" for j
    by (simp add: table_byte_def)
  then show ?thesis by (simp add: table_def entry_of_def Let_def)
qed

lemma zero_free: "2 \<le> card (free_clusters drive_volume (table (region_sec 0x80000) drive_volume zero_region))"
proof -
  have "{2, 3} \<subseteq> free_clusters drive_volume (table (region_sec 0x80000) drive_volume zero_region)"
    by (simp add: free_clusters_def cluster_ok_def zero_table) (simp add: drive_volume_def)
  then have "card {2, 3 :: u32} \<le> card (free_clusters drive_volume (table (region_sec 0x80000) drive_volume zero_region))"
    by (rule card_mono[OF free_finite])
  then show ?thesis by simp
qed

definition sample_bytes :: bytes where "sample_bytes = map of_nat [0..<700]"

theorem file_data_roundtrip_witness:
  "\<exists>c r'. write_data (region_io 0x80000 ideal_prog) drive_volume
       (\<lambda>off want ctx. (take (unat want) (drop (unat off) sample_bytes), ctx)) 700 0 0 0 () zero_region = Some (Some c, (), r') \<and>
     read_seq (region_io 0x80000 ideal_prog) drive_volume
       \<lparr>e_name = ''A.BIN'', e_size = 700, e_mtime = 0, e_cluster = ucast c, e_is_dir = False\<rparr>
       (Some f12_cursor_init) [(600, 200), (3, 2)] r' = [map of_nat [600..<700], [3, 4]]"
proof -
  let ?src = "\<lambda>off want (ctx :: unit). (take (unat (want :: u32)) (drop (unat (off :: u32)) sample_bytes), ctx)"
  have src: "delivers ?src sample_bytes" by (simp add: delivers_def)
  have len: "length sample_bytes = unat (700 :: u32)" by (simp add: sample_bytes_def)
  have room: "unat (700 :: u32) \<le> card (free_clusters drive_volume (table (region_sec 0x80000) drive_volume zero_region)) *
      (unat (spc drive_volume) * 512)" using zero_free by (simp add: drive_volume_def)
  have reads: "\<forall>(off, len) \<in> set [(600 :: u32, 200 :: u32), (3, 2)]. unat off + unat len < 4294967296" by simp
  have out: "map (\<lambda>(off, len). take (unat (len :: u32)) (drop (unat (off :: u32)) sample_bytes)) [(600, 200), (3, 2)] =
      [map of_nat [600..<700], [3, 4]]" by (simp add: sample_bytes_def drop_map take_map)
  obtain c ctx' r' where w: "write_data (region_io 0x80000 ideal_prog) drive_volume ?src 700 0 0 0 () zero_region = Some (Some c, ctx', r')"
    "\<forall>e. e_cluster e = ucast c \<and> e_size e = 700 \<and> \<not> e_is_dir e \<longrightarrow>
       read_seq (region_io 0x80000 ideal_prog) drive_volume e (Some f12_cursor_init) [(600, 200), (3, 2)] r' = [map of_nat [600..<700], [3, 4]]"
    using file_data_roundtrip[OF drive_on_drive zero_ok src len room reads, of "Some f12_cursor_init" "()"] unfolding out by blast
  then show ?thesis by (intro exI[of _ c] exI[of _ r']) simp
qed

end
