(* ===== verification/Mpu.thy ===== *)
theory Mpu
  imports Prelude
begin

text \<open>
  \<open>os/core/mpu.cpp\<close>: the register values that describe a protected range of memory to the two
  memory protection units the firmware runs on, and the sizes of the blocks such a range needs.
  An \<open>out\<close> parameter with a success flag is an option.  The decoding functions at the end of the
  model read the registers the way the comments of the file lay them out.
\<close>

section \<open>Model\<close>

datatype mpu_perm = MPU_NO_ACCESS | MPU_RO_EXEC | MPU_RW_NOEXEC

definition V8_ATTR_INDEX :: u32 where "V8_ATTR_INDEX = 0"
definition V8_SH_NONE :: u32 where "V8_SH_NONE = 0"

definition V6_MEM_ATTRS :: u32 where
  "V6_MEM_ATTRS = push_bit 19 0 OR push_bit 18 1 OR push_bit 17 1 OR push_bit 16 0"

definition MPU_V8_GRAIN :: u32 where "MPU_V8_GRAIN = 32"
definition MPU_V6_MIN_SIZE :: u32 where "MPU_V6_MIN_SIZE = 32"

record mpu_v8_region =
  v8_rbar :: u32
  v8_rlar :: u32

record mpu_v6_region =
  v6_rbar :: u32
  v6_rasr :: u32

record mpu_block_plan =
  alloc_bytes :: u32
  plan_align :: u32
  region_bytes :: u32

subsection \<open>ARMv8-M\<close>

text \<open>The access and execute-never bits of a permission.\<close>

fun v8_perm_bits :: "mpu_perm \<Rightarrow> u32 \<times> u32" where
  "v8_perm_bits MPU_NO_ACCESS = (2, 1)"
| "v8_perm_bits MPU_RO_EXEC = (3, 0)"
| "v8_perm_bits MPU_RW_NOEXEC = (1, 1)"

definition mpu_v8_encode :: "u32 \<Rightarrow> u32 \<Rightarrow> mpu_perm \<Rightarrow> mpu_v8_region option" where
  "mpu_v8_encode base sz perm =
     (if sz = 0 then None
      else if base mod MPU_V8_GRAIN \<noteq> 0 then None
      else if sz mod MPU_V8_GRAIN \<noteq> 0 then None
      else if base + sz < base then None
      else case v8_perm_bits perm of (ap, xn) \<Rightarrow>
        Some \<lparr>v8_rbar = (base AND NOT (MPU_V8_GRAIN - 1)) OR push_bit 3 V8_SH_NONE OR push_bit 1 ap OR xn,
              v8_rlar = ((base + sz - 1) AND NOT (MPU_V8_GRAIN - 1)) OR push_bit 1 V8_ATTR_INDEX OR 1\<rparr>)"

subsection \<open>ARMv6-M\<close>

fun v6_perm_bits :: "mpu_perm \<Rightarrow> u32 \<times> u32" where
  "v6_perm_bits MPU_NO_ACCESS = (0, 1)"
| "v6_perm_bits MPU_RO_EXEC = (6, 0)"
| "v6_perm_bits MPU_RW_NOEXEC = (3, 1)"

text \<open>
  The loop ends at the top bit of a word that is not zero; the bound on \<open>n\<close>, which the source
  does not need, is never reached from \<open>log2_exact\<close>.
\<close>

function log2_loop :: "u32 \<Rightarrow> nat \<Rightarrow> nat" where
  "log2_loop v n = (if drop_bit n v = 1 \<or> 32 \<le> n then n else log2_loop v (n + 1))"
  by pat_completeness auto
termination
  by (relation "measure (\<lambda>(v, n). 32 - n)") auto

declare log2_loop.simps [simp del]

definition log2_exact :: "u32 \<Rightarrow> nat" where
  "log2_exact v = (if v = 0 \<or> v AND (v - 1) \<noteq> 0 then 32 else log2_loop v 0)"

definition mpu_v6_encode :: "u32 \<Rightarrow> u32 \<Rightarrow> u8 \<Rightarrow> mpu_perm \<Rightarrow> mpu_v6_region option" where
  "mpu_v6_encode base sz region perm =
     (if region > 7 then None
      else if sz < MPU_V6_MIN_SIZE then None
      else let bits = log2_exact sz in
        if bits = 32 then None
        else if base AND (sz - 1) \<noteq> 0 then None
        else if base + sz < base then None
        else case v6_perm_bits perm of (ap, xn) \<Rightarrow>
          Some \<lparr>v6_rbar = base OR push_bit 4 1 OR ucast region,
                v6_rasr = 1 OR push_bit 1 (of_nat bits - 1) OR V6_MEM_ATTRS OR push_bit 24 ap OR push_bit 28 xn\<rparr>)"

subsection \<open>Sizing\<close>

definition mpu_align_up :: "u32 \<Rightarrow> u32 \<Rightarrow> u32" where
  "mpu_align_up v align =
     (if align = 0 \<or> align AND (align - 1) \<noteq> 0 then v
      else let r = v + (align - 1) in if r < v then v else r AND NOT (align - 1))"

definition mpu_v8_plan_block :: "u32 \<Rightarrow> mpu_block_plan option" where
  "mpu_v8_plan_block want =
     (if want = 0 then None
      else let sz = mpu_align_up want MPU_V8_GRAIN in
        if sz < want then None
        else if sz > 0xFFFFFFFF - MPU_V8_GRAIN then None
        else Some \<lparr>alloc_bytes = sz + (MPU_V8_GRAIN - 1), plan_align = MPU_V8_GRAIN, region_bytes = sz\<rparr>)"

function v6_size_loop :: "u32 \<Rightarrow> u32 \<Rightarrow> u32 option" where
  "v6_size_loop want sz =
     (if sz < want then if sz = 0 \<or> sz > 0x40000000 then None else v6_size_loop want (push_bit 1 sz)
      else Some sz)"
  by pat_completeness auto

definition mpu_v6_plan_block :: "u32 \<Rightarrow> mpu_block_plan option" where
  "mpu_v6_plan_block want =
     (if want = 0 then None
      else case v6_size_loop want MPU_V6_MIN_SIZE of
          None \<Rightarrow> None
        | Some sz \<Rightarrow> let al = sz + (sz - 1) in
            if al < sz then None
            else Some \<lparr>alloc_bytes = al, plan_align = sz, region_bytes = sz\<rparr>)"

termination v6_size_loop
proof (relation "measure (\<lambda>(want, sz). 4294967296 - unat sz)", goal_cases)
  case 1
  show ?case by simp
next
  case (2 want sz)
  then have "sz \<noteq> 0" "unat sz \<le> 0x40000000" by (simp_all add: word_le_nat_alt not_less)
  moreover from this have "unat (push_bit 1 sz) = 2 * unat sz" by (simp add: push_bit_eq_mult unat_word_ariths)
  moreover have "0 < unat sz" using \<open>sz \<noteq> 0\<close> by (simp add: unat_gt_0)
  ultimately show ?case by simp
qed

declare v6_size_loop.simps [simp del]

section \<open>What the registers mean\<close>

text \<open>
  The layouts are those of the comments in the source.  ARMv8-M: BASE in RBAR[31:5], AP in
  RBAR[2:1], XN in RBAR[0], LIMIT in RLAR[31:5] with its low five bits taken as ones, EN in
  RLAR[0].  ARMv6-M: ADDR in RBAR[31:8], SIZE in RASR[5:1] for a region of \<open>2 ^ (SIZE + 1)\<close> bytes.
\<close>

definition v8_covers :: "mpu_v8_region \<Rightarrow> u32 \<Rightarrow> bool" where
  "v8_covers r a = (v8_rlar r AND 1 = 1 \<and> v8_rbar r AND NOT 31 \<le> a \<and> a \<le> v8_rlar r OR 31)"

definition v8_writable :: "mpu_v8_region \<Rightarrow> bool" where
  "v8_writable r = (drop_bit 1 (v8_rbar r) AND 3 \<in> {0, 1})"

definition v8_unprivileged :: "mpu_v8_region \<Rightarrow> bool" where
  "v8_unprivileged r = (drop_bit 1 (v8_rbar r) AND 3 \<in> {1, 3})"

definition v8_executable :: "mpu_v8_region \<Rightarrow> bool" where
  "v8_executable r = (v8_rbar r AND 1 = 0)"

definition v6_size :: "mpu_v6_region \<Rightarrow> nat" where
  "v6_size r = 2 ^ (unat (drop_bit 1 (v6_rasr r) AND 31) + 1)"

definition v6_addr :: "mpu_v6_region \<Rightarrow> u32" where
  "v6_addr r = v6_rbar r AND NOT 0xFF"

section \<open>The regions are the ones asked for\<close>

lemma unat_or_mask:
  assumes "k < 32"
  shows "unat (x OR mask k :: u32) = unat x div 2 ^ k * 2 ^ k + (2 ^ k - 1)"
proof -
  have e: "(x AND NOT (mask k)) + mask k = x OR mask k"
    by (subst disjunctive_add_eq_or) (rule bit_word_eqI, auto simp: bit_simps)+
  have "(2 :: nat) ^ k < 2 ^ 32" using assms by (rule power_strict_increasing) simp
  then have "unat (of_nat (2 ^ k - 1) :: u32) = 2 ^ k - 1" by (intro unat_of_nat_u32) simp
  moreover have "of_nat (2 ^ k - 1) = (mask k :: u32)" by (simp add: mask_eq_exp_minus_1)
  ultimately have m: "unat (mask k :: u32) = 2 ^ k - 1" by simp
  have "unat x div 2 ^ k * 2 ^ k + 2 ^ k \<le> 4294967296"
  proof -
    have "unat x div 2 ^ k < 2 ^ (32 - k)"
      using unat_u32_less[of x] assms by (simp add: less_mult_imp_div_less power_add[symmetric])
    then have "(unat x div 2 ^ k + 1) * 2 ^ k \<le> 2 ^ (32 - k) * 2 ^ k" by (intro mult_le_mono1) simp
    also have "\<dots> = 2 ^ 32" using assms by (simp add: power_add[symmetric])
    finally show ?thesis by simp
  qed
  moreover have "(0 :: nat) < 2 ^ k" by simp
  ultimately have "unat x div 2 ^ k * 2 ^ k + (2 ^ k - 1) < 4294967296" by linarith
  then show ?thesis unfolding e[symmetric] using m by (subst unat_u32_add_small) (simp_all add: unat_and_not_mask)
qed

lemma thirty_one: "(31 :: u32) = mask 5" "(3 :: u32) = mask 2" "(7 :: u32) = mask 3"
  by (simp_all add: mask_eq_exp_minus_1)

lemma low_bits: "take_bit 5 ((b AND NOT 31) OR c) = take_bit 5 (c :: u32)"
  unfolding thirty_one by (rule bit_word_eqI) (auto simp: bit_simps)

lemma field_of_low:
  "drop_bit 1 x AND 3 = drop_bit 1 (take_bit 5 x) AND (3 :: u32)" "x AND 1 = take_bit 5 x AND (1 :: u32)"
  unfolding thirty_one by (rule bit_word_eqI, auto simp: bit_simps)+

lemma granule:
  assumes "(x :: u32) mod 32 = 0"
  shows "unat x mod 32 = 0" "x AND NOT 31 = x"
proof -
  have "unat (x mod 32) = 0" using assms by simp
  then show m: "unat x mod 32 = 0" by (simp add: unat_mod)
  have "unat (x AND NOT 31) = unat x" using m unfolding thirty_one unat_and_not_mask by auto
  then show "x AND NOT 31 = x" by (simp add: word_unat_eq_iff)
qed

lemma granule_iff: "(x :: u32) mod 32 = 0 \<longleftrightarrow> unat x mod 32 = 0"
proof
  assume "unat x mod 32 = 0"
  then have "unat (x mod 32) = 0" by (simp add: unat_mod)
  then show "x mod 32 = 0" by (simp add: unat_eq_zero)
qed (rule granule)

lemma add_mod_less: "b < M \<Longrightarrow> s < M \<Longrightarrow> 0 < s \<Longrightarrow> (b + s) mod M < b \<longleftrightarrow> M \<le> b + (s :: nat)"
  by (cases "b + s < M") (simp_all add: le_mod_geq)

lemma wrap_iff:
  assumes "0 < unat sz"
  shows "base + sz < (base :: u32) \<longleftrightarrow> 4294967296 \<le> unat base + unat sz"
  unfolding word_less_nat_alt unat_u32_add by (rule add_mod_less) (use assms in simp_all)

lemma v8_encode_eq:
  "mpu_v8_encode base sz perm =
     (if unat sz = 0 \<or> unat base mod 32 \<noteq> 0 \<or> unat sz mod 32 \<noteq> 0 \<or> 4294967296 \<le> unat base + unat sz then None
      else Some \<lparr>v8_rbar = (base AND NOT 31) OR (push_bit 1 (fst (v8_perm_bits perm)) OR snd (v8_perm_bits perm)),
                 v8_rlar = ((base + sz - 1) AND NOT 31) OR 1\<rparr>)"
proof (cases "unat sz = 0")
  case True
  then show ?thesis by (simp add: mpu_v8_encode_def unat_eq_zero)
next
  case False
  then have "sz \<noteq> 0" "0 < unat sz" by auto
  then show ?thesis
    unfolding mpu_v8_encode_def MPU_V8_GRAIN_def granule_iff wrap_iff[OF \<open>0 < unat sz\<close>]
    by (simp add: V8_SH_NONE_def V8_ATTR_INDEX_def or.assoc split: prod.split)
qed

lemma v8_encode_some:
  assumes "mpu_v8_encode base sz perm = Some r"
  shows "0 < unat sz" "unat base mod 32 = 0" "unat sz mod 32 = 0" "unat base + unat sz < 4294967296"
    "v8_rbar r = (base AND NOT 31) OR (push_bit 1 (fst (v8_perm_bits perm)) OR snd (v8_perm_bits perm))"
    "v8_rlar r = ((base + sz - 1) AND NOT 31) OR 1"
proof -
  show "0 < unat sz" "unat base mod 32 = 0" "unat sz mod 32 = 0" "unat base + unat sz < 4294967296"
    using assms unfolding v8_encode_eq by (simp_all split: if_splits)
  have "r = \<lparr>v8_rbar = (base AND NOT 31) OR (push_bit 1 (fst (v8_perm_bits perm)) OR snd (v8_perm_bits perm)),
              v8_rlar = ((base + sz - 1) AND NOT 31) OR 1\<rparr>"
    using assms unfolding v8_encode_eq by (metis option.distinct(1) option.inject)
  then show "v8_rbar r = (base AND NOT 31) OR (push_bit 1 (fst (v8_perm_bits perm)) OR snd (v8_perm_bits perm))"
    "v8_rlar r = ((base + sz - 1) AND NOT 31) OR 1" by simp_all
qed

lemma perm_low: "(push_bit 1 (fst (v8_perm_bits perm)) OR snd (v8_perm_bits perm)) AND NOT 31 = 0"
  by (cases perm) simp_all

lemma v8_range:
  assumes "mpu_v8_encode base sz perm = Some r"
  shows "v8_covers r a \<longleftrightarrow> unat base \<le> unat a \<and> unat a < unat base + unat sz"
proof -
  note e = v8_encode_some[OF assms]
  have pos: "1 \<le> sz" using e(1) by (simp add: word_le_nat_alt)
  have "unat (base + sz - 1) = unat base + unat sz - 1"
    using e(1,4) by (simp add: unat_u32_sub_small unat_u32_add_small)
  moreover have "v8_rlar r OR 31 = (base + sz - 1) OR 31"
    unfolding e(6) thirty_one by (rule bit_word_eqI) (auto simp: bit_simps)
  moreover have "32 dvd unat base + unat sz" using e(2,3) by (metis dvd_add mod_0_imp_dvd)
  then obtain q where q: "unat base + unat sz = 32 * q" by blast
  then have "0 < q" using e(1) by (cases q) auto
  then have "(unat base + unat sz - 1) div 32 * 32 + 31 = unat base + unat sz - 1" unfolding q by (cases q) auto
  ultimately have lim: "unat (v8_rlar r OR 31) = unat base + unat sz - 1"
    using unat_or_mask[of 5 "base + sz - 1"] by (simp add: thirty_one)
  have en: "v8_rlar r AND 1 = 1"
    using field_of_low(2)[of "v8_rlar r"] low_bits[of "base + sz - 1" 1] unfolding e(6) by simp
  have "v8_rbar r AND NOT 31 = base"
    unfolding e(5) using perm_low[of perm] granule(2)[of base] e(2)
    by (simp only: bit.conj_disj_distrib2 granule_iff and.assoc bit.conj_cancel_right and.idem bit.disj_zero_right)
  then show ?thesis using lim en e(1) by (auto simp: v8_covers_def word_le_nat_alt)
qed

lemma v8_rights:
  assumes "mpu_v8_encode base sz perm = Some r"
  shows "v8_writable r = (perm = MPU_RW_NOEXEC)" "v8_executable r = (perm = MPU_RO_EXEC)"
    "v8_unprivileged r = (perm \<noteq> MPU_NO_ACCESS)"
proof -
  have t: "take_bit 5 (v8_rbar r) = take_bit 5 (push_bit 1 (fst (v8_perm_bits perm)) OR snd (v8_perm_bits perm))"
    unfolding v8_encode_some(5)[OF assms] by (rule low_bits)
  show "v8_writable r = (perm = MPU_RW_NOEXEC)"
    unfolding v8_writable_def field_of_low(1)[of "v8_rbar r"] t by (cases perm) simp_all
  show "v8_executable r = (perm = MPU_RO_EXEC)"
    unfolding v8_executable_def field_of_low(2)[of "v8_rbar r"] t by (cases perm) simp_all
  show "v8_unprivileged r = (perm \<noteq> MPU_NO_ACCESS)"
    unfolding v8_unprivileged_def field_of_low(1)[of "v8_rbar r"] t by (cases perm) simp_all
qed

lemma align_up_32:
  assumes "unat v + 31 < 4294967296"
  shows "unat (mpu_align_up v 32) = (unat v + 31) div 32 * 32"
proof -
  have a: "unat (v + 31) = unat v + 31" using assms by (simp add: unat_u32_add_small)
  then have nw: "\<not> v + 31 < v" by (simp add: word_less_nat_alt)
  have "mpu_align_up v 32 = (v + 31) AND NOT 31" using nw by (simp add: mpu_align_up_def Let_def)
  then have "unat (mpu_align_up v 32) = unat (v + 31) div 2 ^ 5 * 2 ^ 5"
    unfolding thirty_one(1) by (simp only: unat_and_not_mask)
  then show ?thesis using a by simp
qed

lemma v8_plan_some:
  assumes "mpu_v8_plan_block want = Some pl"
  shows "0 < unat want" "unat want + 31 < 4294967296" "unat (region_bytes pl) = (unat want + 31) div 32 * 32"
    "unat (alloc_bytes pl) = unat (region_bytes pl) + 31" "plan_align pl = 32"
proof -
  let ?sz = "mpu_align_up want 32"
  have g: "want \<noteq> 0" "\<not> ?sz > 0xFFFFFFDF" and pl: "pl = \<lparr>alloc_bytes = ?sz + 31, plan_align = 32, region_bytes = ?sz\<rparr>"
    using assms by (simp_all add: mpu_v8_plan_block_def MPU_V8_GRAIN_def Let_def split: if_splits)
  show "0 < unat want" using g(1) by (simp add: unat_gt_0)
  have le: "unat ?sz \<le> 0xFFFFFFDF" using g(2) by (simp add: word_less_nat_alt not_less)
  show small: "unat want + 31 < 4294967296"
  proof (rule ccontr)
    assume big: "\<not> unat want + 31 < 4294967296"
    have "unat want - 4294967265 < 4294967296" using unat_u32_less[of want] by linarith
    then have "unat (want + 31) = unat want + 31 - 4294967296" using big
      by (simp add: unat_u32_add le_mod_geq not_less)
    then have "want + 31 < want" using big unat_u32_less[of want] by (simp add: word_less_nat_alt)
    then have "?sz = want" by (simp add: mpu_align_up_def)
    then show False using big le by simp
  qed
  show "unat (region_bytes pl) = (unat want + 31) div 32 * 32" using align_up_32[OF small] pl by simp
  show "unat (alloc_bytes pl) = unat (region_bytes pl) + 31" using pl le by (simp add: unat_u32_add_small)
  show "plan_align pl = 32" using pl by simp
qed

text \<open>
  C31. A region protects exactly the range it was asked to.  On ARMv8-M the encoder refuses a range
  that is empty, not on the 32-byte granule at both ends or past the end of memory, and otherwise
  gives registers that cover every byte of the range and no other, that let package code write
  only what is not executable, and that let unprivileged code in nowhere else.
\<close>

theorem mpu_regions_exact:
  "(mpu_v8_encode base sz perm = None \<longleftrightarrow>
      \<not> (0 < unat sz \<and> unat base mod 32 = 0 \<and> unat sz mod 32 = 0 \<and> unat base + unat sz < 4294967296)) \<and>
   (\<forall>r. mpu_v8_encode base sz perm = Some r \<longrightarrow>
      (\<forall>a. v8_covers r a \<longleftrightarrow> unat base \<le> unat a \<and> unat a < unat base + unat sz) \<and>
      v8_writable r = (perm = MPU_RW_NOEXEC) \<and> v8_executable r = (perm = MPU_RO_EXEC) \<and>
      v8_unprivileged r = (perm \<noteq> MPU_NO_ACCESS))"
  using v8_range v8_rights by (auto simp: v8_encode_eq)

theorem mpu_regions_exact_witness:
  "\<exists>r. mpu_v8_encode 0x20001000 0x400 MPU_RW_NOEXEC = Some r \<and> v8_covers r 0x200013FF \<and> \<not> v8_covers r 0x20001400 \<and>
     \<not> v8_executable r"
proof -
  have "mpu_v8_encode 0x20001000 0x400 MPU_RW_NOEXEC \<noteq> None" by (simp add: v8_encode_eq)
  then obtain r where "mpu_v8_encode 0x20001000 0x400 MPU_RW_NOEXEC = Some r" by blast
  then show ?thesis using mpu_regions_exact[of "0x20001000" "0x400" MPU_RW_NOEXEC] by auto
qed

text \<open>
  A planned block can always be protected.  Whatever address the heap returns for a planned
  allocation, rounding it up as planned gives a region that encodes, that has room for what was
  wanted and that covers no byte outside the allocation.
\<close>

theorem mpu_plan_encodes:
  assumes "mpu_v8_plan_block want = Some pl" "unat p + unat (alloc_bytes pl) < 4294967296"
  defines "base \<equiv> mpu_align_up p (plan_align pl)"
  shows "\<exists>r. mpu_v8_encode base (region_bytes pl) perm = Some r \<and>
    (\<forall>a. unat base \<le> unat a \<and> unat a < unat base + unat want \<longrightarrow> v8_covers r a) \<and>
    (\<forall>a. v8_covers r a \<longrightarrow> unat p \<le> unat a \<and> unat a < unat p + unat (alloc_bytes pl))"
proof -
  note pl = v8_plan_some[OF assms(1)]
  have b: "unat base = (unat p + 31) div 32 * 32"
    unfolding base_def pl(5) by (rule align_up_32) (use assms(2) pl(3,4) in linarith)
  have up: "x \<le> (x + 31) div 32 * 32" "(x + 31) div 32 * 32 \<le> x + 31" for x :: nat by simp_all
  have fit: "unat base + unat (region_bytes pl) \<le> unat p + unat (alloc_bytes pl)" using up(2)[of "unat p"] b pl(4) by simp
  have "0 < unat (region_bytes pl)" using up(1)[of "unat want"] pl(1,3) by linarith
  then have "mpu_v8_encode base (region_bytes pl) perm \<noteq> None"
    using b pl(3) fit assms(2) by (simp add: v8_encode_eq)
  then obtain r where r: "mpu_v8_encode base (region_bytes pl) perm = Some r" by blast
  have "unat want \<le> unat (region_bytes pl)" "unat p \<le> unat base" using up(1)[of "unat want"] up(1)[of "unat p"] pl(3) b by simp_all
  then show ?thesis using r v8_range[OF r] fit by (intro exI[of _ r]) auto
qed

theorem mpu_plan_encodes_witness:
  "\<exists>pl r. mpu_v8_plan_block 1000 = Some pl \<and> mpu_v8_encode (mpu_align_up 0x20001004 (plan_align pl)) (region_bytes pl) MPU_NO_ACCESS = Some r"
proof -
  let ?pl = "\<lparr>alloc_bytes = 1055, plan_align = 32, region_bytes = 1024\<rparr>"
  have "mpu_v8_plan_block 1000 = Some ?pl"
    by (simp add: mpu_v8_plan_block_def MPU_V8_GRAIN_def mpu_align_up_def)
  from mpu_plan_encodes[OF this, of "0x20001004" MPU_NO_ACCESS] this show ?thesis by auto
qed

section \<open>ARMv6-M\<close>

lemma log2_loop_top: "log2_loop v n < 32 \<Longrightarrow> drop_bit (log2_loop v n) v = 1"
proof (induction v n rule: log2_loop.induct)
  case (1 v n)
  then show ?case by (cases "drop_bit n v = 1 \<or> 32 \<le> n") (auto simp: log2_loop.simps[of v n])
qed

lemma unat_drop_bit_u32: "unat (drop_bit n x :: u32) = unat x div 2 ^ n"
  unfolding unsigned_drop_bit_eq by (simp add: drop_bit_eq_div take_bit_eq_mod)

lemma log2_exact_power:
  assumes "log2_exact v \<noteq> 32"
  shows "unat v = 2 ^ log2_exact v" "log2_exact v < 32"
proof -
  let ?n = "log2_loop v 0"
  have v: "v \<noteq> 0" "v AND (v - 1) = 0" "log2_exact v = ?n" using assms by (auto simp: log2_exact_def split: if_splits)
  have "log2_loop v n \<le> 32" if "n \<le> 32" for n
    using that by (induction v n rule: log2_loop.induct) (subst log2_loop.simps, auto)
  then show n: "log2_exact v < 32" using assms v(3) by (metis le_neq_implies_less zero_le)
  have d: "drop_bit ?n v = 1" using log2_loop_top n v(3) by simp
  have q: "unat v div 2 ^ ?n = 1" using d unat_drop_bit_u32[of ?n v] by simp
  show "unat v = 2 ^ log2_exact v"
  proof (rule ccontr)
    assume "unat v \<noteq> 2 ^ log2_exact v"
    moreover have "2 ^ ?n \<le> unat v" "unat v < 2 * 2 ^ ?n"
      using q div_le_mono less_2_cases_iff div_less_iff_less_mult[of "2 ^ ?n" "unat v" 2]
      by (auto simp: div_eq_0_iff not_less intro: ccontr)
    ultimately have "2 ^ ?n \<le> unat v - 1" "unat v - 1 < 2 * 2 ^ ?n" using v(3) by auto
    then have "(unat v - 1) div 2 ^ ?n = 1" by (intro div_nat_eqI) auto
    moreover have "unat (v - 1) = unat v - 1" using v(1) by (simp add: unat_u32_sub_small unat_gt_0 Suc_leI)
    ultimately have "unat (drop_bit ?n (v - 1)) = 1" by (simp add: unat_drop_bit_u32)
    then have "drop_bit ?n (v - 1) = 1" by (simp add: word_unat_eq_iff)
    then have "drop_bit ?n (v AND (v - 1)) = 1" using d by simp
    then show False using v(2) by simp
  qed
qed

lemma size_field:
  assumes "take_bit 6 y = 0" "unat (x :: u32) < 32" "k = 1"
  shows "drop_bit k (1 OR push_bit k x OR y) AND 31 = x"
proof -
  have y: "\<not> bit y n" if "n < 6" for n
    using assms(1) that by (metis bit_0_eq bit_take_bit_iff bot_apply bot_bool_def)
  have "take_bit 5 x = x" using assms(2) by (simp add: word_unat_eq_iff unat_take_bit_u32)
  then have x: "n < 5" if "bit x n" for n using that by (metis bit_take_bit_iff)
  have k: "0 < k" "k + n < 6 \<longleftrightarrow> n < 5" for n using assms(3) by auto
  show ?thesis unfolding thirty_one(1)
  proof (rule bit_word_eqI)
    fix n assume "n < LENGTH(32)"
    then have n: "n < 32" by simp
    have "\<not> bit (1 :: u32) (k + n)" using assms(3) by (simp add: bit_1_iff)
    moreover have "bit (push_bit k x) (k + n) = bit x n" if "n < 5"
    proof -
      have "k + n < 32" using that assms(3) by simp
      then show ?thesis by (simp add: bit_push_bit_iff)
    qed
    ultimately have "bit (1 OR push_bit k x OR y) (k + n) = bit x n" if "n < 5"
      using that y[of "k + n"] k(2)[of n] by (simp only: bit_or_iff) simp
    moreover have "bit (drop_bit k w AND mask 5) n \<longleftrightarrow> n < 5 \<and> bit w (k + n)" for w :: u32
      using n by (auto simp: bit_simps)
    ultimately show "bit (drop_bit k (1 OR push_bit k x OR y) AND mask 5) n = bit x n"
      using x[of n] by blast
  qed
qed

lemma take_bit_shifted: "6 \<le> k \<Longrightarrow> take_bit 6 (push_bit k x) = (0 :: u32)"
  unfolding take_bit_push_bit by simp

lemma v6_attrs_low: "take_bit 6 (V6_MEM_ATTRS OR push_bit 24 ap OR push_bit 28 xn) = 0"
proof -
  have a: "V6_MEM_ATTRS = push_bit 6 0x1800" by (simp add: V6_MEM_ATTRS_def)
  show ?thesis unfolding a take_bit_or by (subst take_bit_shifted, simp)+ simp
qed

lemma v6_encode_some:
  assumes "mpu_v6_encode base sz region perm = Some r"
  shows "region \<le> 7" "32 \<le> sz" "log2_exact sz \<noteq> 32" "base AND (sz - 1) = 0" "v6_rbar r = base OR 16 OR ucast region"
    "v6_rasr r = 1 OR push_bit 1 (of_nat (log2_exact sz) - 1) OR
       (V6_MEM_ATTRS OR push_bit 24 (fst (v6_perm_bits perm)) OR push_bit 28 (snd (v6_perm_bits perm)))"
proof -
  have "region \<le> 7 \<and> 32 \<le> sz \<and> log2_exact sz \<noteq> 32 \<and> base AND (sz - 1) = 0"
    using assms by (simp add: mpu_v6_encode_def MPU_V6_MIN_SIZE_def Let_def not_less split: if_splits)
  moreover from this have "r = \<lparr>v6_rbar = base OR 16 OR ucast region, v6_rasr = 1 OR push_bit 1 (of_nat (log2_exact sz) - 1) OR
       (V6_MEM_ATTRS OR push_bit 24 (fst (v6_perm_bits perm)) OR push_bit 28 (snd (v6_perm_bits perm)))\<rparr>"
    using assms by (cases perm) (simp_all add: mpu_v6_encode_def MPU_V6_MIN_SIZE_def Let_def not_less or.assoc split: if_splits)
  ultimately show "region \<le> 7" "32 \<le> sz" "log2_exact sz \<noteq> 32" "base AND (sz - 1) = 0" "v6_rbar r = base OR 16 OR ucast region"
    "v6_rasr r = 1 OR push_bit 1 (of_nat (log2_exact sz) - 1) OR
       (V6_MEM_ATTRS OR push_bit 24 (fst (v6_perm_bits perm)) OR push_bit 28 (snd (v6_perm_bits perm)))" by simp_all
qed

lemma v6_size_exact:
  assumes "mpu_v6_encode base sz region perm = Some r"
  shows "v6_size r = unat sz"
proof -
  note e = v6_encode_some[OF assms] and p = log2_exact_power[OF v6_encode_some(3)[OF assms]]
  have "1 \<le> log2_exact sz" using p(1) e(2) by (cases "log2_exact sz") (auto simp: word_le_nat_alt)
  then have u: "unat (of_nat (log2_exact sz) - 1 :: u32) = log2_exact sz - 1"
    using p(2) by (simp add: unat_u32_sub_small unat_of_nat_u32)
  have "drop_bit 1 (v6_rasr r) AND 31 = of_nat (log2_exact sz) - 1"
    unfolding e(6) by (rule size_field[OF v6_attrs_low _ refl]) (use u p(2) in simp)
  then show ?thesis using u p(1) \<open>1 \<le> log2_exact sz\<close> by (simp add: v6_size_def flip: power_Suc)
qed

text \<open>From 256 bytes on, the region lies where it was asked to.\<close>

theorem v6_region_exact:
  assumes "mpu_v6_encode base sz region perm = Some r" "256 \<le> unat sz"
  shows "v6_addr r = base \<and> v6_size r = unat sz"
proof
  note e = v6_encode_some[OF assms(1)] and p = log2_exact_power[OF v6_encode_some(3)[OF assms(1)]]
  let ?k = "log2_exact sz"
  have k: "8 \<le> ?k"
  proof (rule ccontr)
    assume "\<not> 8 \<le> ?k"
    then have "(2 :: nat) ^ ?k \<le> 2 ^ 7" by (intro power_increasing) simp_all
    then show False using p(1) assms(2) by simp
  qed
  have "of_nat (unat sz) = (2 ^ ?k :: u32)" unfolding p(1) by simp
  then have "sz = 2 ^ ?k" by simp
  then have "sz - 1 = mask ?k" by (simp add: mask_eq_exp_minus_1)
  then have "take_bit ?k base = 0" using e(4) by (simp add: take_bit_eq_mask)
  then have b: "8 \<le> n" if "bit base n" for n
    using that k by (metis bit_0_eq bit_take_bit_iff bot_apply bot_bool_def linorder_not_less order_less_le_trans)
  have m: "(0xFF :: u32) = mask 8" by (simp add: mask_eq_exp_minus_1)
  have "ucast region AND NOT (mask 8) = (0 :: u32)"
    by (rule bit_word_eqI) (auto simp: bit_simps dest: bit_imp_le_length)
  moreover have "(16 :: u32) AND NOT (mask 8) = 0" by (simp add: mask_eq_exp_minus_1)
  moreover have "base AND NOT (mask 8) = base"
    by (rule bit_word_eqI) (auto simp: bit_simps dest: b)
  ultimately show "v6_addr r = base" unfolding v6_addr_def e(5) m bit.conj_disj_distrib2 by (simp only: bit.disj_zero_right)
  show "v6_size r = unat sz" by (rule v6_size_exact[OF assms(1)])
qed

text \<open>
  Below that it does not: the 32-byte guard the encoder accepts has an address the register
  cannot hold.
\<close>

theorem v6_guard_misplaced:
  "\<exists>r. mpu_v6_encode 0x20000120 32 0 MPU_NO_ACCESS = Some r \<and> v6_addr r = 0x20000100 \<and> v6_size r = 32"
  by (simp add: mpu_v6_encode_def log2_exact_def log2_loop.simps MPU_V6_MIN_SIZE_def V6_MEM_ATTRS_def v6_addr_def v6_size_def)

end
