(* ===== verification/PkgSlot.thy ===== *)
theory PkgSlot
  imports Prelude
begin

text \<open>
  \<open>loader-spike/firmware/pkgslot.cpp\<close>: packages installed into slots of flash and run from there.
  The flash is behind two operations of the SDK, erase and program, parameters of the writer
  with a state of their own; a slot is read as memory, a function from offsets to bytes.  The
  structures the source copies into flash as memory images are written out little-endian with
  their padding-free layout; the recipe arrays and the application header, which it only
  copies, are lists of bytes.  The firmware's table of exported names is the parameter \<open>syms\<close>.
\<close>

section \<open>Model\<close>

definition PKGSLOT_ERASE :: u32 where "PKGSLOT_ERASE = 4096"
definition PKGSLOT_PROG :: u32 where "PKGSLOT_PROG = 256"
definition PKGSLOT_HEADER :: u32 where "PKGSLOT_HEADER = PKGSLOT_ERASE"
definition PKGSLOT_MAGIC :: u32 where "PKGSLOT_MAGIC = 0x534b5052"
definition PKGSLOT_FORMAT :: u32 where "PKGSLOT_FORMAT = 1"
definition PKGSLOT_META_OFF :: u32 where "PKGSLOT_META_OFF = PKGSLOT_PROG"
definition PKGSLOT_META_BYTES :: u32 where "PKGSLOT_META_BYTES = 512"
definition RPC_API_MAJOR :: u16 where "RPC_API_MAJOR = 1"
definition RPC_API_MINOR :: u16 where "RPC_API_MINOR = 24"

text \<open>The sizes of \<open>PicGotEntry\<close>, \<open>PicAbs32\<close> and \<open>RpcAppHeader\<close> in memory.\<close>

definition GOT_ENTRY :: u32 where "GOT_ENTRY = 8"
definition ABS_ENTRY :: u32 where "ABS_ENTRY = 12"
definition APP_HEADER :: nat where "APP_HEADER = 48"

record 'd slot_flash =
  sf_erase :: "u32 \<Rightarrow> u32 \<Rightarrow> 'd \<Rightarrow> bool \<times> 'd"
  sf_program :: "u32 \<Rightarrow> bytes \<Rightarrow> 'd \<Rightarrow> bool \<times> 'd"

datatype slot_status = PKGSLOT_OK | PKGSLOT_EMPTY | PKGSLOT_BAD_FORMAT | PKGSLOT_BAD_CRC | PKGSLOT_BAD_ABI |
  PKGSLOT_BAD_SIZE | PKGSLOT_BAD_FW

record manifest =
  m_header :: bytes
  m_api_major :: u16
  m_api_minor :: u16
  ro_size :: u32
  text_size :: u32
  rodata_off :: u32
  rodata_size :: u32
  veneer_off :: u32
  veneer_size :: u32
  entry_off :: u32
  got_bytes :: u32
  data_off :: u32
  data_size :: u32
  ram_size :: u32
  got_count :: u32
  abs_count :: u32
  m_got :: bytes
  m_abs :: bytes
  m_data_init :: bytes
  m_borrowed :: bool

record slot_meta =
  sm_header :: bytes
  sm_halves :: "u16 list"
  sm_words :: "u32 list"

record writer =
  slot_off :: u32
  slot_bytes :: u32
  w_cursor :: u32
  erased_to :: u32
  w_crc :: u32
  page_base :: u32
  page :: bytes
  failed :: bool

subsection \<open>Checksum\<close>

definition crc_bit :: "u32 \<Rightarrow> u32" where
  "crc_bit crc = drop_bit 1 crc XOR (0xEDB88320 AND (- (crc AND 1)))"

definition crc_byte :: "u32 \<Rightarrow> u8 \<Rightarrow> u32" where
  "crc_byte crc b = (crc_bit ^^ 8) (crc XOR ucast b)"

definition pkgslot_crc32 :: "u32 \<Rightarrow> bytes \<Rightarrow> u32" where
  "pkgslot_crc32 crc data = NOT (fold (\<lambda>b c. crc_byte c b) data (NOT crc))"

definition api_symbol_count :: "string list \<Rightarrow> u32" where
  "api_symbol_count syms = of_nat (length syms)"

definition api_abi_prefix_crc :: "string list \<Rightarrow> u32 \<Rightarrow> u32" where
  "api_abi_prefix_crc syms count =
     fold (\<lambda>n crc. pkgslot_crc32 crc (map of_char n @ [0])) (take (min (unat count) (length syms)) syms) 0"

subsection \<open>Routing\<close>

definition round_up :: "u32 \<Rightarrow> u32 \<Rightarrow> u32" where
  "round_up v a = (v + a - 1) AND NOT (a - 1)"

definition pkgslot_body_capacity :: "u32 \<Rightarrow> u32" where
  "pkgslot_body_capacity sz =
     (if sz \<le> PKGSLOT_HEADER then 0 else (sz - PKGSLOT_HEADER) AND NOT (PKGSLOT_PROG - 1))"

datatype pkg_route = PKG_ROUTE_COPY | PKG_ROUTE_SLOT | PKG_ROUTE_TOO_BIG

record route_in =
  r_pic :: bool
  r_svc :: bool
  r_slot_free :: bool
  r_slot_bytes :: u32
  r_need_bytes :: u32

definition pkg_route :: "route_in \<Rightarrow> pkg_route" where
  "pkg_route i =
     (if \<not> r_pic i \<or> \<not> r_svc i then PKG_ROUTE_COPY
      else if r_slot_bytes i = 0 \<or> \<not> r_slot_free i then PKG_ROUTE_COPY
      else if round_up (r_need_bytes i) PKGSLOT_PROG > pkgslot_body_capacity (r_slot_bytes i) then PKG_ROUTE_TOO_BIG
      else PKG_ROUTE_SLOT)"

subsection \<open>Writing\<close>

definition writer_init :: "u32 \<Rightarrow> u32 \<Rightarrow> writer" where
  "writer_init off sz = \<lparr>slot_off = off, slot_bytes = sz, w_cursor = 0, erased_to = 0, w_crc = 0, page_base = 0,
     page = [], failed = False\<rparr>"

definition pkgslot_begin :: "'d slot_flash \<Rightarrow> u32 \<Rightarrow> u32 \<Rightarrow> 'd \<Rightarrow> writer option \<times> 'd" where
  "pkgslot_begin fl off sz d =
     (if sz \<le> PKGSLOT_HEADER then (None, d)
      else if off mod PKGSLOT_ERASE \<noteq> 0 \<or> sz mod PKGSLOT_ERASE \<noteq> 0 then (None, d)
      else case sf_erase fl off PKGSLOT_HEADER d of
          (False, d) \<Rightarrow> (None, d)
        | (True, d) \<Rightarrow> (Some (writer_init off sz), d))"

definition erase_to :: "'d slot_flash \<Rightarrow> writer \<Rightarrow> u32 \<Rightarrow> 'd \<Rightarrow> bool \<times> writer \<times> 'd" where
  "erase_to fl w need d =
     (if need \<le> erased_to w then (True, w, d)
      else let want = round_up need PKGSLOT_ERASE in
        if PKGSLOT_HEADER + want > slot_bytes w then (False, w, d)
        else case sf_erase fl (slot_off w + PKGSLOT_HEADER + erased_to w) (want - erased_to w) d of
            (False, d) \<Rightarrow> (False, w, d)
          | (True, d) \<Rightarrow> (True, w\<lparr>erased_to := want\<rparr>, d))"

definition flush_page :: "'d slot_flash \<Rightarrow> writer \<Rightarrow> 'd \<Rightarrow> bool \<times> writer \<times> 'd" where
  "flush_page fl w d =
     (if page w = [] then (True, w, d)
      else let n = round_up (of_nat (length (page w))) PKGSLOT_PROG;
               pg = page w @ replicate (unat n - length (page w)) 0xFF
        in case erase_to fl w (page_base w + n) d of
            (False, w, d) \<Rightarrow> (False, w, d)
          | (True, w, d) \<Rightarrow> (case sf_program fl (slot_off w + PKGSLOT_HEADER + page_base w) pg d of
                (False, d) \<Rightarrow> (False, w, d)
              | (True, d) \<Rightarrow>
                  (True, w\<lparr>w_crc := pkgslot_crc32 (w_crc w) pg, page_base := page_base w + n, page := []\<rparr>, d)))"

text \<open>The page never stays full between two calls, so the loop always has room to go on.\<close>

function body_append :: "'d slot_flash \<Rightarrow> writer \<Rightarrow> bytes \<Rightarrow> 'd \<Rightarrow> bool \<times> writer \<times> 'd" where
  "body_append fl w data d =
     (let room = 256 - length (page w); n = min (length data) room in
      if data = [] \<or> room = 0 then (data = [], w, d)
      else let w = w\<lparr>page := page w @ take n data, w_cursor := w_cursor w + of_nat n\<rparr> in
        if length (page w) = 256
        then (case flush_page fl w d of
            (False, w, d) \<Rightarrow> (False, w, d)
          | (True, w, d) \<Rightarrow> body_append fl w (drop n data) d)
        else body_append fl w (drop n data) d)"
  by pat_completeness auto
termination
  by (relation "measure (\<lambda>(fl, w, data, d). length data)") auto

declare body_append.simps [simp del]

text \<open>\<open>body_pad_to\<close>'s loop counted by what is left of the gap; a successful append advances the cursor.\<close>

function pad_loop :: "'d slot_flash \<Rightarrow> writer \<Rightarrow> nat \<Rightarrow> 'd \<Rightarrow> bool \<times> writer \<times> 'd" where
  "pad_loop fl w gap d =
     (if gap = 0 then (True, w, d)
      else case body_append fl w (replicate (min gap 16) 0xFF) d of
          (False, w, d) \<Rightarrow> (False, w, d)
        | (True, w, d) \<Rightarrow> pad_loop fl w (gap - min gap 16) d)"
  by pat_completeness auto
termination
  by (relation "measure (\<lambda>(fl, w, gap, d). gap)") auto

declare pad_loop.simps [simp del]

definition body_pad_to :: "'d slot_flash \<Rightarrow> writer \<Rightarrow> u32 \<Rightarrow> 'd \<Rightarrow> bool \<times> writer \<times> 'd" where
  "body_pad_to fl w to d = pad_loop fl w (if w_cursor w < to then unat (to - w_cursor w) else 0) d"

definition w_fail :: "writer \<Rightarrow> writer" where "w_fail w = w\<lparr>failed := True\<rparr>"

text \<open>What the callers do with a step that may fail: mark the writer and stop, or go on.\<close>

definition andthen :: "bool \<times> writer \<times> 'd \<Rightarrow> (writer \<Rightarrow> 'd \<Rightarrow> bool \<times> writer \<times> 'd) \<Rightarrow> bool \<times> writer \<times> 'd" where
  "andthen r k = (case r of (ok, w, d) \<Rightarrow> if ok then k w d else (False, w_fail w, d))"

definition pkgslot_sink :: "'d slot_flash \<Rightarrow> writer \<Rightarrow> u32 \<Rightarrow> bytes \<Rightarrow> 'd \<Rightarrow> bool \<times> writer \<times> 'd" where
  "pkgslot_sink fl w off data d =
     (if failed w then (False, w, d)
      else if off \<noteq> w_cursor w then (False, w_fail w, d)
      else if PKGSLOT_HEADER + w_cursor w + of_nat (length data) > slot_bytes w then (False, w_fail w, d)
      else andthen (body_append fl w data d) (\<lambda>w d. (True, w, d)))"

subsection \<open>The records in the header sector\<close>

definition le16 :: "u16 \<Rightarrow> bytes" where "le16 v = [ucast v, ucast (drop_bit 8 v)]"

definition le32 :: "u32 \<Rightarrow> bytes" where
  "le32 v = [ucast v, ucast (drop_bit 8 v), ucast (drop_bit 16 v), ucast (drop_bit 24 v)]"

definition get16 :: "bytes \<Rightarrow> nat \<Rightarrow> u16" where
  "get16 b k = ucast (b ! k) OR push_bit 8 (ucast (b ! (k + 1)))"

definition get32 :: "bytes \<Rightarrow> nat \<Rightarrow> u32" where
  "get32 b k = ucast (b ! k) OR push_bit 8 (ucast (b ! (k + 1))) OR push_bit 16 (ucast (b ! (k + 2))) OR
     push_bit 24 (ucast (b ! (k + 3)))"

text \<open>
  \<open>PkgSlotMeta\<close>: the application header, four halfwords (\<open>api_major\<close>, \<open>api_minor\<close>, the two entry
  sizes) and twenty words in the order of the structure.
\<close>

definition meta_image :: "slot_meta \<Rightarrow> bytes" where
  "meta_image m = sm_header m @ concat (map le16 (sm_halves m)) @ concat (map le32 (sm_words m))"

definition meta_read :: "bytes \<Rightarrow> slot_meta" where
  "meta_read b = \<lparr>sm_header = take APP_HEADER b, sm_halves = map (\<lambda>i. get16 b (APP_HEADER + 2 * i)) [0..<4],
     sm_words = map (\<lambda>i. get32 b (APP_HEADER + 8 + 4 * i)) [0..<20]\<rparr>"

definition meta_of :: "string list \<Rightarrow> manifest \<Rightarrow> u32 \<Rightarrow> u32 \<Rightarrow> u32 \<Rightarrow> u32 \<Rightarrow> slot_meta" where
  "meta_of syms m got_at abs_at init_at body =
     \<lparr>sm_header = m_header m,
      sm_halves = [m_api_major m, m_api_minor m, ucast GOT_ENTRY, ucast ABS_ENTRY],
      sm_words = [ro_size m, text_size m, rodata_off m, rodata_size m, veneer_off m, veneer_size m, entry_off m,
        got_bytes m, data_off m, data_size m, ram_size m, got_count m, abs_count m,
        0, got_at, abs_at, init_at, body, api_symbol_count syms, api_abi_prefix_crc syms (api_symbol_count syms)]\<rparr>"

definition pad_ff :: "nat \<Rightarrow> bytes \<Rightarrow> bytes" where
  "pad_ff n b = b @ replicate (n - length b) 0xFF"

text \<open>\<open>PkgSlotCommit\<close>, eight words.\<close>

definition commit_image :: "u32 \<Rightarrow> u32 \<Rightarrow> u32 \<Rightarrow> bytes" where
  "commit_image body bcrc mcrc =
     concat (map le32 [PKGSLOT_MAGIC, PKGSLOT_FORMAT, body, bcrc, mcrc, 0, 0, 0])"

definition program_step :: "'d slot_flash \<Rightarrow> u32 \<Rightarrow> bytes \<Rightarrow> writer \<Rightarrow> 'd \<Rightarrow> bool \<times> writer \<times> 'd" where
  "program_step fl off data w d = (case sf_program fl off data d of (ok, d) \<Rightarrow> (ok, w, d))"

definition append_if :: "'d slot_flash \<Rightarrow> bool \<Rightarrow> bytes \<Rightarrow> writer \<Rightarrow> 'd \<Rightarrow> bool \<times> writer \<times> 'd" where
  "append_if fl c data w d = (if c then body_append fl w data d else (True, w, d))"

definition commit_headers :: "'d slot_flash \<Rightarrow> string list \<Rightarrow> manifest \<Rightarrow> u32 \<Rightarrow> u32 \<Rightarrow> u32 \<Rightarrow> writer \<Rightarrow> 'd \<Rightarrow>
    bool \<times> writer \<times> 'd" where
  "commit_headers fl syms m got_at abs_at init_at w d =
     (let body = page_base w;
          metabuf = pad_ff 512 (meta_image (meta_of syms m got_at abs_at init_at body));
          hdr = pad_ff 256 (commit_image body (w_crc w) (pkgslot_crc32 0 metabuf))
      in andthen (program_step fl (slot_off w + PKGSLOT_META_OFF) metabuf w d) (\<lambda>w d.
           andthen (program_step fl (slot_off w) hdr w d) (\<lambda>w d. (True, w, d))))"

definition pkgslot_commit :: "'d slot_flash \<Rightarrow> string list \<Rightarrow> writer \<Rightarrow> manifest \<Rightarrow> 'd \<Rightarrow> bool \<times> writer \<times> 'd" where
  "pkgslot_commit fl syms w m d =
     (if failed w then (False, w, d)
      else if w_cursor w \<noteq> ro_size m then (False, w_fail w, d)
      else let got_at = round_up (w_cursor w) 4 in
        andthen (body_pad_to fl w got_at d) (\<lambda>w d.
        andthen (append_if fl (got_count m \<noteq> 0) (m_got m) w d) (\<lambda>w d. let abs_at = round_up (w_cursor w) 4 in
        andthen (body_pad_to fl w abs_at d) (\<lambda>w d.
        andthen (append_if fl (abs_count m \<noteq> 0) (m_abs m) w d) (\<lambda>w d. let init_at = round_up (w_cursor w) 4 in
        andthen (body_pad_to fl w init_at d) (\<lambda>w d.
        andthen (append_if fl (data_size m \<noteq> 0) (m_data_init m) w d) (\<lambda>w d.
        andthen (flush_page fl w d) (\<lambda>w d.
          commit_headers fl syms m got_at abs_at init_at w d))))))))"

definition pkgslot_erase :: "'d slot_flash \<Rightarrow> u32 \<Rightarrow> 'd \<Rightarrow> bool \<times> 'd" where
  "pkgslot_erase fl off d = sf_erase fl off PKGSLOT_HEADER d"

subsection \<open>Reading\<close>

definition mem_bytes :: "(u32 \<Rightarrow> u8) \<Rightarrow> u32 \<Rightarrow> nat \<Rightarrow> bytes" where
  "mem_bytes mem off n = map (\<lambda>i. mem (off + of_nat i)) [0..<n]"

text \<open>The checks on the metadata once its checksum holds, in the order of the source.\<close>

definition meta_check :: "string list \<Rightarrow> u32 \<Rightarrow> slot_meta \<Rightarrow> slot_status" where
  "meta_check syms body meta =
     (let word = (\<lambda>i. sm_words meta ! i);
          ro = word 0; entry = word 6; gotb = word 7; doff = word 8; dsz = word 9; ram = word 10; gotn = word 11; absn = word 12;
          blob_at = word 13; got_at = word 14; abs_at = word 15; init_at = word 16; nsym = word 18; abicrc = word 19
      in if unat blob_at + unat ro > unat body then PKGSLOT_BAD_SIZE
         else if unat got_at + unat (gotn * GOT_ENTRY) > unat body then PKGSLOT_BAD_SIZE
         else if unat abs_at + unat (absn * ABS_ENTRY) > unat body then PKGSLOT_BAD_SIZE
         else if unat init_at + unat dsz > unat body then PKGSLOT_BAD_SIZE
         else if (got_at OR abs_at OR blob_at) AND 3 \<noteq> 0 then PKGSLOT_BAD_SIZE
         else if blob_at \<noteq> 0 then PKGSLOT_BAD_SIZE
         else if entry \<ge> ro then PKGSLOT_BAD_SIZE
         else if gotn * 4 > gotb then PKGSLOT_BAD_SIZE
         else if unat doff + unat dsz > unat ram then PKGSLOT_BAD_SIZE
         else if sm_halves meta ! 0 \<noteq> RPC_API_MAJOR \<or> sm_halves meta ! 1 > RPC_API_MINOR then PKGSLOT_BAD_ABI
         else if nsym \<noteq> 0xFFFFFFFF \<and> nsym > api_symbol_count syms then PKGSLOT_BAD_FW
         else if nsym \<noteq> 0xFFFFFFFF \<and> api_abi_prefix_crc syms nsym \<noteq> abicrc then PKGSLOT_BAD_FW
         else PKGSLOT_OK)"

definition manifest_at :: "(u32 \<Rightarrow> u8) \<Rightarrow> slot_meta \<Rightarrow> manifest" where
  "manifest_at mem meta =
     (let word = (\<lambda>i. sm_words meta ! i) in
      \<lparr>m_header = sm_header meta, m_api_major = sm_halves meta ! 0, m_api_minor = sm_halves meta ! 1,
       ro_size = word 0, text_size = word 1, rodata_off = word 2, rodata_size = word 3, veneer_off = word 4,
       veneer_size = word 5, entry_off = word 6, got_bytes = word 7, data_off = word 8, data_size = word 9,
       ram_size = word 10, got_count = word 11, abs_count = word 12,
       m_got = mem_bytes mem (PKGSLOT_HEADER + word 14) (unat (word 11 * GOT_ENTRY)),
       m_abs = mem_bytes mem (PKGSLOT_HEADER + word 15) (unat (word 12 * ABS_ENTRY)),
       m_data_init = mem_bytes mem (PKGSLOT_HEADER + word 16) (unat (word 9)), m_borrowed = True\<rparr>)"

definition pkgslot_open :: "string list \<Rightarrow> (u32 \<Rightarrow> u8) \<Rightarrow> u32 \<Rightarrow> slot_status \<times> manifest option" where
  "pkgslot_open syms mem sz =
     (if sz \<le> PKGSLOT_HEADER then (PKGSLOT_BAD_SIZE, None)
      else let c = mem_bytes mem 0 32; mbuf = mem_bytes mem PKGSLOT_META_OFF 512; meta = meta_read mbuf;
               body = sm_words meta ! 17
        in if get32 c 0 \<noteq> PKGSLOT_MAGIC then (PKGSLOT_EMPTY, None)
           else if get32 c 4 \<noteq> PKGSLOT_FORMAT then (PKGSLOT_BAD_FORMAT, None)
           else if pkgslot_crc32 0 mbuf \<noteq> get32 c 16 then (PKGSLOT_BAD_CRC, None)
           else if get32 c 8 \<noteq> body then (PKGSLOT_BAD_CRC, None)
           else if 4096 + unat body > unat sz then (PKGSLOT_BAD_SIZE, None)
           else if sm_halves meta ! 2 \<noteq> ucast GOT_ENTRY \<or> sm_halves meta ! 3 \<noteq> ucast ABS_ENTRY then (PKGSLOT_BAD_FORMAT, None)
           else if pkgslot_crc32 0 (mem_bytes mem PKGSLOT_HEADER (unat body)) \<noteq> get32 c 12 then (PKGSLOT_BAD_CRC, None)
           else case meta_check syms body meta of
               PKGSLOT_OK \<Rightarrow> (PKGSLOT_OK, Some (manifest_at mem meta))
             | st \<Rightarrow> (st, None))"

definition pkgslot_blob :: "(u32 \<Rightarrow> u8) \<Rightarrow> u32 \<Rightarrow> bytes" where
  "pkgslot_blob mem n = mem_bytes mem PKGSLOT_HEADER (unat n)"

section \<open>The writer: what it does to the flash, and when\<close>

text \<open>
  Every operation on the device is recorded in front of an arbitrary device, which may refuse any
  of them.
\<close>

datatype flash_op = Erase u32 u32 | Program u32 bytes

definition logged :: "'d slot_flash \<Rightarrow> ('d \<times> flash_op list) slot_flash" where
  "logged fl = \<lparr>sf_erase = (\<lambda>off n (d, l). case sf_erase fl off n d of (ok, d) \<Rightarrow> (ok, d, l @ [Erase off n])),
     sf_program = (\<lambda>off b (d, l). case sf_program fl off b d of (ok, d) \<Rightarrow> (ok, d, l @ [Program off b]))\<rparr>"

fun op_start :: "flash_op \<Rightarrow> u32" where
  "op_start (Erase a n) = a"
| "op_start (Program a b) = a"

fun op_length :: "flash_op \<Rightarrow> nat" where
  "op_length (Erase a n) = unat n"
| "op_length (Program a b) = length b"

definition op_within :: "nat \<Rightarrow> nat \<Rightarrow> flash_op \<Rightarrow> bool" where
  "op_within lo hi p \<longleftrightarrow> lo \<le> unat (op_start p) \<and> unat (op_start p) + op_length p \<le> hi"

definition op_covers :: "flash_op \<Rightarrow> u32 \<Rightarrow> bool" where
  "op_covers p a \<longleftrightarrow> unat (a - op_start p) < op_length p"

fun op_effect :: "flash_op \<Rightarrow> (u32 \<Rightarrow> u8) \<Rightarrow> u32 \<Rightarrow> u8" where
  "op_effect (Erase a n) m x = (if op_covers (Erase a n) x then 0xFF else m x)"
| "op_effect (Program a b) m x = (if op_covers (Program a b) x then m x AND b ! unat (x - a) else m x)"

text \<open>
  What the flash may hold after some operations of which any may have been cut short: an
  operation leaves arbitrary bytes in its own range and nothing anywhere else.
\<close>

inductive torn_run :: "flash_op list \<Rightarrow> (u32 \<Rightarrow> u8) \<Rightarrow> (u32 \<Rightarrow> u8) \<Rightarrow> bool" where
  torn_nil: "torn_run [] m m"
| torn_op: "(\<And>a. \<not> op_covers p a \<Longrightarrow> m1 a = m a) \<Longrightarrow> torn_run ps m1 m2 \<Longrightarrow> torn_run (p # ps) m m2"

definition is_commit :: "u32 \<Rightarrow> flash_op \<Rightarrow> bool" where
  "is_commit off p \<longleftrightarrow> (case p of Erase a n \<Rightarrow> False | Program a b \<Rightarrow> a = off)"

definition slot_view :: "(u32 \<Rightarrow> u8) \<Rightarrow> u32 \<Rightarrow> u32 \<Rightarrow> u8" where
  "slot_view mem off i = mem (off + i)"

fun run_sinks :: "'d slot_flash \<Rightarrow> (u32 \<times> bytes) list \<Rightarrow> writer \<Rightarrow> 'd \<Rightarrow> bool \<times> writer \<times> 'd" where
  "run_sinks fl [] w d = (True, w, d)"
| "run_sinks fl ((off, data) # cs) w d = (case pkgslot_sink fl w off data d of
     (ok, w, d) \<Rightarrow> (case run_sinks fl cs w d of (ok', w, d) \<Rightarrow> (ok \<and> ok', w, d)))"

text \<open>A whole installation: open the slot, stream the image into it, commit.\<close>

definition pkg_install :: "'d slot_flash \<Rightarrow> string list \<Rightarrow> u32 \<Rightarrow> u32 \<Rightarrow> (u32 \<times> bytes) list \<Rightarrow> manifest \<Rightarrow> 'd \<Rightarrow> bool \<times> 'd" where
  "pkg_install fl syms off sz cs m d = (case pkgslot_begin fl off sz d of
     (None, d) \<Rightarrow> (False, d)
   | (Some w, d) \<Rightarrow> (case run_sinks fl cs w d of (ok, w, d) \<Rightarrow>
       (case pkgslot_commit fl syms w m d of (ok', w, d) \<Rightarrow> (ok \<and> ok', d))))"

subsection \<open>Bounds of the writer\<close>

definition slot_fits :: "u32 \<Rightarrow> u32 \<Rightarrow> bool" where
  "slot_fits off sz \<longleftrightarrow> unat off + unat sz < 2 ^ 31"

definition writer_ok :: "u32 \<Rightarrow> u32 \<Rightarrow> writer \<Rightarrow> bool" where
  "writer_ok off sz w \<longleftrightarrow> slot_fits off sz \<and> slot_off w = off \<and> slot_bytes w = sz \<and>
     unat (page_base w) mod 256 = 0 \<and> unat (page_base w) \<le> unat (erased_to w) \<and>
     unat (erased_to w) mod 4096 = 0 \<and> 4096 + unat (erased_to w) \<le> unat sz \<and> length (page w) \<le> 256"

definition body_trace :: "u32 \<Rightarrow> u32 \<Rightarrow> flash_op list \<Rightarrow> bool" where
  "body_trace off sz ps \<longleftrightarrow> list_all (op_within (unat off + 4096) (unat off + unat sz)) ps"

lemma round_up_nat:
  assumes "unat v + 2 ^ k \<le> 4294967296" "unat (2 ^ k :: u32) = 2 ^ k"
  shows "unat (round_up v (2 ^ k)) = (unat v + 2 ^ k - 1) div 2 ^ k * 2 ^ k"
proof -
  have n: "v + 2 ^ k - 1 = v + (2 ^ k - 1)" by simp
  have "0 < unat (2 ^ k :: u32)" unfolding assms by simp
  then have "unat (2 ^ k - 1 :: u32) = 2 ^ k - 1" by (subst unat_u32_sub_small) (simp_all add: assms)
  then have u: "unat (v + 2 ^ k - 1) = unat v + 2 ^ k - 1"
    unfolding n using assms by (subst unat_u32_add_small) simp_all
  have "(2 :: u32) ^ k - 1 = mask k" by (simp add: mask_eq_exp_minus_1)
  then show ?thesis unfolding round_up_def by (simp only: unat_and_not_mask u)
qed

lemma units: "PKGSLOT_PROG = 2 ^ 8" "PKGSLOT_ERASE = 2 ^ 12"
  by (simp_all add: PKGSLOT_PROG_def PKGSLOT_ERASE_def)

lemma header_bytes: "unat PKGSLOT_HEADER = 4096"
  by (simp add: PKGSLOT_HEADER_def PKGSLOT_ERASE_def)

lemma round_up_page: "0 < n \<Longrightarrow> n \<le> 256 \<Longrightarrow> round_up (of_nat n) PKGSLOT_PROG = 256"
proof -
  assume n: "0 < n" "n \<le> 256"
  then have "unat (round_up (of_nat n) PKGSLOT_PROG) = (n + 255) div 256 * 256"
    unfolding units by (subst round_up_nat) (simp_all add: unat_of_nat_u32)
  also have "(n + 255) div 256 = 1" using n by simp
  finally show ?thesis by (intro word_unat_eq_iff[THEN iffD2]) simp
qed

lemma round_up_sector:
  assumes "unat v \<le> 4294963200"
  shows "unat (round_up v PKGSLOT_ERASE) = (unat v + 4095) div 4096 * 4096"
  using assms unfolding units by (subst round_up_nat) simp_all

text \<open>One step of the loop of \<open>body_append\<close>, and the rule that carries an invariant through it.\<close>

lemma body_append_step:
  assumes "data \<noteq> []" "length (page w) < 256"
  shows "body_append fl w data d = (let n = min (length data) (256 - length (page w));
      w = w\<lparr>page := page w @ take n data, w_cursor := w_cursor w + of_nat n\<rparr> in
      if length (page w) = 256
      then (case flush_page fl w d of
          (False, w, d) \<Rightarrow> (False, w, d)
        | (True, w, d) \<Rightarrow> body_append fl w (drop n data) d)
      else body_append fl w (drop n data) d)"
  using assms by (subst body_append.simps) (auto simp: Let_def)

lemma body_append_nil [simp]: "body_append fl w [] d = (True, w, d)"
  by (subst body_append.simps) simp

subsection \<open>Every operation stays in the slot\<close>

text \<open>What a step of the writer leaves: its bounds, room in the page if it succeeded, operations in the body only.\<close>

definition keeps_bounds :: "u32 \<Rightarrow> u32 \<Rightarrow> flash_op list \<Rightarrow> bool \<times> writer \<times> 'd \<times> flash_op list \<Rightarrow> bool" where
  "keeps_bounds off sz l r \<longleftrightarrow> (case r of (ok, w, d, l') \<Rightarrow> writer_ok off sz w \<and>
     (ok \<longrightarrow> length (page w) < 256) \<and> (\<exists>ps. l' = l @ ps \<and> body_trace off sz ps))"

lemma keeps_boundsI:
  "writer_ok off sz w \<Longrightarrow> (ok \<Longrightarrow> length (page w) < 256) \<Longrightarrow> keeps_bounds off sz l (ok, w, d, l)"
  by (simp add: keeps_bounds_def body_trace_def)

lemma keeps_bounds_trans:
  assumes "keeps_bounds off sz (l @ ps) r" "body_trace off sz ps"
  shows "keeps_bounds off sz l r"
  using assms by (auto simp: keeps_bounds_def body_trace_def)

lemma page_at_frontier:
  fixes b e :: nat
  assumes "b mod 256 = 0" "b \<le> e" "e mod 4096 = 0" "e < b + 256"
  shows "b = e" "(b + 256 + 4095) div 4096 * 4096 = e + 4096"
proof -
  obtain q where q: "e = 4096 * q" using assms(3) by (auto simp: mod_eq_0_iff_dvd elim: dvdE)
  obtain p where p: "b = 256 * p" using assms(1) by (auto simp: mod_eq_0_iff_dvd elim: dvdE)
  show be: "b = e" using assms(2,4) unfolding p q by simp
  have "(b + 256 + 4095) div 4096 = q + 1" unfolding be q by simp
  then show "(b + 256 + 4095) div 4096 * 4096 = e + 4096" unfolding q by simp
qed

lemma writer_okD:
  assumes "writer_ok off sz w"
  shows "unat (page_base w) mod 256 = 0" "unat (page_base w) \<le> unat (erased_to w)" "unat (erased_to w) mod 4096 = 0"
    "4096 + unat (erased_to w) \<le> unat sz" "unat off + unat sz < 2147483648" "slot_off w = off" "slot_bytes w = sz"
    "length (page w) \<le> 256"
  using assms by (simp_all add: writer_ok_def slot_fits_def)

text \<open>The erase is a sector at a time: a page is only ever one page past what is erased.\<close>

lemma erase_to_eq:
  assumes w: "writer_ok off sz w" and need: "unat need = unat (page_base w) + 256"
  shows "erase_to fl w need d =
    (if need \<le> erased_to w then (True, w, d)
     else if unat (erased_to w) + 8192 \<le> unat sz
     then (case sf_erase fl (off + PKGSLOT_HEADER + erased_to w) 4096 d of
         (ok, d) \<Rightarrow> (ok, if ok then w\<lparr>erased_to := erased_to w + 4096\<rparr> else w, d))
     else (False, w, d))" (is ?eq)
    and "\<not> need \<le> erased_to w \<Longrightarrow> page_base w = erased_to w"
proof -
  let ?want = "round_up need PKGSLOT_ERASE" and ?e = "unat (erased_to w)"
  note w' = writer_okD[OF w]
  have g: ?eq "page_base w = erased_to w" if "\<not> need \<le> erased_to w"
  proof -
    have lt: "?e < unat (page_base w) + 256" using that need by (simp add: u32_le_iff)
    note fr = page_at_frontier[OF w'(1-3) lt]
    show "page_base w = erased_to w" using fr(1) by (simp add: word_unat_eq_iff)
    have want: "unat ?want = ?e + 4096"
    proof (subst round_up_sector)
      show "unat need \<le> 4294963200" using w' unfolding need by linarith
      show "(unat need + 4095) div 4096 * 4096 = ?e + 4096" unfolding need by (rule fr(2))
    qed
    have "unat (erased_to w + 4096) = ?e + 4096" using w' by (subst unat_u32_add_small) simp_all
    then have we: "?want = erased_to w + 4096" using want by (simp add: word_unat_eq_iff)
    have "unat (PKGSLOT_HEADER + ?want) = ?e + 8192"
      using w' want header_bytes by (subst unat_u32_add_small) simp_all
    then have "PKGSLOT_HEADER + (erased_to w + 4096) > sz \<longleftrightarrow> \<not> ?e + 8192 \<le> unat sz"
      unfolding we by (simp add: u32_less_iff not_le)
    then show ?eq using that w'(6,7) by (simp add: erase_to_def Let_def we split: prod.splits bool.splits)
  qed
  then show "\<not> need \<le> erased_to w \<Longrightarrow> page_base w = erased_to w" by blast
  show ?eq using g(1) by (cases "need \<le> erased_to w") (simp_all add: erase_to_def)
qed

lemma erase_to_bounds:
  assumes w: "writer_ok off sz w" and need: "unat need = unat (page_base w) + 256"
    and r: "erase_to (logged fl) w need (d, l) = (ok, w', d', l')"
  shows "writer_ok off sz w' \<and> page w' = page w \<and> page_base w' = page_base w \<and> (ok \<longrightarrow> need \<le> erased_to w') \<and>
    (\<exists>ps. l' = l @ ps \<and> body_trace off sz ps)"
proof -
  note w' = writer_okD[OF w]
  let ?e = "unat (erased_to w)" and ?p = "Erase (off + PKGSLOT_HEADER + erased_to w) 4096"
  have sector: "op_within (unat off + 4096) (unat off + unat sz) ?p" "writer_ok off sz (w\<lparr>erased_to := erased_to w + 4096\<rparr>)"
    "need \<le> erased_to w + 4096" if "\<not> need \<le> erased_to w" "?e + 8192 \<le> unat sz"
  proof -
    have a: "unat (off + PKGSLOT_HEADER + erased_to w) = unat off + 4096 + ?e"
      using w' header_bytes by (simp add: unat_u32_add_small)
    show "op_within (unat off + 4096) (unat off + unat sz) ?p" using that by (simp add: op_within_def a)
    have e: "unat (erased_to w + 4096) = ?e + 4096" using w' by (subst unat_u32_add_small) simp_all
    then show "writer_ok off sz (w\<lparr>erased_to := erased_to w + 4096\<rparr>)" using w that by (simp add: writer_ok_def)
    show "need \<le> erased_to w + 4096" using w' by (simp add: u32_le_iff e need)
  qed
  then show ?thesis using r w unfolding erase_to_eq(1)[OF w need]
    by (auto simp: body_trace_def logged_def split: if_splits prod.splits)
qed

lemma flush_page_eq:
  assumes "writer_ok off sz w" "page w \<noteq> []"
  shows "flush_page fl w d = (case erase_to fl w (page_base w + 256) d of
      (False, w, d) \<Rightarrow> (False, w, d)
    | (True, w', d) \<Rightarrow> (let pg = page w @ replicate (256 - length (page w)) 0xFF in
        case sf_program fl (off + PKGSLOT_HEADER + page_base w) pg d of
          (False, d) \<Rightarrow> (False, w', d)
        | (True, d) \<Rightarrow> (True, w'\<lparr>w_crc := pkgslot_crc32 (w_crc w) pg, page_base := page_base w + 256, page := []\<rparr>, d)))"
    "unat (page_base w + 256) = unat (page_base w) + 256"
proof -
  note w' = writer_okD[OF assms(1)]
  have n: "round_up (of_nat (length (page w))) PKGSLOT_PROG = 256"
    using assms(2) w'(8) by (intro round_up_page) simp_all
  obtain ok1 w1 d1 where e: "erase_to fl w (page_base w + 256) d = (ok1, w1, d1)" by (metis prod_cases3)
  have same: "slot_off w1 = off" "w_crc w1 = w_crc w" "page_base w1 = page_base w"
    using e w'(6) by (auto simp: erase_to_def Let_def split: if_splits prod.splits bool.splits)
  show "flush_page fl w d = (case erase_to fl w (page_base w + 256) d of
      (False, w, d) \<Rightarrow> (False, w, d)
    | (True, w', d) \<Rightarrow> (let pg = page w @ replicate (256 - length (page w)) 0xFF in
        case sf_program fl (off + PKGSLOT_HEADER + page_base w) pg d of
          (False, d) \<Rightarrow> (False, w', d)
        | (True, d) \<Rightarrow> (True, w'\<lparr>w_crc := pkgslot_crc32 (w_crc w) pg, page_base := page_base w + 256, page := []\<rparr>, d)))"
    unfolding flush_page_def n Let_def e using assms(2) by (cases ok1) (simp_all add: same split: prod.split bool.split)
  show "unat (page_base w + 256) = unat (page_base w) + 256"
    using w' by (subst unat_u32_add_small) simp_all
qed

lemma flush_page_bounds:
  assumes w: "writer_ok off sz w" and r: "flush_page (logged fl) w (d, l) = r"
  shows "keeps_bounds off sz l r \<and> (fst r \<longrightarrow> page (fst (snd r)) = [])"
proof (cases "page w = []")
  case True
  then show ?thesis using r w by (auto simp: flush_page_def keeps_bounds_def body_trace_def)
next
  case False
  note w' = writer_okD[OF w] and fl = flush_page_eq[OF w False]
  let ?pg = "page w @ replicate (256 - length (page w)) 0xFF"
  obtain ok1 w1 d1 l1 where e: "erase_to (logged fl) w (page_base w + 256) (d, l) = (ok1, w1, d1, l1)"
    by (metis prod_cases4)
  obtain ps where b: "writer_ok off sz w1" "page w1 = page w" "page_base w1 = page_base w"
    "ok1 \<Longrightarrow> page_base w + 256 \<le> erased_to w1" "l1 = l @ ps" "body_trace off sz ps"
    using erase_to_bounds[OF w fl(2) e] by blast
  show ?thesis
  proof (cases ok1)
    case False
    then show ?thesis using r e b by (auto simp: fl(1) keeps_bounds_def)
  next
    case True
    have le: "unat (page_base w) + 256 \<le> unat (erased_to w1)" using b(4)[OF True] fl(2) by (simp add: u32_le_iff)
    have a: "unat (off + PKGSLOT_HEADER + page_base w) = unat off + 4096 + unat (page_base w)"
      using w' header_bytes by (simp add: unat_u32_add_small)
    have "op_within (unat off + 4096) (unat off + unat sz) (Program (off + PKGSLOT_HEADER + page_base w) ?pg)"
      using le writer_okD(4)[OF b(1)] w' by (simp add: op_within_def a)
    moreover have "writer_ok off sz (w1\<lparr>w_crc := c, page_base := page_base w + 256, page := []\<rparr>)" for c
      using b(1) le w' by (simp add: writer_ok_def fl(2))
    ultimately show ?thesis using r e b True
      by (auto simp: fl(1) Let_def keeps_bounds_def body_trace_def logged_def split: prod.splits bool.splits)
  qed
qed

lemma page_append_ok:
  "writer_ok off sz w \<Longrightarrow> length (page w @ xs) \<le> 256 \<Longrightarrow> writer_ok off sz (w\<lparr>page := page w @ xs, w_cursor := c\<rparr>)"
  by (simp add: writer_ok_def)

lemma body_append_bounds:
  "writer_ok off sz w \<Longrightarrow> length (page w) < 256 \<Longrightarrow> keeps_bounds off sz (snd d) (body_append (logged fl) w data d)"
proof (induction "length data" arbitrary: w data d rule: less_induct)
  case less
  show ?case
  proof (cases "data = []")
    case True
    then show ?thesis using less.prems by (cases d) (simp add: keeps_boundsI)
  next
    case False
    define n where "n = min (length data) (256 - length (page w))"
    define w1 where "w1 = w\<lparr>page := page w @ take n data, w_cursor := w_cursor w + of_nat n\<rparr>"
    have dn: "length (drop n data) < length data" using False less.prems(2) by (simp add: n_def)
    have w1: "writer_ok off sz w1" "length (page w1) \<le> 256"
      unfolding w1_def using less.prems by (auto intro!: page_append_ok simp: n_def)
    note step = body_append_step[OF False less.prems(2), of "logged fl" d, folded n_def, unfolded Let_def, folded w1_def]
    show ?thesis
    proof (cases "length (page w1) = 256")
      case False
      then have "length (page w1) < 256" using w1 by simp
      then show ?thesis using False step less.hyps[OF dn w1(1)] by simp
    next
      case True
      obtain ok w2 d2 l2 where f: "flush_page (logged fl) w1 (fst d, snd d) = (ok, w2, d2, l2)" by (metis prod_cases4)
      note fb = flush_page_bounds[OF w1(1) f]
      then obtain ps where ps: "l2 = snd d @ ps" "body_trace off sz ps" "writer_ok off sz w2"
        by (auto simp: keeps_bounds_def)
      show ?thesis
      proof (cases ok)
        case False
        then show ?thesis using True step f fb by simp
      next
        case ok: True
        have "length (page w2) < 256" using fb ok by simp
        from less.hyps[OF dn ps(3) this, of "(d2, l2)"] show ?thesis
          using True step f ok ps by (simp add: keeps_bounds_trans)
      qed
    qed
  qed
qed

lemma keeps_bounds_andthen:
  assumes r: "keeps_bounds off sz l r"
    and k: "\<And>w d l'. writer_ok off sz w \<Longrightarrow> length (page w) < 256 \<Longrightarrow> keeps_bounds off sz l' (k w (d, l'))"
  shows "keeps_bounds off sz l (andthen r k)"
proof -
  obtain ok w d l' where e: "r = (ok, w, d, l')" by (metis prod_cases4)
  obtain ps where ps: "l' = l @ ps" "body_trace off sz ps" and w: "writer_ok off sz w" "ok \<Longrightarrow> length (page w) < 256"
    using r by (auto simp: keeps_bounds_def e)
  show ?thesis
  proof (cases ok)
    case True
    then have "keeps_bounds off sz (l @ ps) (k w (d, l'))" using k[OF w(1) w(2)] ps by simp
    then show ?thesis using True ps(2) by (auto simp: andthen_def e intro: keeps_bounds_trans)
  next
    case False
    then show ?thesis using w(1) ps by (auto simp: andthen_def e keeps_bounds_def w_fail_def writer_ok_def)
  qed
qed

lemma pad_loop_bounds:
  "writer_ok off sz w \<Longrightarrow> length (page w) < 256 \<Longrightarrow> keeps_bounds off sz (snd d) (pad_loop (logged fl) w gap d)"
proof (induction gap arbitrary: w d rule: less_induct)
  case (less gap)
  show ?case
  proof (cases "gap = 0")
    case True
    then show ?thesis using less.prems by (subst pad_loop.simps) (cases d, simp add: keeps_boundsI)
  next
    case False
    obtain ok w1 d1 l1 where b: "body_append (logged fl) w (replicate (min gap 16) 0xFF) d = (ok, w1, d1, l1)"
      by (metis prod_cases4)
    note kb = body_append_bounds[OF less.prems, of d fl "replicate (min gap 16) 0xFF", unfolded b]
    show ?thesis
    proof (cases ok)
      case False
      then show ?thesis using kb b \<open>gap \<noteq> 0\<close> by (subst pad_loop.simps) simp
    next
      case True
      with kb obtain ps where "l1 = snd d @ ps" "body_trace off sz ps" "writer_ok off sz w1" "length (page w1) < 256"
        by (auto simp: keeps_bounds_def)
      moreover from this have "keeps_bounds off sz l1 (pad_loop (logged fl) w1 (gap - min gap 16) (d1, l1))"
        using less.IH[of "gap - min gap 16" w1 "(d1, l1)"] False by simp
      ultimately show ?thesis using True b False by (subst pad_loop.simps) (simp add: keeps_bounds_trans)
    qed
  qed
qed

lemma body_step_bounds:
  assumes "writer_ok off sz w" "length (page w) < 256"
  shows "keeps_bounds off sz l (body_pad_to (logged fl) w to (d, l))"
    "keeps_bounds off sz l (append_if (logged fl) c data w (d, l))"
    "keeps_bounds off sz l (flush_page (logged fl) w (d, l))"
    "keeps_bounds off sz l (body_append (logged fl) w data (d, l))"
  using pad_loop_bounds[OF assms, of "(d, l)"] body_append_bounds[OF assms, of "(d, l)"] assms
    flush_page_bounds[OF assms(1) refl, where fl = fl and d = d and l = l]
  by (auto simp: body_pad_to_def append_if_def intro: keeps_boundsI)

definition sink_bounds :: "u32 \<Rightarrow> u32 \<Rightarrow> flash_op list \<Rightarrow> bool \<times> writer \<times> 'd \<times> flash_op list \<Rightarrow> bool" where
  "sink_bounds off sz l r \<longleftrightarrow> (case r of (ok, w, d, l') \<Rightarrow> writer_ok off sz w \<and>
     (length (page w) < 256 \<or> failed w) \<and> (\<exists>ps. l' = l @ ps \<and> body_trace off sz ps))"

lemma sink_bounds_andthen: "keeps_bounds off sz l r \<Longrightarrow> sink_bounds off sz l (andthen r (\<lambda>w d. (True, w, d)))"
  by (auto simp: keeps_bounds_def sink_bounds_def andthen_def w_fail_def writer_ok_def split: prod.splits)

lemma sink_bounds_fail: "writer_ok off sz w \<Longrightarrow> sink_bounds off sz l (False, w_fail w, d, l)"
  by (simp add: sink_bounds_def w_fail_def writer_ok_def body_trace_def)

lemma pkgslot_sink_bounds:
  assumes "writer_ok off sz w" "length (page w) < 256 \<or> failed w"
  shows "sink_bounds off sz l (pkgslot_sink (logged fl) w at data (d, l))"
proof -
  have "sink_bounds off sz l (andthen (body_append (logged fl) w data (d, l)) (\<lambda>w d. (True, w, d)))"
    if "\<not> failed w" using assms that by (intro sink_bounds_andthen body_step_bounds(4)) auto
  moreover have "sink_bounds off sz l (False, w, d, l)" if "failed w"
    using that assms by (simp add: sink_bounds_def body_trace_def)
  ultimately show ?thesis by (auto simp: pkgslot_sink_def intro: sink_bounds_fail assms(1))
qed

lemma run_sinks_bounds:
  assumes "writer_ok off sz w" "length (page w) < 256 \<or> failed w" "run_sinks (logged fl) cs w (d, l) = (ok, w', d', l')"
  shows "writer_ok off sz w' \<and> (length (page w') < 256 \<or> failed w') \<and> (\<exists>ps. l' = l @ ps \<and> body_trace off sz ps)"
  using assms
proof (induction cs arbitrary: w d l ok)
  case Nil
  then show ?case by (auto simp: body_trace_def)
next
  case (Cons c cs)
  obtain at data where c: "c = (at, data)" by (cases c)
  obtain ok1 w1 d1 l1 where s: "pkgslot_sink (logged fl) w at data (d, l) = (ok1, w1, d1, l1)" by (metis prod_cases4)
  obtain ps where ps: "writer_ok off sz w1" "length (page w1) < 256 \<or> failed w1" "l1 = l @ ps" "body_trace off sz ps"
    using pkgslot_sink_bounds[OF Cons.prems(1,2), where l = l and fl = fl and d = d and at = at and data = data]
    unfolding s by (auto simp: sink_bounds_def)
  obtain ok2 where "run_sinks (logged fl) cs w1 (d1, l1) = (ok2, w', d', l')"
    using Cons.prems(3) by (auto simp: c s split: prod.splits)
  from Cons.IH[OF ps(1,2) this] show ?case using ps(3,4) by (auto simp: body_trace_def)
qed

text \<open>What the commit adds: operations in the body, then the metadata, then the commit record, as far as it got.\<close>

definition commit_tail :: "u32 \<Rightarrow> flash_op list \<Rightarrow> bool" where
  "commit_tail off hs \<longleftrightarrow> hs = [] \<or> (\<exists>b. length b = 512 \<and> (hs = [Program (off + PKGSLOT_META_OFF) b] \<or>
     (\<exists>h. length h = 256 \<and> hs = [Program (off + PKGSLOT_META_OFF) b, Program off h])))"

definition commits_last :: "u32 \<Rightarrow> u32 \<Rightarrow> flash_op list \<Rightarrow> bool \<times> writer \<times> 'd \<times> flash_op list \<Rightarrow> bool" where
  "commits_last off sz l r \<longleftrightarrow> (\<exists>ps hs. snd (snd (snd r)) = l @ ps @ hs \<and> body_trace off sz ps \<and> commit_tail off hs)"

lemma commits_last_none: "keeps_bounds off sz l r \<Longrightarrow> commits_last off sz l r"
  by (auto simp: keeps_bounds_def commits_last_def commit_tail_def split: prod.splits)

lemma commits_last_andthen:
  assumes r: "keeps_bounds off sz l r"
    and k: "\<And>w d l'. writer_ok off sz w \<Longrightarrow> length (page w) < 256 \<Longrightarrow> commits_last off sz l' (k w (d, l'))"
  shows "commits_last off sz l (andthen r k)"
proof -
  obtain ok w d l' where e: "r = (ok, w, d, l')" by (metis prod_cases4)
  obtain ps where ps: "l' = l @ ps" "body_trace off sz ps" and w: "writer_ok off sz w" "ok \<Longrightarrow> length (page w) < 256"
    using r by (auto simp: keeps_bounds_def e)
  show ?thesis
  proof (cases ok)
    case True
    then obtain ps' hs where "snd (snd (snd (k w (d, l')))) = l' @ ps' @ hs" "body_trace off sz ps'" "commit_tail off hs"
      using k[OF w(1) w(2)[OF True], of l' d] unfolding commits_last_def by blast
    then show ?thesis using True ps unfolding commits_last_def andthen_def e
      by (intro exI[of _ "ps @ ps'"] exI[of _ hs]) (simp add: body_trace_def)
  next
    case False
    then show ?thesis using ps by (auto simp: andthen_def e commits_last_def commit_tail_def)
  qed
qed

lemma commit_image_length: "length (commit_image body bc mc) = 32"
  by (simp add: commit_image_def le32_def)

lemma meta_image_length:
  assumes "length (m_header m) = 48"
  shows "length (meta_image (meta_of syms m g a i body)) = 136"
  using assms by (simp add: meta_image_def meta_of_def le32_def le16_def)

lemma commit_headers_tail:
  assumes "length (m_header m) = 48" "slot_off w = off"
  shows "commits_last off sz l (commit_headers (logged fl) syms m g a i w (d, l))"
proof -
  define mb where "mb = pad_ff 512 (meta_image (meta_of syms m g a i (page_base w)))"
  define h where "h = pad_ff 256 (commit_image (page_base w) (w_crc w) (pkgslot_crc32 0 mb))"
  have "length mb = 512" "length h = 256"
    by (simp_all add: mb_def h_def pad_ff_def meta_image_length[OF assms(1)] commit_image_length)
  then have t: "commit_tail off [Program (off + PKGSLOT_META_OFF) mb]"
    "commit_tail off [Program (off + PKGSLOT_META_OFF) mb, Program off h]" by (auto simp: commit_tail_def)
  show ?thesis
    unfolding commit_headers_def Let_def mb_def[symmetric] h_def[symmetric] assms(2) commits_last_def
    using t by (intro exI[of _ "[]"] exI[of _ "[Program (off + PKGSLOT_META_OFF) mb] @
        (if fst (sf_program fl (off + PKGSLOT_META_OFF) mb d) then [Program off h] else [])"])
      (auto simp: andthen_def program_step_def logged_def body_trace_def assms(2) w_fail_def split: prod.splits)
qed

lemma pkgslot_commit_trace:
  assumes "writer_ok off sz w" "length (page w) < 256 \<or> failed w" "length (m_header m) = 48"
  shows "commits_last off sz l (pkgslot_commit (logged fl) syms w m (d, l))"
proof (cases "failed w \<or> w_cursor w \<noteq> ro_size m")
  case True
  then show ?thesis by (auto simp: pkgslot_commit_def commits_last_def body_trace_def commit_tail_def)
next
  case False
  have h: "commits_last off sz l' (commit_headers (logged fl) syms m g a i w' (d', l'))"
    if "writer_ok off sz w'" for g a i w' l' d'
    using that by (intro commit_headers_tail assms(3)) (simp add: writer_ok_def)
  have "length (page w) < 256" using False assms(2) by simp
  then show ?thesis using False assms(1) unfolding pkgslot_commit_def Let_def
    by (simp, intro commits_last_andthen body_step_bounds h)
qed

subsection \<open>A slot is empty until its commit record is written\<close>

lemma op_within_not_below:
  assumes "op_within lo hi p" "hi \<le> 4294967296" "unat a < lo"
  shows "\<not> op_covers p a"
proof -
  let ?s = "unat (op_start p)"
  have b: "lo \<le> ?s" "?s + op_length p \<le> 4294967296" using assms by (simp_all add: op_within_def)
  have "\<not> ?s \<le> unat a" using b assms(3) by simp
  then have "unat (a - op_start p) = unat a + 4294967296 - ?s" by (simp add: unat_sub_if')
  then show ?thesis using b assms(3) by (simp add: op_covers_def)
qed

lemma torn_run_frame:
  "torn_run ps m m' \<Longrightarrow> (\<And>p. p \<in> set ps \<Longrightarrow> \<not> op_covers p a) \<Longrightarrow> m' a = m a"
  by (induction rule: torn_run.induct) auto

lemma get32_erased: "b ! 0 = 0xFF \<Longrightarrow> b ! 1 = 0xFF \<Longrightarrow> b ! 2 = 0xFF \<Longrightarrow> b ! 3 = 0xFF \<Longrightarrow> get32 b 0 = 0xFFFFFFFF"
  unfolding get32_def add_0 by simp

lemma open_erased:
  assumes "PKGSLOT_HEADER < sz" "\<And>i. i < 4 \<Longrightarrow> mem i = 0xFF"
  shows "pkgslot_open syms mem sz = (PKGSLOT_EMPTY, None)"
proof -
  have "get32 (mem_bytes mem 0 32) 0 = 0xFFFFFFFF"
    using assms(2) by (intro get32_erased) (simp_all add: mem_bytes_def)
  then show ?thesis using assms(1) by (simp add: pkgslot_open_def PKGSLOT_MAGIC_def Let_def)
qed

lemma pkgslot_begin_ok:
  assumes "pkgslot_begin (logged fl) off sz (d, []) = (Some w, d', l)" "slot_fits off sz"
  shows "w = writer_init off sz" "l = [Erase off PKGSLOT_HEADER]" "writer_ok off sz w" "PKGSLOT_HEADER < sz"
proof -
  have w: "w = writer_init off sz" "l = [Erase off PKGSLOT_HEADER]" "PKGSLOT_HEADER < sz"
    using assms(1) by (auto simp: pkgslot_begin_def logged_def split: if_splits prod.splits bool.splits)
  then show "w = writer_init off sz" "l = [Erase off PKGSLOT_HEADER]" "PKGSLOT_HEADER < sz" by simp_all
  show "writer_ok off sz w" using w(3) assms(2) header_bytes by (simp add: w writer_ok_def writer_init_def u32_less_iff)
qed

lemma install_trace:
  assumes "slot_fits off sz" "length (m_header m) = 48"
    and "pkg_install (logged fl) syms off sz cs m (d, []) = (ok, d', l)"
  shows "l = [] \<or> l = [Erase off PKGSLOT_HEADER] \<or>
    (PKGSLOT_HEADER < sz \<and> (\<exists>ps hs. l = Erase off PKGSLOT_HEADER # ps @ hs \<and> body_trace off sz ps \<and> commit_tail off hs))"
proof -
  obtain w0 d0 l0 where b: "pkgslot_begin (logged fl) off sz (d, []) = (w0, d0, l0)" by (metis prod_cases3)
  show ?thesis
  proof (cases w0)
    case None
    then show ?thesis using assms(3) b
      by (auto simp: pkg_install_def pkgslot_begin_def logged_def split: if_splits prod.splits bool.splits)
  next
    case (Some w)
    note bo = pkgslot_begin_ok[OF b[unfolded Some] assms(1)]
    obtain ok1 w1 d1 l1 where s: "run_sinks (logged fl) cs w (d0, l0) = (ok1, w1, d1, l1)" by (metis prod_cases4)
    have "length (page w) < 256 \<or> failed w" by (simp add: bo(1) writer_init_def)
    from run_sinks_bounds[OF bo(3) this s] obtain ps where
      ps: "writer_ok off sz w1" "length (page w1) < 256 \<or> failed w1" "l1 = l0 @ ps" "body_trace off sz ps" by blast
    have "commits_last off sz l1 (pkgslot_commit (logged fl) syms w1 m (d1, l1))"
      by (rule pkgslot_commit_trace[OF ps(1,2) assms(2)])
    moreover have "l = snd (snd (snd (pkgslot_commit (logged fl) syms w1 m (d1, l1))))"
      using assms(3) b s Some by (auto simp: pkg_install_def split: prod.splits)
    ultimately obtain ps' hs where "l = l1 @ ps' @ hs" "body_trace off sz ps'" "commit_tail off hs"
      unfolding commits_last_def by blast
    then show ?thesis using ps(3,4) bo(2,4)
      by (intro disjI2 conjI exI[of _ "ps @ ps'"] exI[of _ hs]) (simp_all add: body_trace_def)
  qed
qed


section \<open>What is committed is what is opened\<close>

subsection \<open>Checksums and records\<close>

lemma pkgslot_crc32_append: "pkgslot_crc32 c (xs @ ys) = pkgslot_crc32 (pkgslot_crc32 c xs) ys"
  by (simp add: pkgslot_crc32_def)

lemma le_lengths [simp]: "length (le32 v) = 4" "length (le16 h) = 2"
  by (simp_all add: le32_def le16_def)

lemma get16_le16: "get16 (le16 v) 0 = v"
  by (rule bit_word_eqI) (auto simp: get16_def le16_def bit_simps)

lemma get32_le32: "get32 (le32 v) 0 = v"
proof (rule bit_word_eqI)
  fix n assume "n < LENGTH(32)"
  then have "n < 8 \<or> (8 \<le> n \<and> n < 16) \<or> (16 \<le> n \<and> n < 24) \<or> (24 \<le> n \<and> n < 32)" by auto
  then show "bit (get32 (le32 v) 0) n = bit v n"
    by (elim disjE) (auto simp: get32_def le32_def bit_simps)
qed

lemma get16_at: "k + 2 \<le> length b \<Longrightarrow> get16 (a @ b @ c) (length a + k) = get16 b k"
  by (simp add: get16_def nth_append)

lemma get32_at: "k + 4 \<le> length b \<Longrightarrow> get32 (a @ b @ c) (length a + k) = get32 b k"
  by (simp add: get32_def nth_append)

lemma get32_words: "i < length ws \<Longrightarrow> get32 (concat (map le32 ws)) (4 * i) = ws ! i"
proof (induction ws arbitrary: i)
  case (Cons w ws)
  show ?case
  proof (cases i)
    case 0
    then show ?thesis using get32_at[of 0 "le32 w" "[]" "concat (map le32 ws)"] by (simp add: get32_le32)
  next
    case (Suc j)
    have "get32 (le32 w @ concat (map le32 ws) @ []) (length (le32 w) + 4 * j) = get32 (concat (map le32 ws)) (4 * j)"
      using Cons.prems Suc by (intro get32_at) (simp add: length_concat comp_def sum_list_triv)
    then show ?thesis using Cons Suc by simp
  qed
qed simp

lemma get16_words: "i < length ws \<Longrightarrow> get16 (concat (map le16 ws)) (2 * i) = ws ! i"
proof (induction ws arbitrary: i)
  case (Cons w ws)
  show ?case
  proof (cases i)
    case 0
    then show ?thesis using get16_at[of 0 "le16 w" "[]" "concat (map le16 ws)"] by (simp add: get16_le16)
  next
    case (Suc j)
    have "get16 (le16 w @ concat (map le16 ws) @ []) (length (le16 w) + 2 * j) = get16 (concat (map le16 ws)) (2 * j)"
      using Cons.prems Suc by (intro get16_at) (simp add: length_concat comp_def sum_list_triv)
    then show ?thesis using Cons Suc by simp
  qed
qed simp

lemma length_le_words: "length (concat (map le32 ws)) = 4 * length ws" "length (concat (map le16 hs)) = 2 * length hs"
  by (induction ws, simp_all, induction hs, simp_all)

text \<open>The metadata reads back as it was written.\<close>

lemma meta_read_image:
  assumes "length (sm_header mt) = 48" "length (sm_halves mt) = 4" "length (sm_words mt) = 20"
  shows "meta_read (pad_ff 512 (meta_image mt)) = mt"
proof -
  obtain pad where p: "pad_ff 512 (meta_image mt) =
      sm_header mt @ concat (map le16 (sm_halves mt)) @ concat (map le32 (sm_words mt)) @ pad"
    by (simp add: pad_ff_def meta_image_def)
  have h: "get16 (pad_ff 512 (meta_image mt)) (APP_HEADER + 2 * i) = sm_halves mt ! i" if "i < 4" for i
    unfolding p using get16_at[of "2 * i" "concat (map le16 (sm_halves mt))" "sm_header mt"] that assms
    by (simp add: length_le_words get16_words APP_HEADER_def)
  have w: "get32 (pad_ff 512 (meta_image mt)) (APP_HEADER + 8 + 4 * i) = sm_words mt ! i" if "i < 20" for i
    unfolding p using get32_at[of "4 * i" "concat (map le32 (sm_words mt))" "sm_header mt @ concat (map le16 (sm_halves mt))" pad]
      that assms by (simp add: length_le_words get32_words APP_HEADER_def)
  have "map (\<lambda>i. get16 (pad_ff 512 (meta_image mt)) (APP_HEADER + 2 * i)) [0..<4] = map ((!) (sm_halves mt)) [0..<4]"
    using h by (intro map_cong) auto
  moreover have "map (\<lambda>i. get32 (pad_ff 512 (meta_image mt)) (APP_HEADER + 8 + 4 * i)) [0..<20] = map ((!) (sm_words mt)) [0..<20]"
    using w by (intro map_cong) auto
  moreover have "map ((!) (sm_halves mt)) [0..<4] = sm_halves mt" "map ((!) (sm_words mt)) [0..<20] = sm_words mt"
    using assms(2,3) by (metis map_nth)+
  moreover have "take APP_HEADER (pad_ff 512 (meta_image mt)) = sm_header mt"
    unfolding p using assms(1) by (simp add: APP_HEADER_def)
  ultimately show ?thesis by (simp add: meta_read_def)
qed

lemma commit_read:
  "get32 (take 32 (pad_ff 256 (commit_image body bc mc))) 0 = PKGSLOT_MAGIC"
  "get32 (take 32 (pad_ff 256 (commit_image body bc mc))) 4 = PKGSLOT_FORMAT"
  "get32 (take 32 (pad_ff 256 (commit_image body bc mc))) 8 = body"
  "get32 (take 32 (pad_ff 256 (commit_image body bc mc))) 12 = bc"
  "get32 (take 32 (pad_ff 256 (commit_image body bc mc))) 16 = mc"
proof -
  let ?ws = "[PKGSLOT_MAGIC, PKGSLOT_FORMAT, body, bc, mc, 0, 0, 0]"
  have "take 32 (pad_ff 256 (commit_image body bc mc)) = concat (map le32 ?ws)"
    by (simp add: pad_ff_def commit_image_def le32_def)
  moreover note get32_words[of 0 ?ws] get32_words[of 1 ?ws] get32_words[of 2 ?ws] get32_words[of 3 ?ws] get32_words[of 4 ?ws]
  ultimately show
    "get32 (take 32 (pad_ff 256 (commit_image body bc mc))) 0 = PKGSLOT_MAGIC"
    "get32 (take 32 (pad_ff 256 (commit_image body bc mc))) 4 = PKGSLOT_FORMAT"
    "get32 (take 32 (pad_ff 256 (commit_image body bc mc))) 8 = body"
    "get32 (take 32 (pad_ff 256 (commit_image body bc mc))) 12 = bc"
    "get32 (take 32 (pad_ff 256 (commit_image body bc mc))) 16 = mc" by simp_all
qed

subsection \<open>The contents of the slot while it is written\<close>

text \<open>
  What the writer relies on of the flash: an erase that succeeds leaves ones, a program that
  succeeds clears the bits that are zero in the data.
\<close>

definition nor_device :: "'d slot_flash \<Rightarrow> ('d \<Rightarrow> u32 \<Rightarrow> u8) \<Rightarrow> bool" where
  "nor_device fl cont \<longleftrightarrow>
     (\<forall>a n d d'. sf_erase fl a n d = (True, d') \<longrightarrow> cont d' = op_effect (Erase a n) (cont d)) \<and>
     (\<forall>a b d d'. sf_program fl a b d = (True, d') \<longrightarrow> cont d' = op_effect (Program a b) (cont d))"

text \<open>The byte at position \<open>k\<close> of the slot at \<open>off\<close>, and the effect of an operation on it.\<close>

definition slot_byte :: "(u32 \<Rightarrow> u8) \<Rightarrow> u32 \<Rightarrow> nat \<Rightarrow> u8" where "slot_byte m off k = m (off + of_nat k)"

lemma covers_at:
  assumes "op_start p = off + of_nat a" "a + op_length p < 4294967296" "k < 2147483648" "a < 2147483648"
    "op_length p < 2147483648"
  shows "op_covers p (off + of_nat k) \<longleftrightarrow> a \<le> k \<and> k < a + op_length p"
    "a \<le> k \<Longrightarrow> unat (off + of_nat k - op_start p) = k - a"
proof -
  have e: "off + of_nat k - op_start p = of_nat k - (of_nat a :: u32)" by (simp add: assms(1))
  have ua: "unat (of_nat a :: u32) = a" "unat (of_nat k :: u32) = k" using assms by (simp_all add: unat_of_nat_u32)
  show "a \<le> k \<Longrightarrow> unat (off + of_nat k - op_start p) = k - a"
    unfolding e by (subst unat_u32_sub_small) (simp_all add: ua)
  show "op_covers p (off + of_nat k) \<longleftrightarrow> a \<le> k \<and> k < a + op_length p"
    unfolding op_covers_def e using assms by (auto simp: unat_sub_if' ua)
qed

lemma erase_at:
  assumes "a + unat n < 2147483648" "k < 2147483648"
  shows "slot_byte (op_effect (Erase (off + of_nat a) n) m) off k = (if a \<le> k \<and> k < a + unat n then 0xFF else slot_byte m off k)"
  using covers_at(1)[of "Erase (off + of_nat a) n" off a k] assms by (simp add: slot_byte_def)

lemma program_at:
  assumes "a + length b < 2147483648" "k < 2147483648"
  shows "slot_byte (op_effect (Program (off + of_nat a) b) m) off k =
    (if a \<le> k \<and> k < a + length b then slot_byte m off k AND b ! (k - a) else slot_byte m off k)"
proof -
  let ?p = "Program (off + of_nat a) b"
  have c: "op_covers ?p (off + of_nat k) \<longleftrightarrow> a \<le> k \<and> k < a + length b"
    by (rule covers_at(1)[of ?p off a k, unfolded op_start.simps op_length.simps, OF refl]) (use assms in linarith)+
  have u: "unat (off + of_nat k - (off + of_nat a)) = k - a" if "a \<le> k"
    by (rule covers_at(2)[of ?p off a k, unfolded op_start.simps op_length.simps, OF refl]) (use assms that in linarith)+
  show ?thesis
  proof (cases "a \<le> k \<and> k < a + length b")
    case True
    then have "op_covers ?p (off + of_nat k)" using c by simp
    then show ?thesis unfolding op_effect.simps slot_byte_def u[OF True[THEN conjunct1]] by (simp only: True if_True simp_thms)
  next
    case False
    then have "\<not> op_covers ?p (off + of_nat k)" using c by simp
    then show ?thesis unfolding op_effect.simps slot_byte_def by (simp only: False if_False)
  qed
qed

text \<open>
  The state of a slot whose body so far is \<open>xs\<close>: the whole pages of \<open>xs\<close> are in the flash, the rest is
  in the page buffer, what is erased beyond is all ones, and so is the header sector.
\<close>

definition written :: "u32 \<Rightarrow> u32 \<Rightarrow> writer \<Rightarrow> bytes \<Rightarrow> (u32 \<Rightarrow> u8) \<Rightarrow> bool" where
  "written off sz w xs m \<longleftrightarrow> writer_ok off sz w \<and> length xs = unat (page_base w) + length (page w) \<and>
     page w = drop (unat (page_base w)) xs \<and> w_crc w = pkgslot_crc32 0 (take (unat (page_base w)) xs) \<and>
     (\<forall>k < unat (erased_to w). slot_byte m off (4096 + k) = (if k < unat (page_base w) then xs ! k else 0xFF)) \<and>
     (\<forall>k < 4096. slot_byte m off k = 0xFF)"

lemma writtenD:
  assumes "written off sz w xs m"
  shows "writer_ok off sz w" "length xs = unat (page_base w) + length (page w)" "page w = drop (unat (page_base w)) xs"
    "w_crc w = pkgslot_crc32 0 (take (unat (page_base w)) xs)"
    "\<And>k. k < unat (erased_to w) \<Longrightarrow> slot_byte m off (4096 + k) = (if k < unat (page_base w) then xs ! k else 0xFF)"
    "\<And>k. k < 4096 \<Longrightarrow> slot_byte m off k = 0xFF"
  using assms unfolding written_def by blast+

lemma erase_to_written:
  assumes nor: "nor_device fl cont" and w: "written off sz w xs (cont d)"
    and need: "unat need = unat (page_base w) + 256" and r: "erase_to fl w need d = (True, w1, d1)"
  shows "written off sz w1 xs (cont d1) \<and> need \<le> erased_to w1 \<and> page w1 = page w \<and> page_base w1 = page_base w \<and>
    w_cursor w1 = w_cursor w"
proof (cases "need \<le> erased_to w")
  case True
  then show ?thesis using r w by (simp add: erase_to_def)
next
  case False
  note W = writtenD[OF w] and ok = writer_okD[OF writtenD(1)[OF w]] and eq = erase_to_eq[OF writtenD(1)[OF w] need]
  let ?e = "unat (erased_to w)"
  have e: "unat (erased_to w + 4096) = ?e + 4096" using ok by (subst unat_u32_add_small) simp_all
  have fits: "?e + 8192 \<le> unat sz" and d1: "sf_erase fl (off + PKGSLOT_HEADER + erased_to w) 4096 d = (True, d1)"
    and w1: "w1 = w\<lparr>erased_to := erased_to w + 4096\<rparr>"
    using r False unfolding eq(1) by (auto split: if_splits prod.splits)
  have pe: "unat (page_base w) = ?e" using eq(2)[OF False] by simp
  have start: "off + PKGSLOT_HEADER + erased_to w = off + of_nat (4096 + ?e)"
    by (simp add: PKGSLOT_HEADER_def PKGSLOT_ERASE_def)
  have "cont d1 = op_effect (Erase (off + of_nat (4096 + ?e)) 4096) (cont d)"
    using nor d1 unfolding nor_device_def start by blast
  then have m: "slot_byte (cont d1) off k = (if 4096 + ?e \<le> k \<and> k < ?e + 8192 then 0xFF else slot_byte (cont d) off k)"
    if "k < 2147483648" for k
    using that fits ok(5) by (simp only:, subst erase_at) simp_all
  have "writer_ok off sz w1" using W(1) fits by (simp add: w1 writer_ok_def e)
  moreover have "slot_byte (cont d1) off (4096 + k) = (if k < unat (page_base w) then xs ! k else 0xFF)" if "k < ?e + 4096" for k
    using that fits ok(5) pe W(5)[of k] by (subst m) auto
  moreover have "slot_byte (cont d1) off k = 0xFF" if "k < 4096" for k
    using that W(6) by (subst m) auto
  moreover have "need \<le> erased_to w1" using ok(2) by (simp add: w1 u32_le_iff e need)
  ultimately show ?thesis using W(2,3,4) by (simp add: written_def w1 e)
qed

lemma and_ff: "0xFF AND (x :: u8) = x"
proof -
  have "(0xFF :: u8) = - 1" by simp
  then show ?thesis by (simp only: and.left_neutral)
qed

lemma flush_page_written:
  assumes nor: "nor_device fl cont" and w: "written off sz w xs (cont d)" and ne: "page w \<noteq> []"
    and r: "flush_page fl w d = (True, w', d')"
  shows "written off sz w' (xs @ replicate (256 - length (page w)) 0xFF) (cont d') \<and> page w' = [] \<and> w_cursor w' = w_cursor w"
proof -
  note W = writtenD[OF w] and ok = writer_okD[OF writtenD(1)[OF w]] and eq = flush_page_eq[OF writtenD(1)[OF w] ne]
  let ?b = "unat (page_base w)" and ?pg = "page w @ replicate (256 - length (page w)) 0xFF"
  obtain w1 d1 where e: "erase_to fl w (page_base w + 256) d = (True, w1, d1)"
    and p: "sf_program fl (off + PKGSLOT_HEADER + page_base w) ?pg d1 = (True, d')"
    and w': "w' = w1\<lparr>w_crc := pkgslot_crc32 (w_crc w) ?pg, page_base := page_base w + 256, page := []\<rparr>"
    using r unfolding eq(1) Let_def by (auto split: prod.splits bool.splits)
  from erase_to_written[OF nor w eq(2) e] have w1: "written off sz w1 xs (cont d1)" "page_base w + 256 \<le> erased_to w1"
    "page w1 = page w" "page_base w1 = page_base w" "w_cursor w1 = w_cursor w" by blast+
  note W1 = writtenD[OF w1(1)] and ok1 = writer_okD[OF writtenD(1)[OF w1(1)]]
  have le: "?b + 256 \<le> unat (erased_to w1)" using w1(2) eq(2) by (simp add: u32_le_iff)
  have len: "length ?pg = 256" using ok(8) by simp
  have start: "off + PKGSLOT_HEADER + page_base w = off + of_nat (4096 + ?b)"
    by (simp add: PKGSLOT_HEADER_def PKGSLOT_ERASE_def)
  have "cont d' = op_effect (Program (off + of_nat (4096 + ?b)) ?pg) (cont d1)"
    using nor p unfolding nor_device_def start by blast
  then have m: "slot_byte (cont d') off k =
      (if 4096 + ?b \<le> k \<and> k < 4096 + ?b + 256 then slot_byte (cont d1) off k AND ?pg ! (k - (4096 + ?b)) else slot_byte (cont d1) off k)"
    if "k < 2147483648" for k
    using program_at[of "4096 + ?b" ?pg k off "cont d1", unfolded len] that le ok1(4,5) by simp
  let ?ys = "xs @ replicate (256 - length (page w)) 0xFF"
  have split: "take ?b xs @ ?pg = ?ys" unfolding W(3) by simp
  have tl: "length (take ?b xs) = ?b" using W(2) by simp
  have body: "slot_byte (cont d') off (4096 + k) = (if k < ?b + 256 then ?ys ! k else 0xFF)" if "k < unat (erased_to w1)" for k
  proof -
    have k: "4096 + k < 2147483648" using that ok1(4,5) by linarith
    consider "k < ?b" | "?b \<le> k" "k < ?b + 256" | "?b + 256 \<le> k" by linarith
    then show ?thesis
    proof cases
      case 1
      then have "?ys ! k = xs ! k" using W(2) by (simp add: nth_append)
      then show ?thesis unfolding m[OF k] using 1 W1(5)[OF that] by (simp add: w1(4))
    next
      case 2
      have "?ys ! k = ?pg ! (k - ?b)" using 2 tl unfolding split[symmetric] nth_append tl by simp
      then show ?thesis unfolding m[OF k] using 2 W1(5)[OF that] by (simp add: w1(4) and_ff)
    next
      case 3
      then show ?thesis unfolding m[OF k] using W1(5)[OF that] by (simp add: w1(4))
    qed
  qed
  have "writer_ok off sz w'" using W1(1) le ok by (simp add: w' writer_ok_def eq(2))
  moreover have "slot_byte (cont d') off k = 0xFF" if "k < 4096" for k
    using that W1(6) by (subst m) auto
  moreover have l: "length ?ys = ?b + 256" using W(2) ok(8) by simp
  moreover have "take (?b + 256) ?ys = ?ys" "drop (?b + 256) ?ys = []" unfolding l[symmetric] by (rule take_all drop_all, rule order_refl)+
  moreover have "pkgslot_crc32 (w_crc w) ?pg = pkgslot_crc32 0 ?ys"
    unfolding split[symmetric] pkgslot_crc32_append W(4) ..
  ultimately show ?thesis using body by (simp add: written_def w' eq(2) w1(5) del: take_append drop_append)
qed

text \<open>Between two steps the page is never full and the cursor counts the body.\<close>

definition streams :: "u32 \<Rightarrow> u32 \<Rightarrow> bytes \<Rightarrow> writer \<Rightarrow> (u32 \<Rightarrow> u8) \<Rightarrow> bool" where
  "streams off sz xs w m \<longleftrightarrow> written off sz w xs m \<and> length (page w) < 256 \<and> w_cursor w = of_nat (length xs)"

lemma page_append_written:
  assumes "written off sz w xs m" "length (page w @ ys) \<le> 256"
  shows "written off sz (w\<lparr>page := page w @ ys, w_cursor := c\<rparr>) (xs @ ys) m"
proof -
  note W = writtenD[OF assms(1)]
  have "writer_ok off sz (w\<lparr>page := page w @ ys, w_cursor := c\<rparr>)" by (rule page_append_ok[OF W(1) assms(2)])
  moreover have "(xs @ ys) ! k = xs ! k" if "k < unat (page_base w)" for k
    using that W(2) by (simp add: nth_append)
  moreover have "take (unat (page_base w)) (xs @ ys) = take (unat (page_base w)) xs"
    "drop (unat (page_base w)) (xs @ ys) = drop (unat (page_base w)) xs @ ys" using W(2) by simp_all
  moreover have "page w @ ys = drop (unat (page_base w)) (xs @ ys)" using W(2,3) by simp
  ultimately show ?thesis unfolding written_def using W(2,4-6)
    by (intro conjI allI impI) (simp_all del: take_append drop_append)
qed

lemma body_append_streams:
  assumes nor: "nor_device fl cont"
  shows "streams off sz xs w (cont d) \<Longrightarrow> body_append fl w data d = (True, w', d') \<Longrightarrow> streams off sz (xs @ data) w' (cont d')"
proof (induction "length data" arbitrary: w xs data d rule: less_induct)
  case less
  have s: "written off sz w xs (cont d)" "length (page w) < 256" "w_cursor w = of_nat (length xs)"
    using less.prems(1) by (simp_all add: streams_def)
  show ?case
  proof (cases "data = []")
    case True
    then show ?thesis using less.prems by simp
  next
    case False
    define n where "n = min (length data) (256 - length (page w))"
    define w1 where "w1 = w\<lparr>page := page w @ take n data, w_cursor := w_cursor w + of_nat n\<rparr>"
    have dn: "length (drop n data) < length data" using False s(2) by (simp add: n_def)
    have n: "length (take n data) = n" "length (page w @ take n data) \<le> 256" using s(2) by (auto simp: n_def)
    have w1: "written off sz w1 (xs @ take n data) (cont d)"
      unfolding w1_def by (rule page_append_written[OF s(1) n(2)])
    have c1: "w_cursor w1 = of_nat (length (xs @ take n data))" unfolding length_append n(1) by (simp add: w1_def s(3))
    note step = less.prems(2)[unfolded body_append_step[OF False s(2), of fl d, folded n_def, unfolded Let_def, folded w1_def]]
    have all: "(xs @ take n data) @ drop n data = xs @ data" by simp
    show ?thesis
    proof (cases "length (page w1) = 256")
      case False
      then have "streams off sz (xs @ take n data) w1 (cont d)"
        using w1 n(2) c1 by (simp add: streams_def w1_def)
      from less.hyps[OF dn this] show ?thesis using step False unfolding all by simp
    next
      case True
      then obtain w2 d2 where f: "flush_page fl w1 d = (True, w2, d2)" and b: "body_append fl w2 (drop n data) d2 = (True, w', d')"
        using step by (auto split: prod.splits bool.splits)
      have "page w1 \<noteq> []" using True by auto
      from flush_page_written[OF nor w1 this f] have "streams off sz (xs @ take n data) w2 (cont d2)"
        using True c1 by (simp add: streams_def)
      from less.hyps[OF dn this b] show ?thesis unfolding all .
    qed
  qed
qed

lemma pad_loop_streams:
  assumes nor: "nor_device fl cont"
  shows "streams off sz xs w (cont d) \<Longrightarrow> pad_loop fl w gap d = (True, w', d') \<Longrightarrow>
    streams off sz (xs @ replicate gap 0xFF) w' (cont d')"
proof (induction gap arbitrary: w xs d rule: less_induct)
  case (less gap)
  show ?case
  proof (cases "gap = 0")
    case True
    then show ?thesis using less.prems by (subst (asm) pad_loop.simps) simp
  next
    case False
    let ?n = "min gap 16"
    obtain w1 d1 where b: "body_append fl w (replicate ?n 0xFF) d = (True, w1, d1)" and p: "pad_loop fl w1 (gap - ?n) d1 = (True, w', d')"
      using less.prems(2) False by (subst (asm) pad_loop.simps) (auto split: prod.splits bool.splits)
    have "gap - ?n < gap" using False by simp
    from less.IH[OF this body_append_streams[OF nor less.prems(1) b] p]
    have "streams off sz (xs @ (replicate ?n 0xFF @ replicate (gap - ?n) 0xFF)) w' (cont d')" by simp
    moreover have "replicate ?n 0xFF @ replicate (gap - ?n) 0xFF = replicate gap (0xFF :: u8)"
      unfolding replicate_add[symmetric] by simp
    ultimately show ?thesis by simp
  qed
qed

definition align4 :: "bytes \<Rightarrow> bytes" where
  "align4 xs = xs @ replicate ((length xs + 3) div 4 * 4 - length xs) 0xFF"

lemma length_align4: "length (align4 xs) = (length xs + 3) div 4 * 4"
  by (simp add: align4_def)

lemma streams_short: "streams off sz xs w m \<Longrightarrow> length xs + 4096 < unat sz + 256 \<and> unat off + unat sz < 2147483648 \<and> unat (w_cursor w) = length xs"
proof -
  assume a: "streams off sz xs w m"
  then have w: "written off sz w xs m" "length (page w) < 256" "w_cursor w = of_nat (length xs)" by (simp_all add: streams_def)
  note ok = writer_okD[OF writtenD(1)[OF w(1)]] and l = writtenD(2)[OF w(1)]
  have "length xs + 4096 < unat sz + 256" using ok(2,4) l w(2) by linarith
  moreover from this have "length xs < 4294967296" using ok(5) by linarith
  ultimately show ?thesis using ok(5) by (simp add: w(3) unat_of_nat_u32)
qed

lemma round_up_4:
  assumes "unat v < 4294967292"
  shows "unat (round_up v 4) = (unat v + 3) div 4 * 4"
proof -
  have four: "(4 :: u32) = 2 ^ 2" by simp
  show ?thesis using assms unfolding four by (subst round_up_nat) simp_all
qed

lemma body_pad_streams:
  assumes nor: "nor_device fl cont" and s: "streams off sz xs w (cont d)"
    and r: "body_pad_to fl w (round_up (w_cursor w) 4) d = (True, w', d')"
  shows "streams off sz (align4 xs) w' (cont d')" "round_up (w_cursor w) 4 = of_nat (length (align4 xs))"
proof -
  note sh = streams_short[OF s]
  have c: "unat (round_up (w_cursor w) 4) = (length xs + 3) div 4 * 4"
    using sh by (subst round_up_4) simp_all
  have le: "length xs \<le> (length xs + 3) div 4 * 4" by arith
  have "(if w_cursor w < round_up (w_cursor w) 4 then unat (round_up (w_cursor w) 4 - w_cursor w) else 0) =
      (length xs + 3) div 4 * 4 - length xs"
    using le sh c by (auto simp: u32_less_iff unat_u32_sub_small)
  then show "streams off sz (align4 xs) w' (cont d')"
    using pad_loop_streams[OF nor s] r unfolding body_pad_to_def align4_def by simp
  have "(length xs + 3) div 4 * 4 < 4294967296" using sh by linarith
  then show "round_up (w_cursor w) 4 = of_nat (length (align4 xs))"
    unfolding word_unat_eq_iff c length_align4 by (simp only: unat_of_nat_u32)
qed

lemma pkgslot_sink_streams:
  assumes nor: "nor_device fl cont" and s: "streams off sz xs w (cont d)" and r: "pkgslot_sink fl w at data d = (True, w', d')"
  shows "streams off sz (xs @ data) w' (cont d')"
proof -
  have "body_append fl w data d = (True, w', d')"
    using r by (auto simp: pkgslot_sink_def andthen_def split: if_splits prod.splits)
  then show ?thesis by (rule body_append_streams[OF nor s])
qed

lemma run_sinks_streams:
  assumes nor: "nor_device fl cont"
  shows "streams off sz xs w (cont d) \<Longrightarrow> run_sinks fl cs w d = (True, w', d') \<Longrightarrow>
    streams off sz (xs @ concat (map snd cs)) w' (cont d')"
proof (induction cs arbitrary: xs w d)
  case Nil
  then show ?case by simp
next
  case (Cons c cs)
  obtain at data where c: "c = (at, data)" by (cases c)
  obtain w1 d1 where s: "pkgslot_sink fl w at data d = (True, w1, d1)" and rest: "run_sinks fl cs w1 d1 = (True, w', d')"
    using Cons.prems(2) by (auto simp: c split: prod.splits)
  from Cons.IH[OF pkgslot_sink_streams[OF nor Cons.prems(1) s] rest] show ?case by (simp add: c)
qed

subsection \<open>The commit\<close>

text \<open>The consistency the loader checks of a manifest before it installs a package, and the sizes of its arrays.\<close>

definition manifest_ok :: "manifest \<Rightarrow> bool" where
  "manifest_ok m \<longleftrightarrow> length (m_header m) = 48 \<and> m_api_major m = RPC_API_MAJOR \<and> m_api_minor m \<le> RPC_API_MINOR \<and>
     entry_off m < ro_size m \<and> unat (got_count m) * 4 \<le> unat (got_bytes m) \<and>
     unat (data_off m) + unat (data_size m) \<le> unat (ram_size m) \<and> length (m_got m) = 8 * unat (got_count m) \<and>
     length (m_abs m) = 12 * unat (abs_count m) \<and> length (m_data_init m) = unat (data_size m)"

text \<open>Where the parts of the body begin.\<close>

definition got_start :: "manifest \<Rightarrow> bytes \<Rightarrow> bytes" where "got_start m ro = align4 ro"
definition abs_start :: "manifest \<Rightarrow> bytes \<Rightarrow> bytes" where "abs_start m ro = align4 (got_start m ro @ m_got m)"
definition init_start :: "manifest \<Rightarrow> bytes \<Rightarrow> bytes" where "init_start m ro = align4 (abs_start m ro @ m_abs m)"

text \<open>The successful runs of a step followed by the rest, as elimination rules.\<close>

lemma andthenE:
  assumes "andthen r k = (True, w', d')"
  obtains w d where "r = (True, w, d)" "k w d = (True, w', d')"
  using assms by (cases r) (auto simp: andthen_def split: if_splits)

lemma pad_thenE:
  assumes nor: "nor_device fl cont" and s: "streams off sz xs w (cont d)"
    and r: "andthen (body_pad_to fl w (round_up (w_cursor w) 4) d) k = (True, w', d')"
  obtains w1 d1 where "streams off sz (align4 xs) w1 (cont d1)" "round_up (w_cursor w) 4 = of_nat (length (align4 xs))"
    "k w1 d1 = (True, w', d')"
  using r by (elim andthenE) (metis body_pad_streams[OF nor s])

lemma append_thenE:
  assumes nor: "nor_device fl cont" and s: "streams off sz xs w (cont d)" and e: "\<not> c \<Longrightarrow> data = []"
    and r: "andthen (append_if fl c data w d) k = (True, w', d')"
  obtains w1 d1 where "streams off sz (xs @ data) w1 (cont d1)" "k w1 d1 = (True, w', d')"
proof -
  obtain w1 d1 where a: "append_if fl c data w d = (True, w1, d1)" and k: "k w1 d1 = (True, w', d')"
    using r by (elim andthenE)
  have "body_append fl w data d = (True, w1, d1)"
    using a e by (cases c) (simp_all add: append_if_def)
  from body_append_streams[OF nor s this] show thesis using k by (rule that)
qed

lemma flush_thenE:
  assumes nor: "nor_device fl cont" and s: "streams off sz xs w (cont d)"
    and r: "andthen (flush_page fl w d) k = (True, w', d')"
  obtains w1 d1 pad where "written off sz w1 (xs @ pad) (cont d1)" "page w1 = []" "k w1 d1 = (True, w', d')"
proof -
  obtain w1 d1 where f: "flush_page fl w d = (True, w1, d1)" and k: "k w1 d1 = (True, w', d')"
    using r by (elim andthenE)
  have w: "written off sz w xs (cont d)" using s by (simp add: streams_def)
  show thesis
  proof (cases "page w = []")
    case True
    then show thesis using f w k by (intro that[where pad = "[]"]) (auto simp: flush_page_def)
  next
    case False
    from flush_page_written[OF nor w False f] show thesis using k by (blast intro: that)
  qed
qed

lemma commit_body:
  assumes nor: "nor_device fl cont" and s: "streams off sz ro w (cont d)" and m: "manifest_ok m"
    and r: "pkgslot_commit fl syms w m d = (True, w', d')"
  obtains w1 d1 pad where "written off sz w1 (init_start m ro @ m_data_init m @ pad) (cont d1)" "page w1 = []"
    "length ro = unat (ro_size m)"
    "commit_headers fl syms m (of_nat (length (got_start m ro))) (of_nat (length (abs_start m ro)))
      (of_nat (length (init_start m ro))) w1 d1 = (True, w', d')"
proof -
  have empty: "\<not> got_count m \<noteq> 0 \<Longrightarrow> m_got m = []" "\<not> abs_count m \<noteq> 0 \<Longrightarrow> m_abs m = []"
    "\<not> data_size m \<noteq> 0 \<Longrightarrow> m_data_init m = []"
    using m by (auto simp: manifest_ok_def)
  have c: "\<not> failed w" "w_cursor w = ro_size m" using r by (auto simp: pkgslot_commit_def split: if_splits)
  have len: "length ro = unat (ro_size m)" using streams_short[OF s] c(2) by simp
  have r': "andthen (body_pad_to fl w (round_up (w_cursor w) 4) d) (\<lambda>w1 d.
        andthen (append_if fl (got_count m \<noteq> 0) (m_got m) w1 d) (\<lambda>w2 d.
        andthen (body_pad_to fl w2 (round_up (w_cursor w2) 4) d) (\<lambda>w3 d.
        andthen (append_if fl (abs_count m \<noteq> 0) (m_abs m) w3 d) (\<lambda>w4 d.
        andthen (body_pad_to fl w4 (round_up (w_cursor w4) 4) d) (\<lambda>w5 d.
        andthen (append_if fl (data_size m \<noteq> 0) (m_data_init m) w5 d) (\<lambda>w6 d.
        andthen (flush_page fl w6 d) (\<lambda>w7 d.
          commit_headers fl syms m (round_up (w_cursor w) 4) (round_up (w_cursor w2) 4) (round_up (w_cursor w4) 4) w7 d)))))))
      = (True, w', d')"
    using r c unfolding pkgslot_commit_def Let_def by simp
  show thesis
    apply (rule pad_thenE[OF nor s r'])
    apply (erule (2) append_thenE[OF nor _ empty(1)])
    apply (erule (1) pad_thenE[OF nor])
    apply (erule (2) append_thenE[OF nor _ empty(2)])
    apply (erule (1) pad_thenE[OF nor])
    apply (erule (2) append_thenE[OF nor _ empty(3)])
    apply (erule (1) flush_thenE[OF nor])
    apply (rule that[OF _ _ len])
    apply (simp_all only: got_start_def abs_start_def init_start_def append_assoc)
    done
qed

lemma commit_headers_contents:
  fixes w :: writer
  defines "body \<equiv> page_base w"
  assumes nor: "nor_device fl cont" and w: "written off sz w xs (cont d)"
    and r: "commit_headers fl syms m g a i w d = (True, w', d')" and hdr: "length (m_header m) = 48" and big: "4096 \<le> unat sz"
    and mb: "mb = pad_ff 512 (meta_image (meta_of syms m g a i body))"
    and h: "h = pad_ff 256 (commit_image body (w_crc w) (pkgslot_crc32 0 mb))"
  shows "\<And>k. k < 256 \<Longrightarrow> slot_byte (cont d') off k = h ! k"
    "\<And>k. k < 512 \<Longrightarrow> slot_byte (cont d') off (256 + k) = mb ! k"
    "\<And>k. k < unat body \<Longrightarrow> slot_byte (cont d') off (4096 + k) = xs ! k"
proof -
  note W = writtenD[OF w] and ok = writer_okD[OF writtenD(1)[OF w]]
  have len: "length mb = 512" "length h = 256"
    by (simp_all add: mb h pad_ff_def meta_image_length[OF hdr] commit_image_length)
  obtain d1 where p1: "sf_program fl (off + of_nat 256) mb d = (True, d1)" and p2: "sf_program fl (off + of_nat 0) h d1 = (True, d')"
    using r ok(6) unfolding commit_headers_def Let_def body_def[symmetric] mb[symmetric] h[symmetric]
    by (auto simp: program_step_def PKGSLOT_META_OFF_def PKGSLOT_PROG_def elim!: andthenE split: prod.splits)
  have "cont d1 = op_effect (Program (off + of_nat 256) mb) (cont d)" "cont d' = op_effect (Program (off + of_nat 0) h) (cont d1)"
    using nor p1 p2 unfolding nor_device_def by blast+
  then have m: "slot_byte (cont d') off k = (if k < 256 then slot_byte (cont d) off k AND h ! k
      else if k < 768 then slot_byte (cont d) off k AND mb ! (k - 256) else slot_byte (cont d) off k)" if "k < 2147483648" for k
    using program_at[of 256 mb k off "cont d"] program_at[of 0 h k off "cont d1"] that by (auto simp: len)
  show "slot_byte (cont d') off k = h ! k" if "k < 256" for k using that W(6)[of k] by (simp add: m and_ff)
  show "slot_byte (cont d') off (256 + k) = mb ! k" if "k < 512" for k using that W(6)[of "256 + k"] by (simp add: m and_ff)
  show "slot_byte (cont d') off (4096 + k) = xs ! k" if "k < unat body" for k
  proof -
    have "k < unat (erased_to w)" "4096 + k < 2147483648" using that ok(2,4,5) by (simp_all add: body_def)
    then show ?thesis using that W(5)[of k] m[of "4096 + k"] by (simp add: body_def)
  qed
qed

lemma mem_bytes_region:
  assumes "\<And>k. k < length L \<Longrightarrow> slot_byte mem off (b + k) = L ! k" "unat v = b + s" "s + n \<le> length L"
  shows "mem_bytes (slot_view mem off) v n = take n (drop s L)"
proof (rule nth_equalityI)
  show "length (mem_bytes (slot_view mem off) v n) = length (take n (drop s L))"
    using assms(3) by (simp add: mem_bytes_def)
  fix i assume "i < length (mem_bytes (slot_view mem off) v n)"
  then have i: "i < n" by (simp add: mem_bytes_def)
  have "of_nat (unat v) = v" by simp
  then have v: "v = of_nat b + of_nat s" unfolding assms(2) by simp
  have "mem_bytes (slot_view mem off) v n ! i = slot_byte mem off (b + (s + i))"
    using i by (simp add: mem_bytes_def slot_view_def slot_byte_def v add.assoc)
  then show "mem_bytes (slot_view mem off) v n ! i = take n (drop s L) ! i"
    using assms(1)[of "s + i"] assms(3) i by simp
qed

lemma and_3:
  assumes "unat (x :: u32) mod 4 = 0" "unat y mod 4 = 0"
  shows "(x OR y OR 0) AND 3 = 0"
proof -
  have z: "take_bit 2 v = 0" if "unat v mod 4 = 0" for v :: u32
    using that unat_take_bit_u32[of 2 v] by (simp add: word_unat_eq_iff)
  have "(3 :: u32) = mask 2" by (simp add: mask_eq_exp_minus_1)
  then have "(x OR y OR 0) AND 3 = take_bit 2 (x OR y)" by (simp add: take_bit_eq_mask)
  also have "\<dots> = 0" by (simp only: take_bit_or z[OF assms(1)] z[OF assms(2)]) simp
  finally show ?thesis .
qed

lemma unat_u32_mult_bounded: "unat x * unat y < 4294967296 \<Longrightarrow> unat (x * y :: u32) = unat x * unat y"
  by (simp add: unat_word_ariths)

text \<open>Reading the slot back: the parts of the body are found at the positions the metadata names.\<close>

lemma open_committed:
  fixes m :: manifest and ro pad :: bytes
  defines "body \<equiv> init_start m ro @ m_data_init m @ pad"
    and "g \<equiv> of_nat (length (got_start m ro)) :: u32"
    and "a \<equiv> of_nat (length (abs_start m ro)) :: u32"
    and "i \<equiv> of_nat (length (init_start m ro)) :: u32"
  assumes m: "manifest_ok m" and ro: "length ro = unat (ro_size m)" and sz: "4096 + length body \<le> unat sz" "unat sz < 2147483648"
    and mb: "mb = pad_ff 512 (meta_image (meta_of syms m g a i (of_nat (length body))))"
    and h: "h = pad_ff 256 (commit_image (of_nat (length body)) (pkgslot_crc32 0 body) (pkgslot_crc32 0 mb))"
    and c: "\<And>k. k < 256 \<Longrightarrow> slot_byte mem off k = h ! k" "\<And>k. k < 512 \<Longrightarrow> slot_byte mem off (256 + k) = mb ! k"
      "\<And>k. k < length body \<Longrightarrow> slot_byte mem off (4096 + k) = body ! k"
  shows "pkgslot_open syms (slot_view mem off) sz = (PKGSLOT_OK, Some (m\<lparr>m_borrowed := True\<rparr>))"
    "pkgslot_blob (slot_view mem off) (ro_size m) = ro"
proof -
  let ?mt = "meta_of syms m g a i (of_nat (length body))"
  have M: "length (m_header m) = 48" "m_api_major m = RPC_API_MAJOR" "m_api_minor m \<le> RPC_API_MINOR" "entry_off m < ro_size m"
    "unat (got_count m) * 4 \<le> unat (got_bytes m)" "unat (data_off m) + unat (data_size m) \<le> unat (ram_size m)"
    "length (m_got m) = 8 * unat (got_count m)" "length (m_abs m) = 12 * unat (abs_count m)"
    "length (m_data_init m) = unat (data_size m)" using m by (simp_all add: manifest_ok_def)
  have len: "length mb = 512" "length h = 256"
    by (simp_all add: mb h pad_ff_def meta_image_length[OF M(1)] commit_image_length)
  obtain p1 p2 p3 where g1: "got_start m ro = ro @ p1" and a1: "abs_start m ro = ro @ p1 @ m_got m @ p2"
    and i1: "init_start m ro = ro @ p1 @ m_got m @ p2 @ m_abs m @ p3"
    by (simp add: got_start_def abs_start_def init_start_def align4_def)
  note body = body_def[unfolded i1]
  have bl: "length body = length ro + length p1 + length (m_got m) + length p2 + length (m_abs m) + length p3 +
      length (m_data_init m) + length pad" unfolding body by simp
  have blt: "length body < 4294967296" using sz by linarith
  have ub: "unat (of_nat (length body) :: u32) = length body" by (rule unat_of_nat_u32[OF blt])
  have ug: "unat g = length ro + length p1" and ua: "unat a = length ro + length p1 + length (m_got m) + length p2"
    and ui: "unat i = length ro + length p1 + length (m_got m) + length p2 + length (m_abs m) + length p3"
    unfolding g_def a_def i_def g1 a1 i1 using bl blt by (simp_all add: unat_of_nat_u32 del: of_nat_add)
  have ug4: "unat g mod 4 = 0" and ua4: "unat a mod 4 = 0"
  proof -
    have "length (got_start m ro) mod 4 = 0" "length (abs_start m ro) mod 4 = 0"
      by (simp_all add: got_start_def abs_start_def length_align4)
    moreover have "unat g = length (got_start m ro)" "unat a = length (abs_start m ro)" unfolding ug ua g1 a1 by simp_all
    ultimately show "unat g mod 4 = 0" "unat a mod 4 = 0" by simp_all
  qed
  have gc: "unat (got_count m * GOT_ENTRY) = length (m_got m)" "unat (got_count m * 4) = 4 * unat (got_count m)"
    and ac: "unat (abs_count m * ABS_ENTRY) = length (m_abs m)"
    using bl blt M(7,8) by (simp_all add: unat_u32_mult_bounded GOT_ENTRY_def ABS_ENTRY_def)
  have hm: "unat (PKGSLOT_HEADER + v) = 4096 + unat v" if "unat v \<le> length body" for v :: u32
    using that sz by (subst unat_u32_add_small) (simp_all add: header_bytes)
  have rd: "mem_bytes (slot_view mem off) (PKGSLOT_HEADER + v) n = take n (drop (unat v) body)"
    if "unat v + n \<le> length body" for v :: u32 and n
    using that by (intro mem_bytes_region[where b = 4096] c(3)) (simp_all add: hm)
  have c32: "mem_bytes (slot_view mem off) 0 32 = take 32 h"
    using mem_bytes_region[of h mem off 0 0 0 32] c(1) len(2) by simp
  have mbuf: "mem_bytes (slot_view mem off) PKGSLOT_META_OFF 512 = mb"
    using mem_bytes_region[of mb mem off 256 PKGSLOT_META_OFF 0 512] c(2) len(1)
    by (simp add: PKGSLOT_META_OFF_def PKGSLOT_PROG_def)
  have bodyr: "mem_bytes (slot_view mem off) PKGSLOT_HEADER (length body) = body"
    using rd[of 0 "length body"] by simp
  have mt: "meta_read mb = ?mt" unfolding mb by (intro meta_read_image) (simp_all add: meta_of_def M(1))
  have check: "meta_check syms bw (meta_of syms m g a i bw) = PKGSLOT_OK" if "unat bw = length body" for bw
    using M(2,4-9) leD[OF M(3)] ro bl ug ua ui gc ac and_3[OF ug4 ua4] that
    by (simp add: meta_check_def meta_of_def Let_def u32_less_iff u32_le_iff)
  have "manifest_at (slot_view mem off) ?mt = m\<lparr>m_borrowed := True\<rparr>"
    using bl rd[of g "length (m_got m)"] rd[of a "length (m_abs m)"] rd[of i "length (m_data_init m)"]
    by (intro manifest.equality) (simp_all add: manifest_at_def meta_of_def Let_def gc ac ug ua ui body M(9))
  moreover have "0 < unat (ro_size m)" using M(4) by (simp add: u32_less_iff)
  then have "\<not> sz \<le> PKGSLOT_HEADER" using sz bl ro header_bytes by (simp add: u32_le_iff)
  moreover have "sm_words ?mt ! 17 = of_nat (length body)" "sm_halves ?mt ! 2 = ucast GOT_ENTRY" "sm_halves ?mt ! 3 = ucast ABS_ENTRY"
    by (simp_all add: meta_of_def)
  ultimately show "pkgslot_open syms (slot_view mem off) sz = (PKGSLOT_OK, Some (m\<lparr>m_borrowed := True\<rparr>))"
    unfolding pkgslot_open_def Let_def c32 mbuf mt h commit_read
    using check[OF ub] sz bodyr ub by (simp add: not_less)
  show "pkgslot_blob (slot_view mem off) (ro_size m) = ro"
    using rd[of 0 "length ro"] bl unfolding pkgslot_blob_def ro[symmetric] by (simp add: body)
qed

lemma begin_streams:
  assumes "nor_device fl cont" "slot_fits off sz" "pkgslot_begin fl off sz d = (Some w, d')"
  shows "streams off sz [] w (cont d')"
proof -
  have w: "w = writer_init off sz" "PKGSLOT_HEADER < sz" "sf_erase fl off PKGSLOT_HEADER d = (True, d')"
    using assms(3) by (auto simp: pkgslot_begin_def split: if_splits prod.splits bool.splits)
  have "cont d' = op_effect (Erase (off + of_nat 0) PKGSLOT_HEADER) (cont d)"
    using assms(1) w(3) unfolding nor_device_def by simp
  then have "slot_byte (cont d') off k = 0xFF" if "k < 4096" for k
    using erase_at[of 0 PKGSLOT_HEADER k off "cont d"] that by (simp add: header_bytes)
  moreover have "writer_ok off sz w" using w(2) assms(2) header_bytes by (simp add: w writer_ok_def writer_init_def u32_less_iff)
  ultimately show ?thesis by (simp add: streams_def written_def w writer_init_def pkgslot_crc32_def)
qed

lemma install_steps:
  assumes "pkg_install fl syms off sz cs m d = (True, d')"
  obtains w0 d0 w1 d1 w2 where "pkgslot_begin fl off sz d = (Some w0, d0)" "run_sinks fl cs w0 d0 = (True, w1, d1)"
    "pkgslot_commit fl syms w1 m d1 = (True, w2, d')"
  using assms by (auto simp: pkg_install_def split: prod.splits option.splits)

lemma install_then_open:
  assumes nor: "nor_device fl cont" and "slot_fits off sz" and m: "manifest_ok m"
    and r: "pkg_install fl syms off sz cs m d = (True, d')"
  shows "pkgslot_open syms (slot_view (cont d') off) sz = (PKGSLOT_OK, Some (m\<lparr>m_borrowed := True\<rparr>)) \<and>
    pkgslot_blob (slot_view (cont d') off) (ro_size m) = concat (map snd cs)"
proof -
  let ?ro = "concat (map snd cs)"
  obtain w0 d0 w1 d1 w2 where b: "pkgslot_begin fl off sz d = (Some w0, d0)" and s: "run_sinks fl cs w0 d0 = (True, w1, d1)"
    and c: "pkgslot_commit fl syms w1 m d1 = (True, w2, d')" using r by (rule install_steps)
  have "streams off sz ?ro w1 (cont d1)"
    using run_sinks_streams[OF nor begin_streams[OF nor assms(2) b] s] by simp
  from commit_body[OF nor this m c] obtain w d2 pad where
    w: "written off sz w (init_start m ?ro @ m_data_init m @ pad) (cont d2)" "page w = []" "length ?ro = unat (ro_size m)"
      "commit_headers fl syms m (of_nat (length (got_start m ?ro))) (of_nat (length (abs_start m ?ro)))
        (of_nat (length (init_start m ?ro))) w d2 = (True, w2, d')" .
  let ?body = "init_start m ?ro @ m_data_init m @ pad"
  note W = writtenD[OF w(1)] and ok = writer_okD[OF writtenD(1)[OF w(1)]]
  have len: "length ?body = unat (page_base w)" using W(2) by (simp only: w(2) list.size add_0_right)
  have pb: "page_base w = of_nat (length ?body)" unfolding len by simp
  have crc: "w_crc w = pkgslot_crc32 0 ?body" unfolding W(4) len[symmetric] take_all_iff[THEN iffD2, OF order_refl] ..
  have sz: "4096 + length ?body \<le> unat sz" "unat sz < 2147483648" "4096 \<le> unat sz" using ok unfolding len by linarith+
  have hdr: "length (m_header m) = 48" using m by (simp add: manifest_ok_def)
  note con = commit_headers_contents[OF nor w(1,4) hdr sz(3) refl refl, folded len, unfolded pb crc]
  show ?thesis
    using open_committed[OF m w(3) sz(1,2) refl refl con(1) con(2) con(3)] by blast
qed

text \<open>
  C13. A package that was installed opens, and is the package that was installed.  On any flash that
  erases to ones and programs by clearing bits, when the slot was opened, every piece of the image
  accepted and the commit reported success, \<open>pkgslot_open\<close> answers \<open>PKGSLOT_OK\<close> with the same
  manifest, its arrays now read from the slot, and \<open>pkgslot_blob\<close> is the concatenation of the
  pieces.
\<close>

theorem installed_package_opens:
  assumes "nor_device fl cont" and "slot_fits off sz" and "manifest_ok m"
    and "pkg_install fl syms off sz cs m d = (True, d')"
  shows "pkgslot_open syms (slot_view (cont d') off) sz = (PKGSLOT_OK, Some (m\<lparr>m_borrowed := True\<rparr>)) \<and>
    pkgslot_blob (slot_view (cont d') off) (ro_size m) = concat (map snd cs)"
  by (rule install_then_open[OF assms])

section \<open>A package that is routed to the slot fits it\<close>

definition willing :: "'d slot_flash \<Rightarrow> bool" where
  "willing fl \<longleftrightarrow> (\<forall>a n d. fst (sf_erase fl a n d)) \<and> (\<forall>a b d. fst (sf_program fl a b d))"

definition sectors :: "u32 \<Rightarrow> bool" where "sectors sz \<longleftrightarrow> unat sz mod 4096 = 0"

lemma slot_page_room:
  fixes b e s :: nat
  assumes "b = e" "e mod 4096 = 0" "s mod 4096 = 0" "b < s"
  shows "e + 4096 \<le> s"
proof -
  obtain q where q: "e = 4096 * q" using assms(2) by (auto simp: mod_eq_0_iff_dvd elim: dvdE)
  obtain p where p: "s = 4096 * p" using assms(3) by (auto simp: mod_eq_0_iff_dvd elim: dvdE)
  show ?thesis using assms(1,4) unfolding p q by simp
qed

lemma slot_page_room':
  fixes b s :: nat
  assumes "b mod 256 = 0" "s mod 4096 = 0" "b < s"
  shows "b + 256 \<le> s"
proof -
  obtain q where q: "b = 256 * q" using assms(1) by (auto simp: mod_eq_0_iff_dvd elim: dvdE)
  obtain p where p: "s = 4096 * p" using assms(2) by (auto simp: mod_eq_0_iff_dvd elim: dvdE)
  show ?thesis using assms(3) unfolding p q by simp
qed

lemma flush_page_succeeds:
  assumes fl: "willing fl" "sectors sz" and w: "writer_ok off sz w" and room: "unat (page_base w) + length (page w) + 4096 \<le> unat sz"
  shows "\<exists>w' d'. flush_page fl w d = (True, w', d')"
proof (cases "page w = []")
  case True
  then show ?thesis by (simp add: flush_page_def)
next
  case False
  note ok = writer_okD[OF w] and eq = flush_page_eq[OF w False] and er = erase_to_eq[OF w flush_page_eq(2)[OF w False]]
  have "\<exists>w1 d1. erase_to fl w (page_base w + 256) d = (True, w1, d1)"
  proof (cases "page_base w + 256 \<le> erased_to w")
    case True
    then show ?thesis by (simp add: erase_to_def)
  next
    case nf: False
    have "(unat sz - 4096) mod 4096 = 0" using fl(2) ok(4) by (simp add: sectors_def le_mod_geq)
    moreover have "unat (page_base w) < unat sz - 4096" using False room by (cases "page w") auto
    ultimately have "unat (erased_to w) + 8192 \<le> unat sz"
      using slot_page_room[of "unat (page_base w)" "unat (erased_to w)" "unat sz - 4096"] er(2)[OF nf] ok(3) by simp
    moreover have "\<exists>d1. sf_erase fl a n d = (True, d1)" for a n
      using fl(1) by (metis (full_types) eq_fst_iff willing_def)
    ultimately show ?thesis unfolding er(1) using nf by (auto split: prod.splits) (metis prod.inject)
  qed
  moreover have "\<exists>d1. sf_program fl a b d = (True, d1)" for a b d
    using fl(1) by (metis (full_types) eq_fst_iff willing_def)
  ultimately show ?thesis unfolding eq(1) Let_def by (auto split: prod.splits bool.splits) (metis prod.inject)+
qed

lemma body_append_succeeds:
  assumes fl: "willing fl" "nor_device fl cont" "sectors sz"
  shows "streams off sz xs w (cont d) \<Longrightarrow> length (xs @ data) + 4096 \<le> unat sz \<Longrightarrow> \<exists>w' d'. body_append fl w data d = (True, w', d')"
proof (induction "length data" arbitrary: w xs data d rule: less_induct)
  case less
  have s: "written off sz w xs (cont d)" "length (page w) < 256" "w_cursor w = of_nat (length xs)"
    using less.prems(1) by (simp_all add: streams_def)
  show ?case
  proof (cases "data = []")
    case False
    define n where "n = min (length data) (256 - length (page w))"
    define w1 where "w1 = w\<lparr>page := page w @ take n data, w_cursor := w_cursor w + of_nat n\<rparr>"
    have dn: "length (drop n data) < length data" using False s(2) by (simp add: n_def)
    have n: "length (take n data) = n" "length (page w @ take n data) \<le> 256" using s(2) by (auto simp: n_def)
    have w1: "written off sz w1 (xs @ take n data) (cont d)"
      unfolding w1_def by (rule page_append_written[OF s(1) n(2)])
    have c1: "w_cursor w1 = of_nat (length (xs @ take n data))" unfolding length_append n(1) by (simp add: w1_def s(3))
    note step = body_append_step[OF False s(2), of fl d, folded n_def, unfolded Let_def, folded w1_def]
    have all: "length ((xs @ take n data) @ drop n data) + 4096 \<le> unat sz" using less.prems(2) by simp
    show ?thesis
    proof (cases "length (page w1) = 256")
      case False
      then have "streams off sz (xs @ take n data) w1 (cont d)"
        using w1 n(2) c1 by (simp add: streams_def w1_def)
      from less.hyps[OF dn this all] show ?thesis using step False by simp
    next
      case True
      have "length (xs @ take n data) + 4096 \<le> unat sz" using all by simp
      then have "unat (page_base w1) + length (page w1) + 4096 \<le> unat sz" using writtenD(2)[OF w1] by simp
      from flush_page_succeeds[OF fl(1,3) writtenD(1)[OF w1] this] obtain w2 d2 where f: "flush_page fl w1 d = (True, w2, d2)" by blast
      have "page w1 \<noteq> []" using True by auto
      from flush_page_written[OF fl(2) w1 this f] have "streams off sz (xs @ take n data) w2 (cont d2)"
        using True c1 by (simp add: streams_def)
      from less.hyps[OF dn this all] show ?thesis using step True f by simp
    qed
  qed simp
qed

lemma pad_loop_succeeds:
  assumes fl: "willing fl" "nor_device fl cont" "sectors sz"
  shows "streams off sz xs w (cont d) \<Longrightarrow> length xs + gap + 4096 \<le> unat sz \<Longrightarrow> \<exists>w' d'. pad_loop fl w gap d = (True, w', d')"
proof (induction gap arbitrary: w xs d rule: less_induct)
  case (less gap)
  show ?case
  proof (cases "gap = 0")
    case True
    then show ?thesis by (subst pad_loop.simps) simp
  next
    case False
    let ?n = "min gap 16" and ?ff = "replicate (min gap 16) (0xFF :: u8)"
    have "length (xs @ ?ff) + 4096 \<le> unat sz" using less.prems(2) by simp
    from body_append_succeeds[OF fl less.prems(1) this] obtain w1 d1 where b: "body_append fl w ?ff d = (True, w1, d1)" by blast
    have "gap - ?n < gap" "length (xs @ ?ff) + (gap - ?n) + 4096 \<le> unat sz" using False less.prems(2) by auto
    from less.IH[OF this(1) body_append_streams[OF fl(2) less.prems(1) b] this(2)] show ?thesis
      using b False by (subst pad_loop.simps) simp
  qed
qed

lemma body_pad_succeeds:
  assumes fl: "willing fl" "nor_device fl cont" "sectors sz" and s: "streams off sz xs w (cont d)"
    and room: "length (align4 xs) + 4096 \<le> unat sz"
  shows "\<exists>w' d'. body_pad_to fl w (round_up (w_cursor w) 4) d = (True, w', d')"
proof -
  note sh = streams_short[OF s]
  have c: "unat (round_up (w_cursor w) 4) = (length xs + 3) div 4 * 4"
    using sh by (subst round_up_4) simp_all
  have le: "length xs \<le> (length xs + 3) div 4 * 4" by arith
  have "length xs + (if w_cursor w < round_up (w_cursor w) 4 then unat (round_up (w_cursor w) 4 - w_cursor w) else 0) + 4096 \<le> unat sz"
    using le sh c room by (auto simp: u32_less_iff unat_u32_sub_small length_align4)
  then show ?thesis unfolding body_pad_to_def by (rule pad_loop_succeeds[OF fl s])
qed

lemma erase_to_failed: "failed (fst (snd (erase_to fl w need d))) = failed w"
  by (auto simp: erase_to_def Let_def split: prod.splits bool.splits)

lemma flush_page_failed: "failed (fst (snd (flush_page fl w d))) = failed w"
proof -
  have "failed w1 = failed w" if "erase_to fl w n d = (b, w1, d1)" for b w1 d1 n
    using that erase_to_failed[of fl w n d] by simp
  then show ?thesis by (auto simp: flush_page_def Let_def split: prod.splits bool.splits)
qed

lemma body_append_failed:
  "failed (fst (snd (body_append fl w data d))) = failed w"
proof (induction "length data" arbitrary: w data d rule: less_induct)
  case less
  show ?case
  proof (cases "data = [] \<or> \<not> length (page w) < 256")
    case True
    then show ?thesis by (subst body_append.simps) (auto simp: Let_def)
  next
    case False
    define n where "n = min (length data) (256 - length (page w))"
    define w1 where "w1 = w\<lparr>page := page w @ take n data, w_cursor := w_cursor w + of_nat n\<rparr>"
    have dn: "length (drop n data) < length data" and ne: "data \<noteq> []" "length (page w) < 256"
      using False by (auto simp: n_def)
    note step = body_append_step[OF ne, of fl d, folded n_def, unfolded Let_def, folded w1_def]
    have w1: "failed w1 = failed w" by (simp add: w1_def)
    show ?thesis unfolding step using less.hyps[OF dn] w1 flush_page_failed[of fl w1 d]
      by (auto split: prod.splits bool.splits)
  qed
qed

fun consecutive :: "u32 \<Rightarrow> (u32 \<times> bytes) list \<Rightarrow> bool" where
  "consecutive at [] = True"
| "consecutive at ((a, b) # cs) = (a = at \<and> consecutive (at + of_nat (length b)) cs)"

lemma run_sinks_succeeds:
  assumes fl: "willing fl" "nor_device fl cont" "sectors sz"
  shows "streams off sz xs w (cont d) \<Longrightarrow> \<not> failed w \<Longrightarrow> consecutive (w_cursor w) cs \<Longrightarrow>
    length (xs @ concat (map snd cs)) + 4096 \<le> unat sz \<Longrightarrow> \<exists>w' d'. run_sinks fl cs w d = (True, w', d') \<and> \<not> failed w'"
proof (induction cs arbitrary: xs w d)
  case (Cons c cs)
  obtain at data where c: "c = (at, data)" by (cases c)
  note ok = writer_okD[OF writtenD(1)[of off sz w xs "cont d"]] and sh = streams_short[OF Cons.prems(1)]
  have room: "length (xs @ data) + 4096 \<le> unat sz" using Cons.prems(4) by (simp add: c)
  from body_append_succeeds[OF fl Cons.prems(1) this] obtain w1 d1 where b: "body_append fl w data d = (True, w1, d1)" by blast
  have s1: "streams off sz (xs @ data) w1 (cont d1)" by (rule body_append_streams[OF fl(2) Cons.prems(1) b])
  have f1: "\<not> failed w1" using body_append_failed[of fl w data d] b Cons.prems(2) by simp
  have "unat (PKGSLOT_HEADER + w_cursor w + of_nat (length data)) = 4096 + length xs + length data"
    using sh room by (simp add: unat_u32_add_small unat_of_nat_u32 header_bytes)
  then have "\<not> PKGSLOT_HEADER + w_cursor w + of_nat (length data) > slot_bytes w"
    using Cons.prems(1) room ok(7) by (simp add: streams_def u32_less_iff)
  then have s: "pkgslot_sink fl w at data d = (True, w1, d1)"
    using Cons.prems(2,3) b by (simp add: pkgslot_sink_def andthen_def c)
  have "w_cursor w1 = w_cursor w + of_nat (length data)" using s1 Cons.prems(1) by (simp add: streams_def)
  then have "consecutive (w_cursor w1) cs" using Cons.prems(3) by (simp add: c)
  from Cons.IH[OF s1 f1 this] Cons.prems(4) show ?case by (auto simp: c s)
qed simp

lemma commit_headers_succeeds:
  assumes "willing fl"
  shows "\<exists>w' d'. commit_headers fl syms m g a i w d = (True, w', d')"
proof -
  have "\<exists>d1. sf_program fl a b d = (True, d1)" for a b d
    using assms by (metis (full_types) eq_fst_iff willing_def)
  then show ?thesis unfolding commit_headers_def Let_def andthen_def program_step_def
    by (auto split: prod.splits) (metis prod.inject)+
qed

lemma append_ifI:
  "body_append fl w data d = (True, w', d') \<Longrightarrow> (\<not> c \<Longrightarrow> data = []) \<Longrightarrow> append_if fl c data w d = (True, w', d')"
  by (cases c) (auto simp: append_if_def)

lemma pkgslot_commit_succeeds:
  assumes fl: "willing fl" "nor_device fl cont" "sectors sz" and s: "streams off sz ro w (cont d)" "\<not> failed w"
    and m: "manifest_ok m" and ro: "length ro = unat (ro_size m)"
    and room: "length (init_start m ro @ m_data_init m) + 4096 \<le> unat sz"
  shows "\<exists>w' d'. pkgslot_commit fl syms w m d = (True, w', d')"
proof -
  have empty: "\<not> got_count m \<noteq> 0 \<Longrightarrow> m_got m = []" "\<not> abs_count m \<noteq> 0 \<Longrightarrow> m_abs m = []"
    "\<not> data_size m \<noteq> 0 \<Longrightarrow> m_data_init m = []"
    using m by (auto simp: manifest_ok_def)
  have grow: "length xs \<le> length (align4 xs)" for xs by (simp add: align4_def)
  have r5: "length (align4 (abs_start m ro @ m_abs m)) + 4096 \<le> unat sz" using room by (simp add: init_start_def)
  then have r4: "length (abs_start m ro @ m_abs m) + 4096 \<le> unat sz" using grow[of "abs_start m ro @ m_abs m"] by linarith
  then have r3: "length (align4 (got_start m ro @ m_got m)) + 4096 \<le> unat sz" by (simp add: abs_start_def)
  then have r2: "length (got_start m ro @ m_got m) + 4096 \<le> unat sz" using grow[of "got_start m ro @ m_got m"] by linarith
  then have r1: "length (align4 ro) + 4096 \<le> unat sz" by (simp add: got_start_def)
  have c: "w_cursor w = ro_size m" using s(1) ro by (simp add: streams_def)
  from body_pad_succeeds[OF fl s(1) r1] obtain w1 d1 where e1: "body_pad_to fl w (round_up (w_cursor w) 4) d = (True, w1, d1)" by blast
  have s1: "streams off sz (got_start m ro) w1 (cont d1)" using body_pad_streams(1)[OF fl(2) s(1) e1] by (simp add: got_start_def)
  from body_append_succeeds[OF fl s1 r2] obtain w2 d2 where b2: "body_append fl w1 (m_got m) d1 = (True, w2, d2)" by blast
  note s2 = body_append_streams[OF fl(2) s1 b2] and e2 = append_ifI[OF b2 empty(1)]
  from body_pad_succeeds[OF fl s2 r3] obtain w3 d3 where e3: "body_pad_to fl w2 (round_up (w_cursor w2) 4) d2 = (True, w3, d3)" by blast
  have s3: "streams off sz (abs_start m ro) w3 (cont d3)" using body_pad_streams(1)[OF fl(2) s2 e3] by (simp add: abs_start_def)
  from body_append_succeeds[OF fl s3 r4] obtain w4 d4 where b4: "body_append fl w3 (m_abs m) d3 = (True, w4, d4)" by blast
  note s4 = body_append_streams[OF fl(2) s3 b4] and e4 = append_ifI[OF b4 empty(2)]
  from body_pad_succeeds[OF fl s4 r5] obtain w5 d5 where e5: "body_pad_to fl w4 (round_up (w_cursor w4) 4) d4 = (True, w5, d5)" by blast
  have s5: "streams off sz (init_start m ro) w5 (cont d5)" using body_pad_streams(1)[OF fl(2) s4 e5] by (simp add: init_start_def)
  from body_append_succeeds[OF fl s5 room] obtain w6 d6 where b6: "body_append fl w5 (m_data_init m) d5 = (True, w6, d6)" by blast
  note s6 = body_append_streams[OF fl(2) s5 b6] and e6 = append_ifI[OF b6 empty(3)]
  have w6: "written off sz w6 (init_start m ro @ m_data_init m) (cont d6)" using s6 by (simp add: streams_def)
  have "unat (page_base w6) + length (page w6) + 4096 \<le> unat sz" using writtenD(2)[OF w6] room by simp
  from flush_page_succeeds[OF fl(1,3) writtenD(1)[OF w6] this] obtain w7 d7 where e7: "flush_page fl w6 d6 = (True, w7, d7)" by blast
  obtain w8 d8 where "commit_headers fl syms m (round_up (w_cursor w) 4) (round_up (w_cursor w2) 4) (round_up (w_cursor w4) 4) w7 d7
      = (True, w8, d8)" using commit_headers_succeeds[OF fl(1)] by blast
  then show ?thesis using s(2) c unfolding pkgslot_commit_def Let_def
    by (simp add: andthen_def e1[unfolded c] e2 e3 e4 e5 e6 e7)
qed

lemma ordered_install_succeeds:
  assumes "willing fl" "nor_device fl cont" "slot_fits off sz" "off mod PKGSLOT_ERASE = 0" "sz mod PKGSLOT_ERASE = 0"
    and "PKGSLOT_HEADER < sz" "manifest_ok m" "consecutive 0 cs" "length (concat (map snd cs)) = unat (ro_size m)"
    and room: "length (init_start m (concat (map snd cs)) @ m_data_init m) + 4096 \<le> unat sz"
  shows "\<exists>d'. pkg_install fl syms off sz cs m d = (True, d')"
proof -
  let ?ro = "concat (map snd cs)"
  have sec: "sectors sz"
  proof -
    have "unat (sz mod PKGSLOT_ERASE) = 0" using assms(5) by simp
    then show ?thesis by (simp add: sectors_def unat_mod PKGSLOT_ERASE_def)
  qed
  obtain d0 where e: "sf_erase fl off PKGSLOT_HEADER d = (True, d0)"
    using assms(1) by (metis (full_types) eq_fst_iff willing_def)
  have b: "pkgslot_begin fl off sz d = (Some (writer_init off sz), d0)"
    using assms(4-6) unfolding pkgslot_begin_def e by (simp only: not_le[symmetric]) simp
  note s0 = begin_streams[OF assms(2,3) b]
  have i0: "\<not> failed (writer_init off sz)" "w_cursor (writer_init off sz) = 0" by (simp_all add: writer_init_def)
  have grow: "length xs \<le> length (align4 xs)" for xs by (simp add: align4_def)
  have "length ?ro \<le> length (init_start m ?ro @ m_data_init m)"
    using grow[of ?ro] grow[of "got_start m ?ro @ m_got m"] grow[of "abs_start m ?ro @ m_abs m"]
    unfolding init_start_def abs_start_def got_start_def length_append by linarith
  then have "length ([] @ ?ro) + 4096 \<le> unat sz" using room by simp
  from run_sinks_succeeds[OF assms(1,2) sec s0 i0(1), of cs, unfolded i0(2), OF assms(8) this] obtain w1 d1 where
    r: "run_sinks fl cs (writer_init off sz) d0 = (True, w1, d1)" "\<not> failed w1" by blast
  have "streams off sz ?ro w1 (cont d1)" using run_sinks_streams[OF assms(2) s0 r(1)] by simp
  from pkgslot_commit_succeeds[OF assms(1,2) sec this r(2) assms(7,9) room] obtain w2 d2 where
    "pkgslot_commit fl syms w1 m d1 = (True, w2, d2)" by blast
  then show ?thesis using b r(1) by (simp add: pkg_install_def)
qed

text \<open>
  A package the router sends to the slot installs.  When \<open>pkg_route\<close> answers \<open>PKG_ROUTE_SLOT\<close> for
  a size that bounds the package's content, the slot is aligned to sectors and the device refuses
  nothing, then opening the slot, streaming the image in order and committing succeed.
\<close>

theorem routed_package_installs:
  assumes "willing fl" "nor_device fl cont" "slot_fits off sz" "off mod PKGSLOT_ERASE = 0" "sz mod PKGSLOT_ERASE = 0"
    and "manifest_ok m" "consecutive 0 cs" "length (concat (map snd cs)) = unat (ro_size m)"
    and "pkg_route i = PKG_ROUTE_SLOT" "r_slot_bytes i = sz" "0 < unat (r_need_bytes i)" "unat (r_need_bytes i) < 2 ^ 31"
    and "length (init_start m (concat (map snd cs)) @ m_data_init m) \<le> unat (r_need_bytes i)"
  shows "\<exists>d'. pkg_install fl syms off sz cs m d = (True, d')"
proof -
  have route: "round_up (r_need_bytes i) PKGSLOT_PROG \<le> pkgslot_body_capacity sz"
    using assms(9,10) by (auto simp: pkg_route_def split: if_splits)
  have ru: "unat (round_up (r_need_bytes i) PKGSLOT_PROG) = (unat (r_need_bytes i) + 255) div 256 * 256"
    unfolding units using assms(12) by (subst round_up_nat) simp_all
  have up: "unat (r_need_bytes i) \<le> (unat (r_need_bytes i) + 255) div 256 * 256"
    using div_mult_mod_eq[of "unat (r_need_bytes i) + 255" 256] mod_less_divisor[of 256 "unat (r_need_bytes i) + 255"] by linarith
  then have "unat (round_up (r_need_bytes i) PKGSLOT_PROG) \<noteq> 0" using ru assms(11) by linarith
  then have "pkgslot_body_capacity sz \<noteq> 0" using route by (auto simp: u32_le_iff)
  then have big: "PKGSLOT_HEADER < sz" by (auto simp: pkgslot_body_capacity_def not_le split: if_splits)
  have "unat (pkgslot_body_capacity sz) \<le> unat sz - 4096"
  proof -
    have "unat (sz - PKGSLOT_HEADER) = unat sz - 4096" using big header_bytes by (simp add: unat_u32_sub_small u32_less_iff)
    moreover have "(PKGSLOT_PROG - 1 :: u32) = mask 8" by (simp add: PKGSLOT_PROG_def mask_eq_exp_minus_1)
    ultimately show ?thesis using big by (simp add: pkgslot_body_capacity_def unat_and_not_mask)
  qed
  then have "unat (r_need_bytes i) + 4096 \<le> unat sz"
    using route ru up big header_bytes by (simp add: u32_le_iff u32_less_iff)
  then have "length (init_start m (concat (map snd cs)) @ m_data_init m) + 4096 \<le> unat sz" using assms(13) by linarith
  then show ?thesis by (rule ordered_install_succeeds[OF assms(1-5) big assms(6-8)])
qed

subsection \<open>Concrete installations\<close>

text \<open>A device whose state is its contents and which refuses nothing, and one that refuses to program.\<close>

definition nor_flash :: "(u32 \<Rightarrow> u8) slot_flash" where
  "nor_flash = \<lparr>sf_erase = (\<lambda>a n m. (True, op_effect (Erase a n) m)), sf_program = (\<lambda>a b m. (True, op_effect (Program a b) m))\<rparr>"

definition worn_flash :: "unit slot_flash" where
  "worn_flash = \<lparr>sf_erase = (\<lambda>a n m. (True, m)), sf_program = (\<lambda>a b m. (False, m))\<rparr>"

lemma nor_flash_ok: "nor_device nor_flash id" "willing nor_flash"
  by (simp_all add: nor_device_def willing_def nor_flash_def)

text \<open>A package of eight bytes of code, one table entry and four bytes of data.\<close>

definition small_package :: manifest where
  "small_package = \<lparr>m_header = replicate 48 0, m_api_major = 1, m_api_minor = 24, ro_size = 8, text_size = 8, rodata_off = 8,
     rodata_size = 0, veneer_off = 8, veneer_size = 0, entry_off = 0, got_bytes = 4, data_off = 0, data_size = 4, ram_size = 16,
     got_count = 1, abs_count = 0, m_got = [1, 2, 3, 4, 5, 6, 7, 8], m_abs = [], m_data_init = [9, 9, 9, 9], m_borrowed = False\<rparr>"

definition small_pieces :: "(u32 \<times> bytes) list" where
  "small_pieces = [(0, [1, 2, 3, 4]), (4, [5, 6, 7, 8])]"

definition small_route :: route_in where
  "small_route = \<lparr>r_pic = True, r_svc = True, r_slot_free = True, r_slot_bytes = 8192, r_need_bytes = 100\<rparr>"

lemma small_package_ok: "manifest_ok small_package"
  by (simp add: manifest_ok_def small_package_def RPC_API_MAJOR_def RPC_API_MINOR_def)

lemma small_route_slot: "pkg_route small_route = PKG_ROUTE_SLOT"
  by (simp add: pkg_route_def small_route_def round_up_def pkgslot_body_capacity_def PKGSLOT_PROG_def PKGSLOT_HEADER_def
      PKGSLOT_ERASE_def)

lemma small_pieces_fit: "length (init_start small_package (concat (map snd small_pieces)) @ m_data_init small_package) \<le> 100"
  by (simp add: init_start_def abs_start_def got_start_def align4_def small_package_def small_pieces_def)


lemma routed_package_installs_witness:
  "\<exists>d'. pkg_install nor_flash [] 8192 8192 small_pieces small_package (\<lambda>_. 7) = (True, d')"
  by (rule routed_package_installs[OF nor_flash_ok(2,1), where i = small_route])
    (use small_package_ok small_route_slot small_pieces_fit in
      \<open>simp_all add: slot_fits_def small_route_def small_pieces_def small_package_def PKGSLOT_ERASE_def\<close>)

lemma small_package_installs: "\<exists>d'. pkg_install nor_flash [] 8192 8192 small_pieces small_package (\<lambda>_. 7) = (True, d')"
  using small_pieces_fit by (intro ordered_install_succeeds[OF nor_flash_ok(2,1)] small_package_ok)
    (simp_all add: slot_fits_def small_pieces_def small_package_def PKGSLOT_HEADER_def PKGSLOT_ERASE_def)

lemma installed_package_opens_witness:
  "\<exists>mem. pkgslot_open [] (slot_view mem 8192) 8192 = (PKGSLOT_OK, Some (small_package\<lparr>m_borrowed := True\<rparr>)) \<and>
     pkgslot_blob (slot_view mem 8192) 8 = [1, 2, 3, 4, 5, 6, 7, 8]"
proof -
  obtain d' where i: "pkg_install nor_flash [] 8192 8192 small_pieces small_package (\<lambda>_. 7) = (True, d')"
    using small_package_installs by blast
  have "slot_fits 8192 8192" by (simp add: slot_fits_def)
  from installed_package_opens[OF nor_flash_ok(1) this small_package_ok i] show ?thesis
    by (intro exI[of _ d']) (simp add: small_package_def small_pieces_def)
qed

section \<open>Damage is noticed\<close>

text \<open>A step of the checksum loses nothing: the top bit of the result tells the bit that fell out.\<close>

lemma crc_mask: "- (x AND 1) = (if bit x 0 then - 1 else (0 :: u32))"
  by (simp add: and_one_eq bit_0 odd_iff_mod_2_eq_one)

lemma crc_bit_eq: "crc_bit x = drop_bit 1 x XOR (if bit x 0 then 0xEDB88320 else 0)"
  unfolding crc_bit_def crc_mask by simp

lemma xor_cancel: "a XOR k = b XOR k \<Longrightarrow> a = (b :: u32)" "k XOR a = k XOR b \<Longrightarrow> a = (b :: u32)"
  by (metis xor.assoc xor.right_neutral xor_self_eq, metis xor.assoc xor.left_neutral xor_self_eq)

lemma crc_bit_inj: "crc_bit x = crc_bit y \<Longrightarrow> x = y"
proof -
  assume e: "crc_bit x = crc_bit y"
  have top: "bit (crc_bit v) 31 = bit v 0" for v
    using bit_imp_le_length[of v 32] unfolding crc_bit_eq by (auto simp: bit_simps)
  have b0: "bit x 0 = bit y 0" using e top by metis
  have d: "drop_bit 1 x = drop_bit 1 y" using e unfolding crc_bit_eq b0 by (rule xor_cancel(1))
  show "x = y"
  proof (rule bit_word_eqI)
    fix n
    show "bit x n = bit y n"
    proof (cases n)
      case (Suc k)
      have "bit (drop_bit 1 x) k = bit (drop_bit 1 y) k" by (simp only: d)
      then show ?thesis by (simp add: Suc bit_simps)
    qed (simp add: b0)
  qed
qed

lemma crc_byte_inj: "crc_byte c b = crc_byte c' b' \<Longrightarrow> c XOR ucast b = c' XOR ucast b'"
proof -
  have "(crc_bit ^^ k) x = (crc_bit ^^ k) y \<Longrightarrow> x = y" for k x y
    by (induction k arbitrary: x y) (auto dest: crc_bit_inj)
  then show "crc_byte c b = crc_byte c' b' \<Longrightarrow> c XOR ucast b = c' XOR ucast b'"
    unfolding crc_byte_def by blast
qed

lemma crc_fold_inj: "fold (\<lambda>b c. crc_byte c b) xs c = fold (\<lambda>b c. crc_byte c b) xs c' \<Longrightarrow> c = c'"
proof (induction xs arbitrary: c c')
  case (Cons x xs)
  then have "crc_byte c x = crc_byte c' x" by simp
  then show ?case using crc_byte_inj xor_cancel(1) by blast
qed simp

lemma pkgslot_crc32_update:
  assumes "i < length xs" "b \<noteq> xs ! i"
  shows "pkgslot_crc32 c (xs[i := b]) \<noteq> pkgslot_crc32 c xs"
proof
  let ?f = "\<lambda>b c. crc_byte c b"
  define s where "s = fold ?f (take i xs) (NOT c)"
  assume "pkgslot_crc32 c (xs[i := b]) = pkgslot_crc32 c xs"
  then have "fold ?f (xs[i := b]) (NOT c) = fold ?f xs (NOT c)"
    unfolding pkgslot_crc32_def by (metis bit.double_compl)
  moreover have "fold ?f (xs[i := b]) (NOT c) = fold ?f (drop (Suc i) xs) (crc_byte s b)"
    unfolding upd_conv_take_nth_drop[OF assms(1)] s_def by simp
  moreover have "fold ?f (take i xs @ xs ! i # drop (Suc i) xs) (NOT c) = fold ?f (drop (Suc i) xs) (crc_byte s (xs ! i))"
    unfolding s_def by simp
  ultimately have "fold ?f (drop (Suc i) xs) (crc_byte s b) = fold ?f (drop (Suc i) xs) (crc_byte s (xs ! i))"
    unfolding id_take_nth_drop[OF assms(1), symmetric] by (simp only:)
  then have "crc_byte s b = crc_byte s (xs ! i)" by (rule crc_fold_inj)
  then have "(ucast b :: u32) = ucast (xs ! i)" using crc_byte_inj xor_cancel(2) by blast
  moreover have "b = c" if "(ucast b :: u32) = ucast c" for c :: u8
  proof (rule bit_word_eqI)
    fix n assume "n < LENGTH(8)"
    then have "bit (ucast b :: u32) n = bit b n" "bit (ucast c :: u32) n = bit c n" by (simp_all add: bit_simps)
    then show "bit b n = bit c n" using that by simp
  qed
  ultimately show False using assms(2) by blast
qed

lemma get32_inj:
  assumes "get32 b k = get32 b' k" "j < 4"
  shows "b ! (k + j) = b' ! (k + j)"
proof (rule bit_word_eqI)
  fix n assume n: "n < LENGTH(8)"
  have byte: "bit (get32 b k) (8 * j + n) = bit (b ! (k + j)) n" for b :: bytes
  proof -
    have "j = 0 \<or> j = 1 \<or> j = 2 \<or> j = 3" using assms(2) by auto
    moreover have "\<not> bit (v :: u8) m" if "8 \<le> m" for v m using that bit_imp_le_length[of v m] by auto
    ultimately show ?thesis using n by (elim disjE) (auto simp: get32_def bit_simps)
  qed
  show "bit (b ! (k + j)) n = bit (b' ! (k + j)) n" using byte[of b] byte[of b'] assms(1) by simp
qed

text \<open>The bytes of a slot that decide whether it opens: the used part of the commit record, the metadata, the body.\<close>

definition body_bytes_of :: "(u32 \<Rightarrow> u8) \<Rightarrow> nat" where
  "body_bytes_of mem = unat (get32 (mem_bytes mem 0 32) 8)"

definition guarded :: "(u32 \<Rightarrow> u8) \<Rightarrow> nat \<Rightarrow> bool" where
  "guarded mem p \<longleftrightarrow> p < 20 \<or> (256 \<le> p \<and> p < 768) \<or> (4096 \<le> p \<and> p < 4096 + body_bytes_of mem)"

lemma mem_bytes_nth: "i < n \<Longrightarrow> mem_bytes mem a n ! i = mem (a + of_nat i)" "length (mem_bytes mem a n) = n"
  by (simp_all add: mem_bytes_def)

lemma at_offset: "unat a \<le> unat p \<Longrightarrow> a + of_nat (unat p - unat a) = (p :: u32)"
  by (simp add: of_nat_diff)

lemma mem_bytes_other:
  assumes "\<And>i. i < n \<Longrightarrow> a + of_nat i \<noteq> p"
  shows "mem_bytes (mem(p := b)) a n = mem_bytes mem a n"
  using assms by (simp add: mem_bytes_def)

lemma mem_bytes_hit:
  assumes "unat a + n < 4294967296" "unat a \<le> unat p" "unat p < unat a + n"
  shows "mem_bytes (mem(p := b)) a n = (mem_bytes mem a n)[unat p - unat a := b]"
proof (rule nth_equalityI)
  fix i assume "i < length (mem_bytes (mem(p := b)) a n)"
  then have i: "i < n" by (simp add: mem_bytes_def)
  have "unat (a + of_nat i) = unat a + i"
    using i assms(1) by (simp add: unat_u32_add_small unat_of_nat_u32)
  then have "a + of_nat i = p \<longleftrightarrow> i = unat p - unat a" using assms(2) by (auto simp: word_unat_eq_iff)
  then show "mem_bytes (mem(p := b)) a n ! i = (mem_bytes mem a n)[unat p - unat a := b] ! i"
    using i by (simp add: mem_bytes_def nth_list_update)
qed (simp add: mem_bytes_def)

lemma mem_bytes_miss:
  assumes "unat a + n < 4294967296" "unat p < unat a \<or> unat a + n \<le> unat p"
  shows "mem_bytes (mem(p := b)) a n = mem_bytes mem a n"
proof (rule mem_bytes_other)
  fix i assume i: "i < n"
  have "unat (a + of_nat i) = unat a + i"
    using i assms(1) by (simp add: unat_u32_add_small unat_of_nat_u32)
  then show "a + of_nat i \<noteq> p" using assms(2) i by auto
qed

lemma get32_update_other: "j < k \<or> k + 4 \<le> j \<Longrightarrow> get32 (xs[j := b]) k = get32 xs k"
  by (auto simp: get32_def)

lemma get32_update_hit:
  assumes "k \<le> j" "j < k + 4" "j < length xs" "b \<noteq> xs ! j"
  shows "get32 (xs[j := b]) k \<noteq> get32 xs k"
proof
  assume "get32 (xs[j := b]) k = get32 xs k"
  from get32_inj[OF this, of "j - k"] have "xs[j := b] ! j = xs ! j" using assms(1,2) by simp
  then show False using assms(3,4) by simp
qed

text \<open>What a slot that opens satisfies.\<close>

lemma pkgslot_open_okD:
  assumes "pkgslot_open syms mem sz = (PKGSLOT_OK, r)"
  shows "PKGSLOT_HEADER < sz" "get32 (mem_bytes mem 0 32) 0 = PKGSLOT_MAGIC" "get32 (mem_bytes mem 0 32) 4 = PKGSLOT_FORMAT"
    "pkgslot_crc32 0 (mem_bytes mem PKGSLOT_META_OFF 512) = get32 (mem_bytes mem 0 32) 16"
    "get32 (mem_bytes mem 0 32) 8 = sm_words (meta_read (mem_bytes mem PKGSLOT_META_OFF 512)) ! 17"
    "4096 + body_bytes_of mem \<le> unat sz"
    "sm_halves (meta_read (mem_bytes mem PKGSLOT_META_OFF 512)) ! 2 = ucast GOT_ENTRY"
    "sm_halves (meta_read (mem_bytes mem PKGSLOT_META_OFF 512)) ! 3 = ucast ABS_ENTRY"
    "pkgslot_crc32 0 (mem_bytes mem PKGSLOT_HEADER (body_bytes_of mem)) = get32 (mem_bytes mem 0 32) 12"
  using assms unfolding pkgslot_open_def Let_def body_bytes_of_def
  by (auto split: if_splits slot_status.splits)

text \<open>
  C14. A damaged slot is refused, with the reason.  Whatever a slot that opens holds, changing any one
  byte of the commit record's fields, of the metadata or of the body to any other value makes
  \<open>pkgslot_open\<close> answer \<open>PKGSLOT_EMPTY\<close> for the magic, \<open>PKGSLOT_BAD_FORMAT\<close> for the format and
  \<open>PKGSLOT_BAD_CRC\<close> for everything else, and give no manifest.
\<close>

theorem damaged_slot_refused:
  assumes opens: "pkgslot_open syms mem sz = (PKGSLOT_OK, r)" and g: "guarded mem (unat p)" and b: "b \<noteq> mem p"
  shows "pkgslot_open syms (mem(p := b)) sz =
    (if unat p < 4 then PKGSLOT_EMPTY else if unat p < 8 then PKGSLOT_BAD_FORMAT else PKGSLOT_BAD_CRC, None)"
proof -
  note D = pkgslot_open_okD[OF opens]
  let ?m = "mem(p := b)" and ?c = "mem_bytes mem 0 32"
  have meta: "unat PKGSLOT_META_OFF = 256" by (simp add: PKGSLOT_META_OFF_def PKGSLOT_PROG_def)
  have sz: "\<not> sz \<le> PKGSLOT_HEADER" using D(1) by simp
  have bodyfit: "4096 + body_bytes_of mem < 4294967296" using D(6) unat_u32_less[of sz] by linarith
  consider (commit) "unat p < 20" | (meta) "256 \<le> unat p" "unat p < 768" | (body) "4096 \<le> unat p" "unat p < 4096 + body_bytes_of mem"
    using g by (auto simp: guarded_def)
  then show ?thesis
  proof cases
    case commit
    have c: "mem_bytes ?m 0 32 = ?c[unat p := b]" using mem_bytes_hit[of 0 32 p mem b] commit by simp
    have mb: "mem_bytes ?m PKGSLOT_META_OFF 512 = mem_bytes mem PKGSLOT_META_OFF 512"
      using commit by (intro mem_bytes_miss) (simp_all add: meta)
    have bd: "mem_bytes ?m PKGSLOT_HEADER (body_bytes_of mem) = mem_bytes mem PKGSLOT_HEADER (body_bytes_of mem)"
      using commit bodyfit by (intro mem_bytes_miss) (simp_all add: header_bytes)
    have at: "?c ! unat p = mem p" "unat p < length ?c" using commit by (simp_all add: mem_bytes_nth)
    have hit: "get32 (?c[unat p := b]) k \<noteq> get32 ?c k" if "k \<le> unat p" "unat p < k + 4" for k
      using that at b by (intro get32_update_hit) simp_all
    note miss = get32_update_other[of "unat p" _ ?c b]
    consider "unat p < 4" | "4 \<le> unat p" "unat p < 8" | "8 \<le> unat p" "unat p < 12" | "12 \<le> unat p" "unat p < 16" | "16 \<le> unat p"
      by linarith
    then show ?thesis
    proof cases
      case 1
      then show ?thesis using sz hit[of 0] D(2) unfolding pkgslot_open_def Let_def c by simp
    next
      case 2
      then show ?thesis using sz hit[of 4] miss[of 0] D(2,3) unfolding pkgslot_open_def Let_def c by simp
    next
      case 3
      then show ?thesis using sz hit[of 8] miss[of 0] miss[of 4] miss[of 16] D(2-5) unfolding pkgslot_open_def Let_def c mb by simp
    next
      case 4
      then show ?thesis using sz hit[of 12] miss[of 0] miss[of 4] miss[of 8] miss[of 16] D(2-9) bd
        unfolding pkgslot_open_def Let_def c mb body_bytes_of_def by simp
    next
      case 5
      then show ?thesis using sz hit[of 16] miss[of 0] miss[of 4] commit D(2-4) unfolding pkgslot_open_def Let_def c mb by simp
    qed
  next
    case m: meta
    have c: "mem_bytes ?m 0 32 = ?c" using m by (intro mem_bytes_miss) simp_all
    let ?mb = "mem_bytes mem PKGSLOT_META_OFF 512"
    have mb: "mem_bytes ?m PKGSLOT_META_OFF 512 = ?mb[unat p - 256 := b]"
      using mem_bytes_hit[of PKGSLOT_META_OFF 512 p mem b] m by (simp add: meta)
    have "PKGSLOT_META_OFF + of_nat (unat p - 256) = p"
      using m at_offset[of PKGSLOT_META_OFF p] by (simp only: meta)
    then have "?mb ! (unat p - 256) = mem p" "unat p - 256 < length ?mb" using m by (simp_all add: mem_bytes_nth)
    then have "pkgslot_crc32 0 (?mb[unat p - 256 := b]) \<noteq> pkgslot_crc32 0 ?mb"
      using b by (intro pkgslot_crc32_update) simp_all
    then show ?thesis using sz D(2-4) m unfolding pkgslot_open_def Let_def c mb by simp
  next
    case m: body
    have c: "mem_bytes ?m 0 32 = ?c" using m by (intro mem_bytes_miss) simp_all
    have mb: "mem_bytes ?m PKGSLOT_META_OFF 512 = mem_bytes mem PKGSLOT_META_OFF 512"
      using m by (intro mem_bytes_miss) (simp_all add: meta)
    let ?bd = "mem_bytes mem PKGSLOT_HEADER (body_bytes_of mem)"
    have bd: "mem_bytes ?m PKGSLOT_HEADER (body_bytes_of mem) = ?bd[unat p - 4096 := b]"
      using mem_bytes_hit[of PKGSLOT_HEADER "body_bytes_of mem" p mem b] m bodyfit by (simp add: header_bytes)
    have "PKGSLOT_HEADER + of_nat (unat p - 4096) = p"
      using m at_offset[of PKGSLOT_HEADER p] by (simp only: header_bytes)
    then have "?bd ! (unat p - 4096) = mem p" "unat p - 4096 < length ?bd" using m by (simp_all add: mem_bytes_nth)
    then have "pkgslot_crc32 0 (?bd[unat p - 4096 := b]) \<noteq> pkgslot_crc32 0 ?bd"
      using b by (intro pkgslot_crc32_update) simp_all
    then show ?thesis using sz D(2-9) m bd unfolding pkgslot_open_def Let_def c mb body_bytes_of_def by simp
  qed
qed

lemma damaged_slot_refused_witness:
  "\<exists>mem. fst (pkgslot_open [] mem 8192) = PKGSLOT_OK \<and>
     pkgslot_open [] (mem(300 := mem 300 + 1)) 8192 = (PKGSLOT_BAD_CRC, None)"
proof -
  obtain d' where i: "pkg_install nor_flash [] 8192 8192 small_pieces small_package (\<lambda>_. 7) = (True, d')"
    using small_package_installs by blast
  let ?mem = "slot_view (id d') 8192"
  have "slot_fits 8192 8192" by (simp add: slot_fits_def)
  from install_then_open[OF nor_flash_ok(1) this small_package_ok i]
  have ok: "pkgslot_open [] ?mem 8192 = (PKGSLOT_OK, Some (small_package\<lparr>m_borrowed := True\<rparr>))" by blast
  have "x + 1 \<noteq> x" for x :: u8 by simp
  then have "pkgslot_open [] (?mem(300 := ?mem 300 + 1)) 8192 = (PKGSLOT_BAD_CRC, None)"
    using damaged_slot_refused[OF ok, of 300] by (simp add: guarded_def)
  then show ?thesis using ok by (intro exI[of _ ?mem]) simp
qed

end
