(* ===== verification/Secret.thy ===== *)
theory Secret
  imports Sha256 CLib
begin

text \<open>
  \<open>os/core/secret.cpp\<close>: sealing a short secret under a key and a context, and the base64 text
  it is kept in.  Everything is built from the modelled HMAC.  C strings are lists of characters
  without the terminator; the wiping of the buffers after use leaves no trace in a functional
  model.  A result that leaves the output buffer alone is \<open>None\<close> in its place.
\<close>

section \<open>Model\<close>

definition SECRET_KEY_LEN :: nat where "SECRET_KEY_LEN = 32"
definition SECRET_MAX_PLAIN :: nat where "SECRET_MAX_PLAIN = 63"
definition SECRET_TAG_LEN :: nat where "SECRET_TAG_LEN = 6"
definition SECRET_SEAL_MAX :: nat where "SECRET_SEAL_MAX = 96"

datatype secret_result = SECRET_OK | SECRET_NOT_SEALED | SECRET_BAD

definition B64 :: string where
  "B64 = ''ABCDEFGHIJKLMNOPQRSTUVWXYZabcdefghijklmnopqrstuvwxyz0123456789-_''"

definition b64_char :: "u32 \<Rightarrow> char" where "b64_char v = B64 ! unat (v AND 63)"

text \<open>The group of three bytes as a number, and the four characters it is written as.\<close>

definition b64_join :: "u8 \<Rightarrow> u8 \<Rightarrow> u8 \<Rightarrow> u32" where
  "b64_join a b c = push_bit 16 (ucast a) OR push_bit 8 (ucast b) OR ucast c"

definition b64_four :: "u32 \<Rightarrow> string" where
  "b64_four v = [b64_char (drop_bit 18 v), b64_char (drop_bit 12 v), b64_char (drop_bit 6 v), b64_char v]"

fun b64_encode :: "bytes \<Rightarrow> string" where
  "b64_encode [] = []"
| "b64_encode [a] = take 2 (b64_four (b64_join a 0 0))"
| "b64_encode [a, b] = take 3 (b64_four (b64_join a b 0))"
| "b64_encode (a # b # c # r) = b64_four (b64_join a b c) @ b64_encode r"

definition b64_val :: "char \<Rightarrow> u32 option" where
  "b64_val c = (let n = of_char c :: nat in
     if 65 \<le> n \<and> n \<le> 90 then Some (of_nat (n - 65))
     else if 97 \<le> n \<and> n \<le> 122 then Some (of_nat (n - 97 + 26))
     else if 48 \<le> n \<and> n \<le> 57 then Some (of_nat (n - 48 + 52))
     else if c = CHR ''-'' then Some 62
     else if c = CHR ''_'' then Some 63 else None)"

text \<open>One group of up to four characters: the first bad one refuses the whole text.\<close>

definition b64_word :: "u32 list \<Rightarrow> u32" where
  "b64_word v = (let v = v @ replicate (4 - length v) 0 in
     push_bit 18 (v ! 0) OR push_bit 12 (v ! 1) OR push_bit 6 (v ! 2) OR v ! 3)"

function b64_groups :: "string \<Rightarrow> nat \<Rightarrow> bytes option" where
  "b64_groups s room =
     (if s = [] then Some []
      else let g = take 4 s; n = length g - 1 in
        case those (map b64_val g) of
          None \<Rightarrow> None
        | Some v \<Rightarrow>
            if n > room then None
            else let w = b64_word v in
              map_option ((@) (take n [ucast (drop_bit 16 w), ucast (drop_bit 8 w), ucast w]))
                (b64_groups (drop 4 s) (room - n)))"
  by pat_completeness auto
termination
  by (relation "measure (\<lambda>(s, room). length s)") auto

declare b64_groups.simps [simp del]

definition b64_decode :: "string \<Rightarrow> nat \<Rightarrow> bytes option" where
  "b64_decode s cap = (if length s mod 4 = 1 then None else b64_groups s cap)"

definition to_bytes :: "string \<Rightarrow> bytes" where "to_bytes s = map of_char s"

definition from_bytes :: "bytes \<Rightarrow> string" where "from_bytes b = map (\<lambda>x. char_of (unat x)) b"

definition subkeys :: "bytes \<Rightarrow> bytes \<times> bytes" where
  "subkeys key = (hmac_sha256 key (to_bytes ''rpc.secret.enc.v1''), hmac_sha256 key (to_bytes ''rpc.secret.mac.v1''))"

definition make_tag :: "bytes \<Rightarrow> string \<Rightarrow> bytes \<Rightarrow> bytes" where
  "make_tag mk ctx plain = take SECRET_TAG_LEN (hmac_sha256 mk (of_nat (length ctx) # to_bytes ctx @ plain))"

function keystream :: "bytes \<Rightarrow> bytes \<Rightarrow> nat \<Rightarrow> bytes \<Rightarrow> bytes" where
  "keystream ek tag j data =
     (if data = [] then []
      else map2 (XOR) (take 32 data) (hmac_sha256 ek (tag @ [of_nat j])) @ keystream ek tag (j + 1) (drop 32 data))"
  by pat_completeness auto
termination
  by (relation "measure (\<lambda>(ek, tag, j, data). length data)") auto

declare keystream.simps [simp del]

definition apply_keystream :: "bytes \<Rightarrow> bytes \<Rightarrow> bytes \<Rightarrow> bytes" where
  "apply_keystream ek tag data = keystream ek tag 0 data"

definition secret_is_sealed :: "string \<Rightarrow> bool" where
  "secret_is_sealed s = (take 2 s = ''~1'')"

definition secret_seal :: "bytes \<Rightarrow> string \<Rightarrow> string \<Rightarrow> nat \<Rightarrow> bool \<times> string option" where
  "secret_seal key ctx plain cap =
     (if cap = 0 then (False, None)
      else let n = length plain in
        if n = 0 then (True, Some [])
        else if n > SECRET_MAX_PLAIN \<or> length ctx > 255 then (False, None)
        else case subkeys key of (ek, mk) \<Rightarrow>
          let tag = make_tag mk ctx (to_bytes plain);
              blob = tag @ apply_keystream ek tag (to_bytes plain);
              text_len = 2 + ((SECRET_TAG_LEN + n) * 4 + 2) div 3
          in if text_len + 1 \<le> cap then (True, Some (''~1'' @ b64_encode blob)) else (False, Some []))"

definition tag_diff :: "bytes \<Rightarrow> bytes \<Rightarrow> bytes \<Rightarrow> u8" where
  "tag_diff tag given pt =
     fold (\<lambda>p d. if p = 0 then d OR 1 else d) pt (fold (\<lambda>(a, b) d. d OR (a XOR b)) (zip tag given) 0)"

definition secret_open :: "bytes \<Rightarrow> string \<Rightarrow> string \<Rightarrow> nat \<Rightarrow> secret_result \<times> string" where
  "secret_open key ctx sealed cap =
     (if cap = 0 then (SECRET_BAD, [])
      else if \<not> secret_is_sealed sealed then (SECRET_NOT_SEALED, [])
      else if length ctx > 255 then (SECRET_BAD, [])
      else case b64_decode (drop 2 sealed) (SECRET_TAG_LEN + SECRET_MAX_PLAIN) of
        None \<Rightarrow> (SECRET_BAD, [])
      | Some blob \<Rightarrow>
          if length blob \<le> SECRET_TAG_LEN then (SECRET_BAD, [])
          else let n = length blob - SECRET_TAG_LEN in
            if n + 1 > cap then (SECRET_BAD, [])
            else case subkeys key of (ek, mk) \<Rightarrow>
              let given = take SECRET_TAG_LEN blob;
                  pt = apply_keystream ek given (drop SECRET_TAG_LEN blob);
                  tag = make_tag mk ctx pt
              in if tag_diff tag given pt = 0 then (SECRET_OK, from_bytes pt) else (SECRET_BAD, []))"

section \<open>The text encoding\<close>

lemma b64_alphabet: "map b64_val B64 = map (\<lambda>i. Some (of_nat i)) [0..<64]"
  by (simp add: B64_def b64_val_def upt_rec)

lemma and_63: "unat (v AND 63 :: u32) < 64"
proof -
  have "(63 :: u32) = mask 6" by (simp add: mask_eq_exp_minus_1)
  then have "v AND 63 = take_bit 6 v" by (simp only: take_bit_eq_mask)
  then show ?thesis by (simp add: unat_take_bit_u32)
qed

lemma b64_val_char: "b64_val (b64_char v) = Some (v AND 63)"
proof -
  have "map b64_val B64 ! unat (v AND 63) = Some (of_nat (unat (v AND 63)))"
    unfolding b64_alphabet using and_63[of v] by simp
  moreover have "length B64 = 64" by (simp add: B64_def)
  ultimately show ?thesis using and_63[of v] by (simp add: b64_char_def)
qed

lemma b64_join_bits:
  "push_bit 18 (drop_bit 18 (b64_join a b c) AND 63) OR push_bit 12 (drop_bit 12 (b64_join a b c) AND 63) OR
   push_bit 6 (drop_bit 6 (b64_join a b c) AND 63) OR (b64_join a b c AND 63) = b64_join a b c"
proof -
  have m: "(63 :: u32) = mask 6" by (simp add: mask_eq_exp_minus_1)
  define v where "v = b64_join a b c"
  have high: "\<not> bit v n" if "24 \<le> n" for n
    using that bit_imp_le_length[of a "n - 16"] bit_imp_le_length[of b "n - 8"] bit_imp_le_length[of c n]
    by (auto simp: v_def b64_join_def bit_simps)
  show ?thesis unfolding v_def[symmetric] m
  proof (rule bit_word_eqI)
    fix n assume "n < LENGTH(32)"
    have "n < 6 \<or> (6 \<le> n \<and> n < 12) \<or> (12 \<le> n \<and> n < 18) \<or> (18 \<le> n \<and> n < 24) \<or> 24 \<le> n" by auto
    then show "bit (push_bit 18 (drop_bit 18 v AND mask 6) OR push_bit 12 (drop_bit 12 v AND mask 6) OR
        push_bit 6 (drop_bit 6 v AND mask 6) OR (v AND mask 6)) n = bit v n"
      using high[of n] by (elim disjE) (auto simp: bit_simps)
  qed
qed

lemma b64_join_bytes:
  "ucast (drop_bit 16 (b64_join a b c)) = a" "ucast (drop_bit 8 (b64_join a b c)) = b" "ucast (b64_join a b c) = c"
  by (rule bit_word_eqI, use bit_imp_le_length in \<open>force simp: b64_join_def bit_simps\<close>)+


lemma b64_four_vals: "those (map b64_val (b64_four v)) =
    Some [drop_bit 18 v AND 63, drop_bit 12 v AND 63, drop_bit 6 v AND 63, v AND 63]"
  by (simp add: b64_four_def b64_val_char)

lemma b64_two_vals: "those (map b64_val (take 2 (b64_four v))) = Some [drop_bit 18 v AND 63, drop_bit 12 v AND 63]"
  by (simp add: b64_four_def b64_val_char)

lemma b64_three_vals: "those (map b64_val (take 3 (b64_four v))) =
    Some [drop_bit 18 v AND 63, drop_bit 12 v AND 63, drop_bit 6 v AND 63]"
  by (simp add: b64_four_def b64_val_char)

text \<open>What the missing characters of a short group would have been.\<close>

lemma b64_join_tail: "b64_join a b 0 AND 63 = 0" "drop_bit 6 (b64_join a 0 0) AND 63 = 0"
proof -
  have m: "(63 :: u32) = mask 6" by (simp add: mask_eq_exp_minus_1)
  show "b64_join a b 0 AND 63 = 0" "drop_bit 6 (b64_join a 0 0) AND 63 = 0"
    unfolding m by (rule bit_word_eqI, auto simp: b64_join_def bit_simps)+
qed

lemma b64_words:
  "b64_word [drop_bit 18 (b64_join a b c) AND 63, drop_bit 12 (b64_join a b c) AND 63, drop_bit 6 (b64_join a b c) AND 63,
     b64_join a b c AND 63] = b64_join a b c"
  "b64_word [drop_bit 18 (b64_join a b 0) AND 63, drop_bit 12 (b64_join a b 0) AND 63, drop_bit 6 (b64_join a b 0) AND 63] =
     b64_join a b 0"
  "b64_word [drop_bit 18 (b64_join a 0 0) AND 63, drop_bit 12 (b64_join a 0 0) AND 63] = b64_join a 0 0"
  using b64_join_bits[of a b c] b64_join_bits[of a b 0] b64_join_bits[of a 0 0] unfolding b64_join_tail
  by (simp_all add: b64_word_def or.assoc)

lemma b64_four_length [simp]: "length (b64_four v) = 4"
  by (simp add: b64_four_def)

lemma b64_groups_encode: "length bs \<le> room \<Longrightarrow> b64_groups (b64_encode bs) room = Some bs"
proof (induction bs arbitrary: room rule: b64_encode.induct)
  case 1
  then show ?case by (simp add: b64_groups.simps)
next
  case (2 a)
  have ne: "take 2 (b64_four (b64_join a 0 0)) \<noteq> []" by (simp add: b64_four_def)
  show ?case using 2 ne
    by (subst b64_groups.simps) (simp add: b64_two_vals b64_words(3) b64_join_bytes b64_groups.simps)
next
  case (3 a b)
  have ne: "take 3 (b64_four (b64_join a b 0)) \<noteq> []" by (simp add: b64_four_def)
  show ?case using 3 ne
    by (subst b64_groups.simps) (simp add: b64_three_vals b64_words(2) b64_join_bytes b64_groups.simps)
next
  case (4 a b c r)
  have ne: "b64_four (b64_join a b c) @ b64_encode r \<noteq> []" by (simp add: b64_four_def)
  show ?case using 4 ne
    by (subst b64_groups.simps) (simp add: b64_four_vals b64_words(1) b64_join_bytes)
qed

lemma b64_encode_length: "length (b64_encode bs) = (length bs * 4 + 2) div 3"
proof (induction bs rule: b64_encode.induct)
  case (4 a b c r)
  have "(length (a # b # c # r) * 4 + 2) div 3 = (length r * 4 + 2) div 3 + 4" by simp
  then show ?case using 4 by simp
qed simp_all

lemma b64_decode_encode: "length bs \<le> cap \<Longrightarrow> b64_decode (b64_encode bs) cap = Some bs"
proof -
  have "(n * 4 + 2) div 3 mod 4 \<noteq> 1" for n :: nat
  proof -
    have "n = 3 * (n div 3) + n mod 3" by simp
    moreover have "n mod 3 = 0 \<or> n mod 3 = 1 \<or> n mod 3 = 2" by linarith
    ultimately show ?thesis by (elim disjE; (subst (asm) mod_mult_self2_is_0)?) presburger+
  qed
  then show "length bs \<le> cap \<Longrightarrow> b64_decode (b64_encode bs) cap = Some bs"
    by (simp add: b64_decode_def b64_encode_length b64_groups_encode)
qed

section \<open>Sealing\<close>

lemma sha_round_length: "length st = 8 \<Longrightarrow> length (sha_round w i st) = 8"
  by (cases "(w, i, st)" rule: sha_round.cases) (auto simp: Let_def)

lemma transform_length: "length st = 8 \<Longrightarrow> length (transform st p) = 8"
proof -
  assume "length st = 8"
  moreover from this have "length (fold (sha_round w) is st) = 8" for w "is"
    by (induction "is" arbitrary: st) (auto intro: sha_round_length)
  ultimately show ?thesis by (simp add: transform_def)
qed

lemma sha_update_length: "length (sha_state c) = 8 \<Longrightarrow> length (sha_state (sha256_update c bs)) = 8"
  by (induction c bs rule: sha256_update.induct) (auto simp: sha_byte_def Let_def transform_length)

lemma sha_final_length: "length (sha_state c) = 8 \<Longrightarrow> length (sha256_final c) = 32"
  by (auto simp: sha256_final_def digest_bytes_def Let_def length_concat comp_def sum_list_triv transform_length split: if_splits)

lemma hmac_length: "length (hmac_sha256 key msg) = 32"
  by (auto simp: hmac_sha256_def Let_def sha256_init_def sha_H0_def intro!: sha_final_length sha_update_length)

lemma make_tag_length: "length (make_tag mk ctx p) = 6"
  by (simp add: make_tag_def hmac_length SECRET_TAG_LEN_def)

text \<open>The keystream is its own inverse.\<close>

lemma keystream_length: "length (keystream ek tag j data) = length data"
proof (induction ek tag j data rule: keystream.induct)
  case (1 ek tag j data)
  then show ?case by (subst keystream.simps) (auto simp: hmac_length)
qed

lemma xor_twice: "map2 (XOR) (map2 (XOR) xs ks) ks = xs" if "length xs \<le> length ks" for xs ks :: bytes
  using that by (induction xs ks rule: list_induct2') (auto simp: xor.assoc)

lemma keystream_twice: "keystream ek tag j (keystream ek tag j data) = data"
proof (induction ek tag j data rule: keystream.induct)
  case (1 ek tag j data)
  show ?case
  proof (cases "data = []")
    case True
    then show ?thesis by (simp add: keystream.simps)
  next
    case False
    let ?k = "hmac_sha256 ek (tag @ [of_nat j])"
    let ?h = "map2 (XOR) (take 32 data) ?k" and ?t = "keystream ek tag (j + 1) (drop 32 data)"
    have e: "keystream ek tag j data = ?h @ ?t" using False by (subst keystream.simps) simp
    have ne: "?h @ ?t \<noteq> []" using False hmac_length[of ek "tag @ [of_nat j]"] by (cases data) (auto simp: zip_eq_Nil_iff)
    have lh: "length ?h = min (length data) 32" by (simp add: hmac_length)
    have th: "take 32 (?h @ ?t) = ?h" "drop 32 (?h @ ?t) = ?t"
    proof (atomize(full), cases "32 \<le> length data")
      case True
      then have "length ?h = 32" using lh by simp
      then show "take 32 (?h @ ?t) = ?h \<and> drop 32 (?h @ ?t) = ?t" by (simp only: take_append drop_append) simp
    next
      case False
      then have "?t = []" by (simp add: keystream.simps)
      moreover have "length ?h \<le> 32" using lh by simp
      ultimately show "take 32 (?h @ ?t) = ?h \<and> drop 32 (?h @ ?t) = ?t" by simp
    qed
    show ?thesis unfolding e using ne 1[OF False]
      by (subst keystream.simps) (simp only: if_False th xor_twice hmac_length length_take, simp)
  qed
qed

lemma char_back: "char_of (unat (of_char c :: u8)) = c"
proof -
  have "(of_char c :: nat) < 256" by simp
  then have "unat (of_nat (of_char c) :: u8) = of_char c" by (simp add: unat_of_nat take_bit_eq_mod)
  then show ?thesis by (simp add: of_nat_of_char)
qed

lemma byte_back: "of_char (char_of (unat x) :: char) = (x :: u8)"
proof -
  have "unat x < 256" using unsigned_less[of x] by simp
  then have "of_char (char_of (unat x) :: char) = unat x" by simp
  then have "of_nat (of_char (char_of (unat x) :: char)) = (of_nat (unat x) :: u8)" by (simp only:)
  then show ?thesis by (simp only: of_nat_of_char) simp
qed

lemma bytes_string: "from_bytes (to_bytes s) = s" "to_bytes (from_bytes p) = p"
  by (simp_all add: from_bytes_def to_bytes_def comp_def char_back byte_back)

lemma to_bytes_nonzero: "0 \<in> set (to_bytes s) \<longleftrightarrow> NUL \<in> set s"
proof -
  have "of_char c = (0 :: u8) \<longleftrightarrow> c = NUL" for c
  proof
    assume "of_char c = (0 :: u8)"
    then have "c = char_of (0 :: nat)" using char_back[of c] by simp
    then show "c = NUL" by (simp add: char_of_def)
  qed simp
  then show ?thesis by (force simp: to_bytes_def)
qed

text \<open>The comparison accepts equal tags and a plaintext without a terminator, and nothing else.\<close>

lemma or_eq_0: "(a OR b :: u8) = 0 \<longleftrightarrow> a = 0 \<and> b = 0"
  by (auto simp: bit_eq_iff bit_simps)

lemma xor_eq_0: "(a XOR b :: u8) = 0 \<longleftrightarrow> a = b"
  by (auto simp: bit_eq_iff bit_simps)

lemma zip_diff: "length xs = length ys \<Longrightarrow> fold (\<lambda>(a, b) d. d OR (a XOR b)) (zip xs ys) d = (0 :: u8) \<longleftrightarrow> d = 0 \<and> xs = ys"
proof (induction xs ys arbitrary: d rule: list_induct2)
  case (Cons x xs y ys)
  then show ?case by (auto simp: or_eq_0 xor_eq_0)
qed simp

lemma nul_diff: "fold (\<lambda>p d. if p = 0 then d OR 1 else d) pt d = (0 :: u8) \<longleftrightarrow> d = 0 \<and> (0 :: u8) \<notin> set pt"
  by (induction pt arbitrary: d) (auto simp: or_eq_0)

lemma tag_diff_0: "length tag = length given \<Longrightarrow> tag_diff tag given pt = 0 \<longleftrightarrow> tag = given \<and> 0 \<notin> set pt"
  by (auto simp: tag_diff_def nul_diff zip_diff)

lemma seal_text:
  assumes "secret_seal key ctx plain cap = (True, Some s)" "plain \<noteq> []" "subkeys key = (ek, mk)"
  shows "length plain \<le> 63" "length ctx \<le> 255"
    "s = ''~1'' @ b64_encode (make_tag mk ctx (to_bytes plain) @ apply_keystream ek (make_tag mk ctx (to_bytes plain)) (to_bytes plain))"
  using assms by (auto simp: secret_seal_def Let_def SECRET_MAX_PLAIN_def split: if_splits)

text \<open>
  C32. A sealed secret opens.  Every secret of one to 63 characters is sealed for every context of up
  to 255 into a buffer of \<open>SECRET_SEAL_MAX\<close>, and opening what was written with the same key and the
  same context gives the secret back.
\<close>

theorem secret_seal_opens:
  assumes "plain \<noteq> []" "length plain \<le> SECRET_MAX_PLAIN" "length ctx \<le> 255" "NUL \<notin> set plain"
    and "SECRET_SEAL_MAX \<le> cap" "length plain < room"
  shows "case secret_seal key ctx plain cap of (ok, s) \<Rightarrow>
    ok \<and> length (the s) < SECRET_SEAL_MAX \<and> secret_open key ctx (the s) room = (SECRET_OK, plain)"
proof -
  obtain ek mk where k: "subkeys key = (ek, mk)" by (cases "subkeys key")
  let ?p = "to_bytes plain" and ?tag = "make_tag mk ctx (to_bytes plain)"
  let ?blob = "?tag @ apply_keystream ek ?tag ?p"
  have n: "length plain \<le> 63" "cap \<noteq> 0" using assms by (simp_all add: SECRET_MAX_PLAIN_def SECRET_SEAL_MAX_def)
  have lp: "length ?p = length plain" by (simp add: to_bytes_def)
  have lb: "length ?blob = 6 + length plain" by (simp add: make_tag_length apply_keystream_def keystream_length lp)
  have tl: "2 + ((6 + length plain) * 4 + 2) div 3 + 1 \<le> 96"
  proof -
    have "(6 + length plain) * 4 + 2 \<le> 278" using n(1) by simp
    then have "((6 + length plain) * 4 + 2) div 3 \<le> 278 div 3" by (rule div_le_mono)
    then show ?thesis by simp
  qed
  then have s: "secret_seal key ctx plain cap = (True, Some (''~1'' @ b64_encode ?blob))"
    using assms n k by (simp add: secret_seal_def Let_def SECRET_MAX_PLAIN_def SECRET_TAG_LEN_def SECRET_SEAL_MAX_def)
  have "length (''~1'' @ b64_encode B) < 96" if "length B = 6 + length plain" for B
    using tl that by (simp add: b64_encode_length)
  note len = this[OF lb]
  have "length ?blob \<le> SECRET_TAG_LEN + SECRET_MAX_PLAIN"
    unfolding lb using n(1) by (simp add: SECRET_TAG_LEN_def SECRET_MAX_PLAIN_def)
  from b64_decode_encode[OF this]
  have dec: "b64_decode (drop 2 (''~1'' @ b64_encode ?blob)) (SECRET_TAG_LEN + SECRET_MAX_PLAIN) = Some ?blob" by simp
  have undo: "apply_keystream ek ?tag (apply_keystream ek ?tag ?p) = ?p"
    by (simp add: apply_keystream_def keystream_twice)
  have split: "take 6 ?blob = ?tag" "drop 6 ?blob = apply_keystream ek ?tag ?p" by (simp_all add: make_tag_length)
  have "tag_diff ?tag ?tag ?p = 0" by (simp add: tag_diff_0 to_bytes_nonzero assms(4))
  then have "secret_open key ctx (''~1'' @ b64_encode ?blob) room = (SECRET_OK, plain)"
    using assms(1,3,6) dec lb k undo split
    by (simp add: secret_open_def secret_is_sealed_def Let_def SECRET_TAG_LEN_def bytes_string del: append.simps)
  then show ?thesis using s len by (simp add: SECRET_SEAL_MAX_def)
qed

text \<open>
  Nothing opens that was not sealed.  A text opens as a secret exactly when it carries the marker
  and decodes to a tag and a ciphertext such that the tag is the one of the decrypted secret for
  this context under this key, the secret has no terminator in it and fits; in every other case
  the secret handed back is empty.
\<close>

theorem secret_open_exact:
  assumes "subkeys key = (ek, mk)" "0 < room" "length ctx \<le> 255"
  shows "(secret_open key ctx s room = (SECRET_OK, p)) =
      (secret_is_sealed s \<and> (\<exists>c. c \<noteq> [] \<and> length c < room \<and> p = from_bytes (apply_keystream ek (make_tag mk ctx (to_bytes p)) c) \<and>
         NUL \<notin> set p \<and> b64_decode (drop 2 s) 69 = Some (make_tag mk ctx (to_bytes p) @ c))) \<and>
    (fst (secret_open key ctx s room) \<noteq> SECRET_OK \<longrightarrow> snd (secret_open key ctx s room) = [])"
proof -
  let ?dec = "b64_decode (drop 2 s) (SECRET_TAG_LEN + SECRET_MAX_PLAIN)"
  have none: "?thesis" if "?dec = None \<or> \<not> secret_is_sealed s"
    using that assms by (auto simp: secret_open_def SECRET_TAG_LEN_def SECRET_MAX_PLAIN_def)
  have some: "?thesis" if d: "?dec = Some blob" and sealed: "secret_is_sealed s" for blob
  proof (cases "length blob \<le> 6 \<or> room < length blob - 6 + 1")
    case True
    then have "fst (secret_open key ctx s room) \<noteq> SECRET_OK" "snd (secret_open key ctx s room) = []"
      using d assms sealed by (auto simp: secret_open_def SECRET_TAG_LEN_def Let_def)
    moreover have "\<not> (c \<noteq> [] \<and> length c < room \<and> blob = make_tag mk ctx (to_bytes p) @ c)" for c
      using True by (auto simp: make_tag_length)
    ultimately show ?thesis using d by (auto simp: SECRET_TAG_LEN_def SECRET_MAX_PLAIN_def)
  next
    case False
    let ?pt = "apply_keystream ek (take 6 blob) (drop 6 blob)"
    have op: "secret_open key ctx s room =
        (if make_tag mk ctx ?pt = take 6 blob \<and> 0 \<notin> set ?pt then (SECRET_OK, from_bytes ?pt) else (SECRET_BAD, []))"
      using d assms sealed False tag_diff_0[of "make_tag mk ctx ?pt" "take 6 blob" ?pt]
      by (simp add: secret_open_def SECRET_TAG_LEN_def Let_def make_tag_length)
    have "(secret_open key ctx s room = (SECRET_OK, p)) = (p = from_bytes ?pt \<and> make_tag mk ctx (to_bytes p) = take 6 blob \<and> NUL \<notin> set p)"
      unfolding op using bytes_string to_bytes_nonzero[of "from_bytes ?pt"] by auto
    also have "\<dots> = (\<exists>c. c \<noteq> [] \<and> length c < room \<and> p = from_bytes (apply_keystream ek (make_tag mk ctx (to_bytes p)) c) \<and>
         NUL \<notin> set p \<and> blob = make_tag mk ctx (to_bytes p) @ c)" (is "?l = ?r")
    proof
      assume ?l
      then show ?r using False by (intro exI[of _ "drop 6 blob"]) auto
    next
      assume ?r
      then obtain c where c: "p = from_bytes (apply_keystream ek (make_tag mk ctx (to_bytes p)) c)" "NUL \<notin> set p"
        "blob = make_tag mk ctx (to_bytes p) @ c" by blast
      then have "take 6 blob = make_tag mk ctx (to_bytes p)" "drop 6 blob = c" by (simp_all add: make_tag_length)
      then show ?l using c(1,2) by simp
    qed
    finally show ?thesis using d sealed op by (auto simp: SECRET_TAG_LEN_def SECRET_MAX_PLAIN_def)
  qed
  show ?thesis using none some by (cases "?dec") blast+
qed

lemma secret_seal_opens_witness:
  "case secret_seal (replicate 32 7) ''home'' ''pass word'' 96 of (ok, s) \<Rightarrow>
    ok \<and> length (the s) < SECRET_SEAL_MAX \<and> secret_open (replicate 32 7) ''home'' (the s) 64 = (SECRET_OK, ''pass word'')"
  by (rule secret_seal_opens) (simp_all add: SECRET_MAX_PLAIN_def SECRET_SEAL_MAX_def)

lemma secret_open_exact_witness:
  "fst (secret_open (replicate 32 7) ''home'' ''pass word'' 64) = SECRET_NOT_SEALED \<and>
   snd (secret_open (replicate 32 7) ''home'' ''pass word'' 64) = []"
proof -
  have "fst (secret_open (replicate 32 7) ''home'' ''pass word'' 64) = SECRET_NOT_SEALED"
    by (simp add: secret_open_def secret_is_sealed_def)
  then show ?thesis
    using secret_open_exact[of "replicate 32 7" "fst (subkeys (replicate 32 7))" "snd (subkeys (replicate 32 7))" 64 "''home''" "''pass word''" "[]"]
    by simp
qed

end
