(* ===== verification/JobList.thy ===== *)
theory JobList
  imports CLib
begin

text \<open>
  \<open>os/core/joblist.cpp\<close>: the files of command lines behind startup, tasks and services, edited by
  the number of the entry.  A buffer with its length is the list of its characters; the loops
  over line boundaries produce the list of spans the callbacks are called with.  At the end, the
  view the users of the file have: a list of lines, of which the comments and blanks do not count.
\<close>

section \<open>Model\<close>

abbreviation TAB :: char where "TAB \<equiv> CHR 0x09"

fun is_skip :: "string \<Rightarrow> bool" where
  "is_skip [] = True"
| "is_skip (c # cs) = (if c = CHR '' '' \<or> c = TAB \<or> c = CR then is_skip cs else c = CHR ''#'')"

text \<open>The spans \<open>[start, i)\<close> the loop finds, the last one up to the end of the buffer.\<close>

function line_spans :: "nat \<Rightarrow> string \<Rightarrow> (nat \<times> nat) list" where
  "line_spans start rest =
     (let n = length (takeWhile (\<lambda>c. c \<noteq> NL) rest) in
      (start, start + n) # (if n = length rest then [] else line_spans (start + n + 1) (drop (n + 1) rest)))"
  by pat_completeness auto
termination
  by (relation "measure (\<lambda>(start, rest). length rest)") (auto dest: le_neq_trans[OF length_takeWhile_le])

declare line_spans.simps [simp del]

definition strip_cr :: "string \<Rightarrow> string" where
  "strip_cr l = rev (dropWhile (\<lambda>c. c = CR) (rev l))"

definition line_at :: "string \<Rightarrow> nat \<times> nat \<Rightarrow> string" where
  "line_at buf sp = strip_cr (take (snd sp - fst sp) (drop (fst sp) buf))"

definition for_lines :: "string \<Rightarrow> string list" where
  "for_lines buf = map (line_at buf) (filter (\<lambda>(s, i). i \<noteq> s) (line_spans 0 buf))"

definition joblist_entries :: "string \<Rightarrow> string list" where
  "joblist_entries buf = filter (\<lambda>l. \<not> is_skip l) (for_lines buf)"

definition joblist_count :: "string \<Rightarrow> nat" where
  "joblist_count buf = length (joblist_entries buf)"

definition joblist_walk :: "string \<Rightarrow> (nat \<times> string) list" where
  "joblist_walk buf = map (\<lambda>(i, l). (i + 1, if 160 \<le> length l then take 159 l else l))
     (zip [0..<length (joblist_entries buf)] (joblist_entries buf))"

definition joblist_get :: "string \<Rightarrow> nat \<Rightarrow> nat \<Rightarrow> string option" where
  "joblist_get buf index cap = map_option (\<lambda>(i, l). snprintf cap l) (find (\<lambda>(i, l). i = index) (joblist_walk buf))"

definition joblist_add :: "string \<Rightarrow> nat \<Rightarrow> string \<Rightarrow> string" where
  "joblist_add buf cap line =
     (if line = [] then buf
      else let nl = (if buf \<noteq> [] \<and> List.last buf \<noteq> NL then [NL] else []) in
        if length buf + length nl + length line + 2 > cap then buf
        else buf @ nl @ line @ [NL])"

fun find_entry :: "string \<Rightarrow> nat \<Rightarrow> (nat \<times> nat) list \<Rightarrow> (nat \<times> nat) option" where
  "find_entry buf k [] = None"
| "find_entry buf k ((s, i) # r) =
     (if is_skip (line_at buf (s, i)) then find_entry buf k r
      else if k = 1 then Some (s, if i < length buf then i + 1 else i)
      else find_entry buf (k - 1) r)"

definition joblist_remove :: "string \<Rightarrow> nat \<Rightarrow> string" where
  "joblist_remove buf index = (case find_entry buf index (line_spans 0 buf) of
     None \<Rightarrow> buf
   | Some (f, t) \<Rightarrow> take f buf @ drop t buf)"

definition is_blank :: "char \<Rightarrow> bool" where "is_blank c \<longleftrightarrow> c = CHR '' '' \<or> c = TAB"

fun interval_digits :: "nat \<Rightarrow> string \<Rightarrow> (nat \<times> string) option" where
  "interval_digits v [] = Some (v, [])"
| "interval_digits v (c # cs) =
     (if is_digit c
      then (let v = v * 10 + digit_val c in if v > 86400 * 30 then None else interval_digits v cs)
      else Some (v, c # cs))"

definition joblist_split_interval :: "string \<Rightarrow> (nat \<times> string) option" where
  "joblist_split_interval line =
     (let l = dropWhile is_blank line in
      if l = [] \<or> \<not> is_digit (hd l) then None
      else case interval_digits 0 l of
        None \<Rightarrow> None
      | Some (v, r) \<Rightarrow>
          if r = [] \<or> \<not> is_blank (hd r) then None
          else let cmd = dropWhile is_blank r in if cmd = [] then None else Some (v, cmd))"

definition joblist_first_word :: "string \<Rightarrow> nat \<Rightarrow> string option" where
  "joblist_first_word line cap =
     (if cap = 0 then None
      else let w = takeWhile (\<lambda>c. \<not> is_blank c) (dropWhile is_blank line) in
        if w = [] \<or> length w \<ge> cap then None else Some w)"

section \<open>The file as a list of lines\<close>

text \<open>The lines of a file, each with its newline; only the last may lack it.\<close>

function chunks :: "string \<Rightarrow> string list" where
  "chunks s = (let n = length (takeWhile (\<lambda>c. c \<noteq> NL) s) in
     if s = [] then [] else if n = length s then [s] else take (n + 1) s # chunks (drop (n + 1) s))"
  by pat_completeness auto
termination
  by (relation "measure length") auto

declare chunks.simps [simp del]

definition chunk_line :: "string \<Rightarrow> string" where
  "chunk_line c = strip_cr (takeWhile (\<lambda>x. x \<noteq> NL) c)"

definition counts :: "string \<Rightarrow> bool" where "counts c \<longleftrightarrow> \<not> is_skip (chunk_line c)"

text \<open>The list without the \<open>k\<close>-th element that counts.\<close>

fun remove_counted :: "nat \<Rightarrow> string list \<Rightarrow> string list" where
  "remove_counted k [] = []"
| "remove_counted k (c # cs) =
     (if \<not> counts c then c # remove_counted k cs
      else if k = 1 then cs else c # remove_counted (k - 1) cs)"

lemma takeWhile_all: "NL \<notin> set t \<Longrightarrow> takeWhile (\<lambda>c. c \<noteq> NL) t = t"
  by (rule takeWhile_eq_all_conv[THEN iffD2]) auto

lemma nl_split:
  obtains (no_nl) "NL \<notin> set rest" "length (takeWhile (\<lambda>c. c \<noteq> NL) rest) = length rest"
  | (nl) t r where "rest = t @ NL # r" "NL \<notin> set t" "length (takeWhile (\<lambda>c. c \<noteq> NL) rest) = length t"
proof (cases "NL \<in> set rest")
  case True
  then obtain t r where "rest = t @ NL # r" "NL \<notin> set t" by (metis split_list_first)
  then show ?thesis using nl[of t r] by (simp add: takeWhile_upto)
next
  case False
  then show ?thesis by (intro no_nl) (simp_all add: takeWhile_all)
qed

lemma line_spans_last: "NL \<notin> set t \<Longrightarrow> line_spans start t = [(start, start + length t)]"
  by (cases rule: nl_split[of t]) (auto simp: line_spans.simps[of start t])

lemma line_spans_line: "NL \<notin> set t \<Longrightarrow> line_spans start (t @ NL # r) = (start, start + length t) # line_spans (start + length t + 1) r"
  by (subst line_spans.simps) (simp add: takeWhile_upto Let_def)

lemma chunks_Nil [simp]: "chunks [] = []"
  by (simp add: chunks.simps)

lemma chunks_last: "NL \<notin> set t \<Longrightarrow> t \<noteq> [] \<Longrightarrow> chunks t = [t]"
  by (cases rule: nl_split[of t]) (auto simp: chunks.simps[of t])

lemma chunks_line: "NL \<notin> set t \<Longrightarrow> chunks (t @ NL # r) = (t @ [NL]) # chunks r"
  by (subst chunks.simps) (simp add: takeWhile_upto)

lemma lines_induct [case_names last line]:
  assumes "\<And>t. NL \<notin> set t \<Longrightarrow> P t" "\<And>t r. NL \<notin> set t \<Longrightarrow> P r \<Longrightarrow> P (t @ NL # r)"
  shows "P s"
proof (induction "length s" arbitrary: s rule: less_induct)
  case less
  show ?case
  proof (cases rule: nl_split[of s])
    case no_nl
    then show ?thesis by (intro assms(1))
  next
    case (nl t r)
    then show ?thesis using less[of r] by (auto intro: assms(2))
  qed
qed

lemma concat_chunks: "concat (chunks s) = s"
proof (induction s rule: lines_induct)
  case (last t)
  then show ?case by (cases "t = []") (simp_all add: chunks_last)
qed (simp add: chunks_line)

text \<open>Lists of lines that a file can be cut into: all but the last end in their only newline.\<close>

fun chunked :: "string list \<Rightarrow> bool" where
  "chunked [] = True"
| "chunked [c] = (c \<noteq> [] \<and> NL \<notin> set (butlast c))"
| "chunked (c # cs) = (c \<noteq> [] \<and> NL \<notin> set (butlast c) \<and> List.last c = NL \<and> chunked cs)"

lemma chunked_Cons: "chunked (c # cs) = (c \<noteq> [] \<and> NL \<notin> set (butlast c) \<and> (cs = [] \<or> List.last c = NL) \<and> chunked cs)"
  by (cases cs) auto

lemma chunked_chunks: "chunked (chunks s)"
proof (induction s rule: lines_induct)
  case (last t)
  then show ?case by (cases "t = []") (auto simp: chunks_last dest: in_set_butlastD)
qed (simp add: chunks_line chunked_Cons)

lemma chunks_concat: "chunked cs \<Longrightarrow> chunks (concat cs) = cs"
proof (induction cs)
  case (Cons c cs)
  obtain d x where c: "c = d @ [x]" using Cons.prems by (cases c rule: rev_cases) (auto simp: chunked_Cons)
  show ?case
  proof (cases "x = NL")
    case True
    then show ?thesis using Cons chunks_line[of d "concat cs"] by (simp add: c chunked_Cons)
  next
    case False
    then show ?thesis using Cons.prems by (auto simp: c chunked_Cons chunks_last)
  qed
qed simp

lemma chunk_line_plain: "NL \<notin> set t \<Longrightarrow> chunk_line t = strip_cr t" "NL \<notin> set t \<Longrightarrow> chunk_line (t @ [NL]) = strip_cr t"
  by (simp_all add: chunk_line_def takeWhile_upto takeWhile_all)

lemma strip_cr_Nil [simp]: "strip_cr [] = []"
  by (simp add: strip_cr_def)

text \<open>The loop over the spans sees the lines that count.\<close>

lemma spans_lines:
  "buf = pre @ rest \<Longrightarrow> filter (\<lambda>l. \<not> is_skip l) (map (line_at buf) (line_spans (length pre) rest)) =
    filter (\<lambda>l. \<not> is_skip l) (map chunk_line (chunks rest))"
proof (induction rest arbitrary: pre rule: lines_induct)
  case (last t)
  then show ?case by (cases "t = []") (simp_all add: line_spans_last line_at_def chunks_last chunk_line_plain)
next
  case (line t r)
  have "buf = (pre @ t @ [NL]) @ r" using line.prems by simp
  from line.IH[OF this] show ?case using line.hyps line.prems
    by (simp add: line_spans_line line_at_def chunks_line chunk_line_plain)
qed

lemma skip_empty_spans: "filter (\<lambda>l. \<not> is_skip l) (map (line_at buf) (filter (\<lambda>(s, i). i \<noteq> s) sps)) =
    filter (\<lambda>l. \<not> is_skip l) (map (line_at buf) sps)"
  by (induction sps) (auto simp: line_at_def)

lemma joblist_entries_chunks: "joblist_entries buf = map chunk_line (filter counts (chunks buf))"
proof -
  have "joblist_entries buf = filter (\<lambda>l. \<not> is_skip l) (map chunk_line (chunks buf))"
    unfolding joblist_entries_def for_lines_def skip_empty_spans using spans_lines[of buf "[]" buf] by simp
  then show ?thesis by (simp add: filter_map comp_def counts_def[abs_def])
qed

lemma find_entry_chunks:
  "buf = pre @ rest \<Longrightarrow> (case find_entry buf k (line_spans (length pre) rest) of
      None \<Rightarrow> remove_counted k (chunks rest) = chunks rest
    | Some (f, t) \<Rightarrow> take f buf @ drop t buf = pre @ concat (remove_counted k (chunks rest)))"
proof (induction rest arbitrary: pre k rule: lines_induct)
  case (last t)
  show ?case
  proof (cases "t = []")
    case False
    then show ?thesis using last by (simp add: line_spans_last line_at_def chunks_last counts_def chunk_line_plain)
  qed (simp add: line_spans_last line_at_def)
next
  case (line t r)
  have b: "buf = (pre @ t @ [NL]) @ r" using line.prems by simp
  note IH = line.IH[OF b]
  have l: "line_at buf (length pre, length pre + length t) = strip_cr t"
    using line.prems by (simp add: line_at_def)
  show ?case
  proof (cases "\<not> is_skip (strip_cr t) \<and> k = 1")
    case True
    then have "find_entry buf k (line_spans (length pre) (t @ NL # r)) = Some (length pre, length pre + length t + 1)"
      using line.hyps line.prems l by (simp add: line_spans_line)
    moreover have "concat (remove_counted k (chunks (t @ NL # r))) = r"
      using True line.hyps by (simp add: chunks_line counts_def chunk_line_plain concat_chunks)
    ultimately show ?thesis using line.prems by simp
  next
    case False
    define j where "j = (if is_skip (strip_cr t) then k else k - 1)"
    have "find_entry buf k (line_spans (length pre) (t @ NL # r)) = find_entry buf j (line_spans (length (pre @ t @ [NL])) r)"
      using False line.hyps by (cases "is_skip (strip_cr t)") (simp_all add: line_spans_line l j_def add.assoc)
    moreover have "remove_counted k (chunks (t @ NL # r)) = (t @ [NL]) # remove_counted j (chunks r)"
      using False line.hyps by (cases "is_skip (strip_cr t)") (simp_all add: chunks_line counts_def chunk_line_plain j_def)
    ultimately show ?thesis using IH[of j] line.hyps by (auto simp: chunks_line split: option.splits)
  qed
qed

lemma joblist_remove_concat: "joblist_remove buf k = concat (remove_counted k (chunks buf))"
  using find_entry_chunks[of buf "[]" buf k]
  by (auto simp: joblist_remove_def concat_chunks split: option.splits)

lemma chunked_remove: "chunked cs \<Longrightarrow> chunked (remove_counted k cs)"
proof (induction cs arbitrary: k)
  case (Cons c cs)
  have "cs = [] \<Longrightarrow> remove_counted j cs = []" for j by simp
  then show ?case using Cons by (auto simp: chunked_Cons)
qed simp

lemma chunks_joblist_remove: "chunks (joblist_remove buf k) = remove_counted k (chunks buf)"
  unfolding joblist_remove_concat by (intro chunks_concat chunked_remove chunked_chunks)

lemma remove_counted_filter:
  "filter counts (remove_counted k cs) = (let es = filter counts cs in
     if 1 \<le> k \<and> k \<le> length es then take (k - 1) es @ drop k es else es)"
  "filter (\<lambda>c. \<not> counts c) (remove_counted k cs) = filter (\<lambda>c. \<not> counts c) cs"
proof (induction cs arbitrary: k)
  case (Cons c cs)
  { case 1 show ?case using Cons.IH(1)[of k] Cons.IH(1)[of "k - 1"] by (cases k; cases "k - 1") (auto simp: Let_def)
  next case 2 show ?case using Cons.IH(2) by auto }
qed simp_all

lemma chunks_append: "s = [] \<or> List.last s = NL \<Longrightarrow> chunks (s @ r) = chunks s @ chunks r"
proof (induction s rule: lines_induct)
  case (last t)
  then show ?case by (cases t rule: rev_cases) auto
next
  case (line t q)
  then show ?case by (cases "q = []") (simp_all add: chunks_line)
qed

lemma entries_terminated: "s \<noteq> [] \<Longrightarrow> List.last s \<noteq> NL \<Longrightarrow> joblist_entries (s @ [NL]) = joblist_entries s"
proof (induction s rule: lines_induct)
  case (last t)
  then show ?case using chunks_line[of t "[]"] by (simp add: joblist_entries_chunks chunks_last counts_def chunk_line_plain)
next
  case (line t q)
  then have "q \<noteq> []" "List.last q \<noteq> NL" by (auto split: if_splits)
  from line.IH[OF this] line.hyps show ?case by (simp add: joblist_entries_chunks chunks_line)
qed

lemma find_numbered:
  "find (\<lambda>(i, l). i = k) (map (\<lambda>(i, l). (i + 1, f l)) (zip [m..<m + length es] es)) =
    (if m < k \<and> k \<le> m + length es then Some (k, f (es ! (k - m - 1))) else None)"
proof (induction es arbitrary: m)
  case (Cons e es)
  have u: "[m..<m + length (e # es)] = m # [Suc m..<Suc m + length es]"
    using upt_conv_Cons[of m "m + length (e # es)"] by (simp del: upt_Suc)
  show ?case unfolding u using Cons.IH[of "Suc m"] by (auto simp: nth_Cons split: nat.splits)
qed simp

text \<open>
  C33. The number shown is the entry edited.  Counting only the lines that carry a command, \<open>joblist_get\<close>
  returns the \<open>k\<close>-th, \<open>joblist_remove\<close> takes out exactly that one and leaves every other entry, comment
  and blank line as it was, and \<open>joblist_add\<close> puts a new one at the end, whether or not the file
  ended in a newline; an index that does not exist changes nothing.
\<close>

theorem joblist_edits_entries:
  "joblist_entries (joblist_remove buf k) =
      (if 1 \<le> k \<and> k \<le> joblist_count buf then take (k - 1) (joblist_entries buf) @ drop k (joblist_entries buf)
       else joblist_entries buf) \<and>
   filter (\<lambda>c. \<not> counts c) (chunks (joblist_remove buf k)) = filter (\<lambda>c. \<not> counts c) (chunks buf) \<and>
   joblist_get buf k cap =
      (if 1 \<le> k \<and> k \<le> joblist_count buf then Some (snprintf cap (take 159 (joblist_entries buf ! (k - 1)))) else None) \<and>
   (NL \<notin> set line \<and> \<not> is_skip line \<and> List.last line \<noteq> CR \<and> length buf + length line + 3 \<le> room \<longrightarrow>
      joblist_entries (joblist_add buf room line) = joblist_entries buf @ [line])"
proof (intro conjI impI)
  show "joblist_entries (joblist_remove buf k) =
      (if 1 \<le> k \<and> k \<le> joblist_count buf then take (k - 1) (joblist_entries buf) @ drop k (joblist_entries buf)
       else joblist_entries buf)"
    unfolding joblist_count_def joblist_entries_chunks chunks_joblist_remove remove_counted_filter(1)
    by (simp add: Let_def take_map drop_map)
  show "filter (\<lambda>c. \<not> counts c) (chunks (joblist_remove buf k)) = filter (\<lambda>c. \<not> counts c) (chunks buf)"
    unfolding chunks_joblist_remove by (rule remove_counted_filter(2))
  show "joblist_get buf k cap =
      (if 1 \<le> k \<and> k \<le> joblist_count buf then Some (snprintf cap (take 159 (joblist_entries buf ! (k - 1)))) else None)"
  proof -
    have t: "(if 160 \<le> length l then take 159 l else l) = take 159 l" for l :: string by simp
    show ?thesis using find_numbered[of k "take 159" 0 "joblist_entries buf"]
      by (simp add: joblist_get_def joblist_walk_def t joblist_count_def)
  qed
next
  assume l: "NL \<notin> set line \<and> \<not> is_skip line \<and> List.last line \<noteq> CR \<and> length buf + length line + 3 \<le> room"
  then have ne: "line \<noteq> []" by auto
  then have "strip_cr line = line" using l by (cases line rule: rev_cases) (simp_all add: strip_cr_def)
  then have new: "chunks (line @ [NL]) = [line @ [NL]]" "counts (line @ [NL])" "chunk_line (line @ [NL]) = line"
    using l chunks_line[of line "[]"] by (simp_all add: counts_def chunk_line_plain)
  show "joblist_entries (joblist_add buf room line) = joblist_entries buf @ [line]"
  proof (cases "buf = [] \<or> List.last buf = NL")
    case True
    then have "joblist_add buf room line = buf @ (line @ [NL])" using l ne by (auto simp: joblist_add_def)
    then show ?thesis using True new by (simp add: joblist_entries_chunks chunks_append)
  next
    case False
    then have "joblist_add buf room line = (buf @ [NL]) @ (line @ [NL])" using l ne by (auto simp: joblist_add_def)
    moreover have "chunks ((buf @ [NL]) @ (line @ [NL])) = chunks (buf @ [NL]) @ [line @ [NL]]"
      using new(1) by (subst chunks_append) simp_all
    ultimately have "joblist_entries (joblist_add buf room line) = joblist_entries (buf @ [NL]) @ [line]"
      using new by (simp add: joblist_entries_chunks)
    then show ?thesis using False entries_terminated by simp
  qed
qed

lemma joblist_edits_entries_witness:
  "joblist_entries (joblist_add (''# boot'' @ [NL] @ ''ping a'') 64 ''wifi up'') = joblist_entries (''# boot'' @ [NL] @ ''ping a'') @ [''wifi up'']"
  using joblist_edits_entries[of "''# boot'' @ [NL] @ ''ping a''" 1 16 "''wifi up''" 64] by simp

text \<open>A first word is given whole or not at all.\<close>

lemma joblist_first_word_whole:
  "joblist_first_word line cap = Some w \<Longrightarrow>
    w = takeWhile (\<lambda>c. \<not> is_blank c) (dropWhile is_blank line) \<and> w \<noteq> [] \<and> length w < cap"
  by (auto simp: joblist_first_word_def Let_def split: if_splits)

text \<open>An interval is its number of seconds, at most a month.\<close>

lemma interval_digits_bound: "interval_digits v l = Some (n, r) \<Longrightarrow> v \<le> 86400 * 30 \<Longrightarrow> n \<le> 86400 * 30"
  by (induction v l rule: interval_digits.induct) (auto simp: Let_def split: if_splits)

lemma joblist_interval_bound: "joblist_split_interval line = Some (n, cmd) \<Longrightarrow> n \<le> 86400 * 30 \<and> cmd \<noteq> []"
  by (auto simp: joblist_split_interval_def Let_def dest: interval_digits_bound split: if_splits option.splits)

end
