(* ===== verification/Interrupt.thy ===== *)
theory Interrupt
  imports CLib
begin

text \<open>
  \<open>os/core/interrupt.cpp\<close>: Ctrl+C, the bytes set aside while a command looks for it, and the claim
  on the console.  The task calling, its slot, the clock, a pending stop request and the task of
  the shell are read from the rest of the system and come in a record; the bytes waiting on the
  console are a string the poll takes from.  The yield at the head of \<open>intr_check\<close> is the point
  where other calls interleave: a sequence of calls is a list of events.
\<close>

section \<open>Model\<close>

abbreviation ETX :: char where "ETX \<equiv> CHR 0x03"

definition STASH_N :: nat where "STASH_N = 512"

record intr =
  g_pending :: bool
  g_stash :: string
  g_head :: nat
  g_tail :: nat
  g_input_held :: bool
  g_input_owner :: int
  g_input_slot :: int
  g_input_timed :: bool
  g_input_deadline :: u32

definition intr_init :: intr where
  "intr_init = \<lparr>g_pending = False, g_stash = replicate STASH_N NUL, g_head = 0, g_tail = 0, g_input_held = False,
     g_input_owner = -1, g_input_slot = -1, g_input_timed = False, g_input_deadline = 0\<rparr>"

record caller =
  task_self :: int
  task_slot_index :: int
  task_now_ms :: u32
  task_should_stop :: bool
  task_shell_pid :: int
  has_poll :: bool

definition stash_full :: "intr \<Rightarrow> bool" where
  "stash_full s = ((g_head s + 1) mod STASH_N = g_tail s)"

definition stash_put :: "char \<Rightarrow> intr \<Rightarrow> intr" where
  "stash_put c s = s\<lparr>g_stash := (g_stash s)[g_head s := c], g_head := (g_head s + 1) mod STASH_N\<rparr>"

definition intr_stashed :: "intr \<Rightarrow> char option \<times> intr" where
  "intr_stashed s =
     (if g_tail s = g_head s then (None, s)
      else (Some (g_stash s ! g_tail s), s\<lparr>g_tail := (g_tail s + 1) mod STASH_N\<rparr>))"

definition intr_stash_clear :: "intr \<Rightarrow> intr" where
  "intr_stash_clear s = s\<lparr>g_head := 0, g_tail := 0\<rparr>"

definition claim_live :: "u32 \<Rightarrow> intr \<Rightarrow> bool" where
  "claim_live now s \<longleftrightarrow> g_input_held s \<and> \<not> (g_input_timed s \<and> sint (now - g_input_deadline s) \<ge> 0)"

definition claim_take :: "caller \<Rightarrow> bool \<Rightarrow> u32 \<Rightarrow> intr \<Rightarrow> bool \<times> intr" where
  "claim_take e timed ms s =
     (if claim_live (task_now_ms e) s \<and> g_input_owner s \<noteq> task_self e then (False, s)
      else let s = s\<lparr>g_input_held := True, g_input_owner := task_self e, g_input_slot := task_slot_index e, g_input_timed := timed\<rparr>
        in (True, if timed then s\<lparr>g_input_deadline := task_now_ms e + ms\<rparr> else s))"

definition intr_input_claim :: "caller \<Rightarrow> intr \<Rightarrow> bool \<times> intr" where
  "intr_input_claim e s = claim_take e False 0 s"

definition intr_input_claim_for :: "caller \<Rightarrow> u32 \<Rightarrow> intr \<Rightarrow> bool \<times> intr" where
  "intr_input_claim_for e ms s = claim_take e True ms s"

definition intr_input_renew :: "caller \<Rightarrow> u32 \<Rightarrow> intr \<Rightarrow> intr" where
  "intr_input_renew e ms s =
     (if g_input_held s \<and> g_input_owner s = task_self e \<and> g_input_timed s
      then s\<lparr>g_input_deadline := task_now_ms e + ms\<rparr> else s)"

definition intr_input_release :: "caller \<Rightarrow> intr \<Rightarrow> intr" where
  "intr_input_release e s =
     (if g_input_held s \<and> g_input_owner s = task_self e then s\<lparr>g_input_held := False, g_input_timed := False\<rparr> else s)"

definition intr_input_task_ended :: "int \<Rightarrow> intr \<Rightarrow> intr" where
  "intr_input_task_ended slot s =
     (if g_input_held s \<and> g_input_slot s = slot then s\<lparr>g_input_held := False, g_input_timed := False\<rparr> else s)"

definition intr_input_may_read :: "u32 \<Rightarrow> int \<Rightarrow> intr \<Rightarrow> bool" where
  "intr_input_may_read now pid s \<longleftrightarrow> \<not> claim_live now s \<or> g_input_owner s = pid"

definition intr_raise :: "intr \<Rightarrow> intr" where "intr_raise s = s\<lparr>g_pending := True\<rparr>"
definition intr_pending :: "intr \<Rightarrow> bool" where "intr_pending s = g_pending s"
definition intr_clear :: "intr \<Rightarrow> intr" where "intr_clear s = s\<lparr>g_pending := False\<rparr>"

fun poll_loop :: "nat \<Rightarrow> string \<Rightarrow> intr \<Rightarrow> bool \<times> intr \<times> string" where
  "poll_loop 0 wire s = (g_pending s, s, wire)"
| "poll_loop (Suc k) wire s =
     (if stash_full s then (g_pending s, s, wire)
      else case wire of
        [] \<Rightarrow> (g_pending s, s, [])
      | c # cs \<Rightarrow> if c = ETX then (True, s\<lparr>g_pending := True\<rparr>, cs) else poll_loop k cs (stash_put c s))"

definition intr_check :: "caller \<Rightarrow> string \<Rightarrow> intr \<Rightarrow> bool \<times> intr \<times> string" where
  "intr_check e wire s =
     (if task_should_stop e then (True, s, wire)
      else if g_pending s then (True, s, wire)
      else if \<not> has_poll e then (False, s, wire)
      else if task_shell_pid e \<noteq> 0 \<and> task_self e \<noteq> task_shell_pid e then (False, s, wire)
      else if \<not> intr_input_may_read (task_now_ms e) (task_self e) s then (False, s, wire)
      else poll_loop 32 wire s)"

section \<open>Type-ahead is kept, in order\<close>

text \<open>The characters in the ring, oldest first.\<close>

definition stash_len :: "intr \<Rightarrow> nat" where "stash_len s = (g_head s + STASH_N - g_tail s) mod STASH_N"

definition stashed :: "intr \<Rightarrow> string" where
  "stashed s = map (\<lambda>i. g_stash s ! ((g_tail s + i) mod STASH_N)) [0..<stash_len s]"

definition intr_wf :: "intr \<Rightarrow> bool" where
  "intr_wf s \<longleftrightarrow> length (g_stash s) = STASH_N \<and> g_head s < STASH_N \<and> g_tail s < STASH_N"

lemma ring_put:
  assumes "h < n" "t < n" "(h + 1) mod n \<noteq> t"
  shows "((h + 1) mod n + n - t) mod n = (h + n - t) mod n + 1" "(t + (h + n - t) mod n) mod n = h"
    "\<And>i. i < (h + n - t) mod n \<Longrightarrow> (t + i) mod n \<noteq> (h :: nat)"
proof -
  show "((h + 1) mod n + n - t) mod n = (h + n - t) mod n + 1" "(t + (h + n - t) mod n) mod n = h"
    using assms by (cases "t \<le> h"; cases "h + 1 = n"; force simp: mod_if)+
  show "(t + i) mod n \<noteq> h" if i: "i < (h + n - t) mod n" for i
  proof (cases "t \<le> h")
    case True
    then have "i < h - t" using i assms by (simp add: mod_if split: if_splits)
    then show ?thesis using True assms(1) by simp
  next
    case False
    then have "i < h + n - t" using i assms by simp
    then have "t + i < h + n" using assms(2) by linarith
    then show ?thesis using False assms by (cases "t + i < n") (auto simp: mod_if)
  qed
qed

lemma stash_put_queue:
  assumes "intr_wf s" "\<not> stash_full s"
  shows "stashed (stash_put c s) = stashed s @ [c]" "intr_wf (stash_put c s)"
proof -
  have w: "g_head s < STASH_N" "g_tail s < STASH_N" "(g_head s + 1) mod STASH_N \<noteq> g_tail s" "length (g_stash s) = STASH_N"
    using assms by (simp_all add: intr_wf_def stash_full_def)
  note r = ring_put[OF w(1-3)]
  have l: "stash_len (stash_put c s) = stash_len s + 1" unfolding stash_len_def stash_put_def using r(1) by simp
  have old: "(g_stash s)[g_head s := c] ! ((g_tail s + i) mod STASH_N) = g_stash s ! ((g_tail s + i) mod STASH_N)" if "i < stash_len s" for i
    using r(3)[of i] that by (simp add: stash_len_def)
  have new: "(g_stash s)[g_head s := c] ! ((g_tail s + stash_len s) mod STASH_N) = c"
    unfolding stash_len_def r(2) using w by simp
  show "stashed (stash_put c s) = stashed s @ [c]"
    unfolding stashed_def l using old new by (simp add: stash_put_def)
  show "intr_wf (stash_put c s)" using assms(1) by (simp add: intr_wf_def stash_put_def STASH_N_def)
qed

lemma ring_get:
  assumes "h < n" "t < n" "t \<noteq> h"
  shows "(h + n - (t + 1) mod n) mod n = (h + n - t) mod n - 1" "0 < (h + n - t) mod (n :: nat)"
  using assms by (cases "t \<le> h"; cases "t + 1 = n"; force simp: mod_if)+

lemma intr_stashed_queue:
  assumes "intr_wf s"
  shows "intr_stashed s = (case stashed s of [] \<Rightarrow> (None, s) | c # cs \<Rightarrow> (Some c, snd (intr_stashed s)))"
    "stashed (snd (intr_stashed s)) = tl (stashed s)" "intr_wf (snd (intr_stashed s))"
proof -
  have w: "g_head s < STASH_N" "g_tail s < STASH_N" using assms by (simp_all add: intr_wf_def)
  show "intr_wf (snd (intr_stashed s))" using assms by (simp add: intr_wf_def intr_stashed_def STASH_N_def)
  show "intr_stashed s = (case stashed s of [] \<Rightarrow> (None, s) | c # cs \<Rightarrow> (Some c, snd (intr_stashed s)))"
    "stashed (snd (intr_stashed s)) = tl (stashed s)"
  proof -
    show "intr_stashed s = (case stashed s of [] \<Rightarrow> (None, s) | c # cs \<Rightarrow> (Some c, snd (intr_stashed s)))"
    proof (cases "g_tail s = g_head s")
      case True
      then show ?thesis by (simp add: intr_stashed_def stashed_def stash_len_def)
    next
      case False
      then obtain k where "stash_len s = Suc k" using ring_get(2)[OF w] unfolding stash_len_def by (metis Suc_pred)
      then show ?thesis using False w by (simp add: intr_stashed_def stashed_def upt_conv_Cons del: upt_Suc)
    qed
    show "stashed (snd (intr_stashed s)) = tl (stashed s)"
    proof (cases "g_tail s = g_head s")
      case True
      then show ?thesis by (simp add: intr_stashed_def stashed_def stash_len_def)
    next
      case False
      then obtain k where k: "stash_len s = Suc k" using ring_get(2)[OF w] unfolding stash_len_def by (metis Suc_pred)
      have "stash_len (snd (intr_stashed s)) = k"
        using ring_get(1)[OF w False] k False by (simp add: intr_stashed_def stash_len_def)
      moreover have "((g_tail s + 1) mod STASH_N + i) mod STASH_N = (g_tail s + Suc i) mod STASH_N" for i
        by (simp add: mod_add_left_eq)
      ultimately show ?thesis using False
        by (simp add: stashed_def k intr_stashed_def upt_conv_Cons map_Suc_upt[symmetric] comp_def del: upt_Suc)
    qed
  qed
qed

text \<open>What can happen to the console: bytes arrive, a task looks for Ctrl+C, the editor takes one byte.\<close>

datatype console_event = Arrive string | Check caller | Drain

fun console_step :: "console_event \<Rightarrow> string \<times> string \<times> intr \<Rightarrow> string \<times> string \<times> intr" where
  "console_step (Arrive b) (got, wire, s) = (got, wire @ b, s)"
| "console_step (Check e) (got, wire, s) = (case intr_check e wire s of (_, s, wire) \<Rightarrow> (got, wire, s))"
| "console_step Drain (got, wire, s) = (case intr_stashed s of (None, s) \<Rightarrow> (got, wire, s) | (Some c, s) \<Rightarrow> (got @ [c], wire, s))"

fun arrived :: "console_event list \<Rightarrow> string" where
  "arrived [] = []"
| "arrived (Arrive b # es) = b @ arrived es"
| "arrived (e # es) = arrived es"

abbreviation typed :: "string \<Rightarrow> string" where "typed \<equiv> filter (\<lambda>c. c \<noteq> ETX)"

definition console_inv :: "string \<Rightarrow> string \<times> string \<times> intr \<Rightarrow> bool" where
  "console_inv sent st \<longleftrightarrow> (case st of (got, wire, s) \<Rightarrow> intr_wf s \<and> got @ stashed s @ typed wire = typed sent)"

lemma poll_loop_queue:
  "intr_wf s \<Longrightarrow> (case poll_loop k wire s of (_, s', wire') \<Rightarrow> intr_wf s' \<and> stashed s' @ typed wire' = stashed s @ typed wire)"
proof (induction k arbitrary: wire s)
  case (Suc k)
  show ?case
  proof (cases "stash_full s \<or> wire = []")
    case True
    then show ?thesis using Suc.prems by auto
  next
    case False
    then obtain c cs where w: "wire = c # cs" "\<not> stash_full s" by (cases wire) auto
    show ?thesis
    proof (cases "c = ETX")
      case True
      then show ?thesis using w Suc.prems by (simp add: intr_wf_def stashed_def stash_len_def)
    next
      case False
      then show ?thesis using w Suc.IH[OF stash_put_queue(2)[OF Suc.prems w(2), of c], of cs]
          stash_put_queue(1)[OF Suc.prems w(2), of c] by (auto split: prod.splits)
    qed
  qed
qed simp

lemma intr_check_queue:
  "intr_wf s \<Longrightarrow> (case intr_check e wire s of (_, s', wire') \<Rightarrow> intr_wf s' \<and> stashed s' @ typed wire' = stashed s @ typed wire)"
  using poll_loop_queue[where s = s and k = 32 and wire = wire] by (auto simp: intr_check_def)

lemma console_step_inv:
  assumes "console_inv sent st"
  shows "console_inv (sent @ arrived [ev]) (console_step ev st)"
proof -
  obtain got wire s where st: "st = (got, wire, s)" by (cases st)
  have w: "intr_wf s" "got @ stashed s @ typed wire = typed sent" using assms by (simp_all add: console_inv_def st)
  show ?thesis
  proof (cases ev)
    case (Arrive b)
    then show ?thesis using w by (simp add: console_inv_def st)
  next
    case (Check e)
    then show ?thesis using w intr_check_queue[OF w(1), where e = e and wire = wire] by (auto simp: console_inv_def st split: prod.splits)
  next
    case Drain
    note q = intr_stashed_queue[OF w(1)]
    show ?thesis
    proof (cases "stashed s")
      case Nil
      then have "intr_stashed s = (None, s)" using q(1) by simp
      then show ?thesis using w Drain by (simp add: console_inv_def st)
    next
      case (Cons c cs)
      then have "intr_stashed s = (Some c, snd (intr_stashed s))" using q(1) by simp
      then show ?thesis using w q(2,3) Drain Cons by (auto simp: console_inv_def st split: prod.splits)
    qed
  qed
qed

lemma console_run_inv:
  "console_inv sent st \<Longrightarrow> console_inv (sent @ arrived es) (fold console_step es st)"
proof (induction es arbitrary: sent st)
  case (Cons ev es)
  have "arrived (ev # es) = arrived [ev] @ arrived es" by (cases ev) auto
  then show ?case using Cons.IH[OF console_step_inv[OF Cons.prems, of ev]] by simp
qed simp

text \<open>
  C34. Type-ahead is never lost and never reordered.  Whatever tasks look for Ctrl+C, with whatever
  claims and stop requests, and however their looks interleave with bytes arriving and the
  editor taking bytes back: what the editor has got, then what is set aside, then what still
  waits on the console is what was typed, without the Ctrl+C bytes.  In particular the stash
  drops nothing when it is full.
\<close>

theorem type_ahead_kept:
  "case fold console_step es ([], [], intr_init) of (got, wire, s) \<Rightarrow>
     got @ stashed s @ typed wire = typed (arrived es) \<and> length (stashed s) < STASH_N"
proof -
  have "stashed intr_init = []" by (simp add: stashed_def stash_len_def intr_init_def STASH_N_def)
  then have "console_inv [] ([], [], intr_init)" by (simp add: console_inv_def intr_wf_def intr_init_def STASH_N_def)
  from console_run_inv[OF this, of es] show ?thesis
    by (auto simp: console_inv_def stashed_def stash_len_def STASH_N_def)
qed

section \<open>The claim on the console\<close>

datatype claim_event = Claim | ClaimFor u32 | Renew u32 | Release | MayRead | Ended int

definition claim_step :: "caller \<times> claim_event \<Rightarrow> intr \<Rightarrow> bool \<times> intr" where
  "claim_step ev s = (case ev of (e, k) \<Rightarrow> (case k of
     Claim \<Rightarrow> intr_input_claim e s
   | ClaimFor ms \<Rightarrow> intr_input_claim_for e ms s
   | Renew ms \<Rightarrow> (False, intr_input_renew e ms s)
   | Release \<Rightarrow> (False, intr_input_release e s)
   | MayRead \<Rightarrow> (intr_input_may_read (task_now_ms e) (task_self e) s, s)
   | Ended slot \<Rightarrow> (False, intr_input_task_ended slot s)))"

fun claim_run :: "(caller \<times> claim_event) list \<Rightarrow> intr \<Rightarrow> bool list \<times> intr" where
  "claim_run [] s = ([], s)"
| "claim_run (ev # es) s = (case claim_step ev s of (b, s) \<Rightarrow> (case claim_run es s of (bs, s) \<Rightarrow> (b # bs, s)))"

text \<open>Calls by others, while the claim of slot \<open>sl\<close> has not run out.\<close>

definition other_call :: "int \<Rightarrow> int \<Rightarrow> bool \<Rightarrow> u32 \<Rightarrow> caller \<times> claim_event \<Rightarrow> bool" where
  "other_call p sl timed deadline ev \<longleftrightarrow> task_self (fst ev) \<noteq> p \<and> snd ev \<noteq> Ended sl \<and>
     (timed \<longrightarrow> sint (task_now_ms (fst ev) - deadline) < 0)"

definition holds_claim :: "int \<Rightarrow> int \<Rightarrow> bool \<Rightarrow> u32 \<Rightarrow> intr \<Rightarrow> bool" where
  "holds_claim p sl timed deadline s \<longleftrightarrow> g_input_held s \<and> g_input_owner s = p \<and> g_input_slot s = sl \<and>
     g_input_timed s = timed \<and> (timed \<longrightarrow> g_input_deadline s = deadline)"

lemma claim_step_other:
  assumes "holds_claim p sl timed dl s" "other_call p sl timed dl ev"
  shows "claim_step ev s = (False, s)"
  using assms
  by (cases ev; cases "snd ev")
    (auto simp: claim_step_def holds_claim_def other_call_def intr_input_claim_def intr_input_claim_for_def claim_take_def
      claim_live_def intr_input_renew_def intr_input_release_def intr_input_may_read_def intr_input_task_ended_def)

lemma claim_run_other:
  "holds_claim p sl timed dl s \<Longrightarrow> list_all (other_call p sl timed dl) es \<Longrightarrow>
    claim_run es s = (replicate (length es) False, s)"
  by (induction es) (auto simp: claim_step_other)


text \<open>The comparison is signed: a deadline that passed half the clock's range ago counts as ahead again.\<close>

lemma expired_claim_returns:
  assumes "g_input_held s" "g_input_timed s" "g_input_deadline s = dl"
  shows "\<not> claim_live (dl + 5) s \<and> claim_live (dl + 0x80000000) s"
  using assms by (simp add: claim_live_def)

definition some_caller :: "int \<Rightarrow> u32 \<Rightarrow> caller" where
  "some_caller p now = \<lparr>task_self = p, task_slot_index = p, task_now_ms = now, task_should_stop = False,
     task_shell_pid = 0, has_poll = True\<rparr>"


end
