(* ===== verification/Detach.thy ===== *)
theory Detach
  imports CLib
begin

text \<open>
  \<open>os/core/detach.cpp\<close>: the table of commands that packages run on tasks of their own, the handles
  that name them and the one output buffer.  Owners and package buffers are addresses, \<open>0\<close> the null
  pointer.  A handle is the number the source packs from slot and generation.
\<close>

section \<open>Model\<close>

definition DETACH_MAX :: nat where "DETACH_MAX = 2"
definition DETACH_LINE_MAX :: nat where "DETACH_LINE_MAX = 256"
definition DETACH_OUT_MAX :: nat where "DETACH_OUT_MAX = 1024"

record detach_run =
  used :: bool
  finished :: bool
  gen :: u8
  capturing :: bool
  owner :: u32
  pid :: int
  status :: int
  seq :: u32
  run_line :: string
  pkg_out :: u32
  pkg_cap :: u32

record detach =
  g_runs :: "detach_run list"
  g_seq :: u32
  g_capture :: string
  g_capture_slot :: int

definition zero_run :: detach_run where
  "zero_run = \<lparr>used = False, finished = False, gen = 0, capturing = False, owner = 0, pid = 0, status = 0, seq = 0,
     run_line = [], pkg_out = 0, pkg_cap = 0\<rparr>"

definition detach_reset :: "detach \<Rightarrow> detach" where
  "detach_reset d = d\<lparr>g_runs := replicate DETACH_MAX zero_run, g_capture_slot := -1, g_seq := 0\<rparr>"

definition handle_of :: "nat \<Rightarrow> u8 \<Rightarrow> int" where
  "handle_of slot g = int (unat g * DETACH_MAX + slot)"

text \<open>The slot a handle finds, if its generation is still the one in use.\<close>

definition lookup :: "detach \<Rightarrow> int \<Rightarrow> nat option" where
  "lookup d handle =
     (if handle < 0 then None
      else let slot = nat handle mod DETACH_MAX; g = of_nat (nat handle div DETACH_MAX) :: u8; r = g_runs d ! slot
        in if \<not> used r \<or> gen r \<noteq> g then None else Some slot)"

definition free_slot :: "nat \<Rightarrow> detach \<Rightarrow> detach" where
  "free_slot i d =
     (let d = (if g_capture_slot d = int i then d\<lparr>g_capture_slot := -1\<rparr> else d)
      in d\<lparr>g_runs := (g_runs d)[i := zero_run\<lparr>gen := gen (g_runs d ! i)\<rparr>]\<rparr>)"

fun oldest_finished :: "detach_run list \<Rightarrow> nat list \<Rightarrow> nat option \<Rightarrow> nat option" where
  "oldest_finished rs [] best = best"
| "oldest_finished rs (i # is) best =
     (if \<not> finished (rs ! i) then oldest_finished rs is best
      else case best of
          None \<Rightarrow> oldest_finished rs is (Some i)
        | Some b \<Rightarrow> oldest_finished rs is (if seq (rs ! i) < seq (rs ! b) then Some i else Some b))"

definition free_or_reclaimed :: "detach \<Rightarrow> nat option \<times> detach" where
  "free_or_reclaimed d = (case find (\<lambda>i. \<not> used (g_runs d ! i)) [0..<DETACH_MAX] of
     Some i \<Rightarrow> (Some i, d)
   | None \<Rightarrow> (case oldest_finished (g_runs d) [0..<DETACH_MAX] None of
       None \<Rightarrow> (None, d)
     | Some i \<Rightarrow> (Some i, free_slot i d)))"

definition new_run :: "u8 \<Rightarrow> u32 \<Rightarrow> u32 \<Rightarrow> string \<Rightarrow> u32 \<Rightarrow> u32 \<Rightarrow> bool \<Rightarrow> detach_run" where
  "new_run g own s line out cap wants = \<lparr>used = True, finished = False, gen = g, capturing = wants, owner = own, pid = -1,
     status = 0, seq = s, run_line = line, pkg_out = (if wants then out else 0), pkg_cap = (if wants then cap else 0)\<rparr>"

definition claim_slot :: "u32 \<Rightarrow> string \<Rightarrow> u32 \<Rightarrow> u32 \<Rightarrow> bool \<Rightarrow> detach \<Rightarrow> int \<times> detach" where
  "claim_slot own line out cap wants d = (case free_or_reclaimed d of
     (None, d) \<Rightarrow> (-1, d)
   | (Some i, d) \<Rightarrow>
       let g = gen (g_runs d ! i) + 1;
           d = d\<lparr>g_runs := (g_runs d)[i := new_run g own (g_seq d + 1) line out cap wants], g_seq := g_seq d + 1\<rparr>;
           d = (if wants then d\<lparr>g_capture_slot := int i, g_capture := []\<rparr> else d)
       in (handle_of i g, d))"

definition detach_claim :: "u32 \<Rightarrow> string \<Rightarrow> u32 \<Rightarrow> u32 \<Rightarrow> detach \<Rightarrow> int \<times> detach" where
  "detach_claim own line out cap d =
     (if own = 0 \<or> line = [] then (-1, d)
      else if length line \<ge> DETACH_LINE_MAX then (-1, d)
      else let wants = (out \<noteq> 0 \<and> cap \<noteq> 0) in
        if wants \<and> g_capture_slot d \<ge> 0
        then (let i = nat (g_capture_slot d); held = g_runs d ! i in
          if \<not> used held \<or> finished held then claim_slot own line out cap wants (free_slot i d) else (-1, d))
        else claim_slot own line out cap wants d)"

definition detach_find :: "int \<Rightarrow> u32 \<Rightarrow> detach \<Rightarrow> nat option" where
  "detach_find handle own d = (case lookup d handle of
     None \<Rightarrow> None
   | Some i \<Rightarrow> if own = 0 \<or> owner (g_runs d ! i) \<noteq> own then None else Some i)"

definition detach_of :: "int \<Rightarrow> detach \<Rightarrow> nat option" where
  "detach_of handle d = lookup d handle"

definition detach_capture_buffer :: "int \<Rightarrow> detach \<Rightarrow> string option" where
  "detach_capture_buffer handle d = (case lookup d handle of
     None \<Rightarrow> None
   | Some i \<Rightarrow> if \<not> capturing (g_runs d ! i) \<or> g_capture_slot d \<noteq> int i then None else Some (g_capture d))"

definition detach_finish :: "int \<Rightarrow> int \<Rightarrow> detach \<Rightarrow> detach" where
  "detach_finish handle st d = (case lookup d handle of
     None \<Rightarrow> d
   | Some i \<Rightarrow> let r = g_runs d ! i in
       if finished r then d else d\<lparr>g_runs := (g_runs d)[i := r\<lparr>status := st, finished := True\<rparr>]\<rparr>)"

definition detach_release :: "int \<Rightarrow> detach \<Rightarrow> detach" where
  "detach_release handle d = (case lookup d handle of None \<Rightarrow> d | Some i \<Rightarrow> free_slot i d)"

definition forget_slot :: "u32 \<Rightarrow> nat \<Rightarrow> detach \<Rightarrow> detach" where
  "forget_slot own i d =
     (let r = g_runs d ! i in
      if \<not> used r \<or> owner r \<noteq> own then d
      else let d = d\<lparr>g_runs := (g_runs d)[i := r\<lparr>owner := 0, pkg_out := 0, pkg_cap := 0\<rparr>]\<rparr>
        in if finished r then free_slot i d else d)"

definition detach_forget_owner :: "u32 \<Rightarrow> detach \<Rightarrow> detach" where
  "detach_forget_owner own d = (if own = 0 then d else fold (forget_slot own) [0..<DETACH_MAX] d)"

definition detach_active :: "detach \<Rightarrow> nat" where
  "detach_active d = length (filter (\<lambda>i. used (g_runs d ! i)) [0..<DETACH_MAX])"

section \<open>The invariant of the table\<close>

text \<open>
  There are \<open>DETACH_MAX\<close> slots, the capture is held by the slot that says so, and a run that
  captures and still goes on is the one holding it.
\<close>

definition detach_wf :: "detach \<Rightarrow> bool" where
  "detach_wf d \<longleftrightarrow> length (g_runs d) = DETACH_MAX \<and> g_capture_slot d \<ge> -1 \<and> g_capture_slot d < int DETACH_MAX \<and>
     (\<forall>i < DETACH_MAX. (used (g_runs d ! i) \<and> capturing (g_runs d ! i) \<longleftrightarrow> g_capture_slot d = int i) \<and>
        (\<not> used (g_runs d ! i) \<longrightarrow> \<not> finished (g_runs d ! i)))"

lemma detach_wfD:
  assumes "detach_wf d"
  shows "length (g_runs d) = DETACH_MAX" "g_capture_slot d \<ge> -1" "g_capture_slot d < int DETACH_MAX"
    "\<And>i. i < DETACH_MAX \<Longrightarrow> used (g_runs d ! i) \<and> capturing (g_runs d ! i) \<longleftrightarrow> g_capture_slot d = int i"
    "\<And>i. i < DETACH_MAX \<Longrightarrow> \<not> used (g_runs d ! i) \<Longrightarrow> \<not> finished (g_runs d ! i)"
  using assms by (auto simp: detach_wf_def)

lemma zero_run_sel [simp]: "used zero_run = False" "finished zero_run = False" "capturing zero_run = False"
  by (simp_all add: zero_run_def)

lemma free_slot_runs:
  "g_runs (free_slot i d) = (g_runs d)[i := zero_run\<lparr>gen := gen (g_runs d ! i)\<rparr>]"
  "g_capture_slot (free_slot i d) = (if g_capture_slot d = int i then -1 else g_capture_slot d)"
  by (simp_all add: free_slot_def Let_def)

lemma free_slot_wf: "detach_wf d \<Longrightarrow> i < DETACH_MAX \<Longrightarrow> detach_wf (free_slot i d)"
  by (auto simp: detach_wf_def free_slot_runs nth_list_update)

lemma lookup_Some:
  assumes "lookup d h = Some i"
  shows "i < DETACH_MAX" "used (g_runs d ! i)"
  using assms by (auto simp: lookup_def Let_def DETACH_MAX_def split: if_splits)

lemma oldest_finished_None:
  "oldest_finished rs is best = None \<longleftrightarrow> best = None \<and> (\<forall>i \<in> set is. \<not> finished (rs ! i))"
  by (induction "is" arbitrary: best) (auto split: option.splits)

lemma oldest_finished_Some:
  "oldest_finished rs is best = Some i \<Longrightarrow> best = Some i \<or> (i \<in> set is \<and> finished (rs ! i))"
proof (induction "is" arbitrary: best)
  case (Cons j "is")
  then show ?case by (fastforce split: if_splits option.splits)
qed simp

lemma free_or_reclaimed_cases:
  assumes "detach_wf d"
  obtains (full) "free_or_reclaimed d = (None, d)" "\<And>i. i < DETACH_MAX \<Longrightarrow> used (g_runs d ! i) \<and> \<not> finished (g_runs d ! i)"
  | (free) i where "free_or_reclaimed d = (Some i, d)" "i < DETACH_MAX" "\<not> used (g_runs d ! i)"
  | (taken) i where "free_or_reclaimed d = (Some i, free_slot i d)" "i < DETACH_MAX" "finished (g_runs d ! i)"
proof (cases "find (\<lambda>i. \<not> used (g_runs d ! i)) [0..<DETACH_MAX]")
  case (Some i)
  then have "i < DETACH_MAX" "\<not> used (g_runs d ! i)" by (auto simp: find_Some_iff)
  then show thesis using Some free by (simp add: free_or_reclaimed_def)
next
  case None
  then have u: "used (g_runs d ! i)" if "i < DETACH_MAX" for i using that by (auto simp: find_None_iff)
  show thesis
  proof (cases "oldest_finished (g_runs d) [0..<DETACH_MAX] None")
    case none: None
    then show thesis using oldest_finished_None[of "g_runs d" "[0..<DETACH_MAX]" None] u None full
      by (simp add: free_or_reclaimed_def)
  next
    case (Some i)
    from oldest_finished_Some[OF this] show thesis using Some None taken[of i] by (simp add: free_or_reclaimed_def)
  qed
qed

text \<open>A slot is given to a claim: what the claim leaves, and that nothing else is touched.\<close>

definition keeps_running :: "detach \<Rightarrow> detach \<Rightarrow> bool" where
  "keeps_running d d' \<longleftrightarrow> (\<forall>i < DETACH_MAX. used (g_runs d ! i) \<and> \<not> finished (g_runs d ! i) \<longrightarrow> g_runs d' ! i = g_runs d ! i)"

lemma lookup_handle_of:
  "i < DETACH_MAX \<Longrightarrow> lookup d (handle_of i g) = (if used (g_runs d ! i) \<and> gen (g_runs d ! i) = g then Some i else None)"
proof -
  assume i: "i < DETACH_MAX"
  have m: "(unat g * DETACH_MAX + i) mod DETACH_MAX = i" "(unat g * DETACH_MAX + i) div DETACH_MAX = unat g"
    using i by simp_all
  have g: "(of_nat (unat g) :: u8) = g" by simp
  have p: "(int (unat g * DETACH_MAX + i) < 0) = False" by (simp only: of_nat_less_0_iff)
  show ?thesis unfolding lookup_def handle_of_def Let_def nat_int m g p by simp
qed

lemma claim_slot_spec:
  assumes wf: "detach_wf d" and w: "wants \<longrightarrow> g_capture_slot d = -1"
    and r: "claim_slot own line out cap wants d = (h, d')"
  shows "detach_wf d' \<and> keeps_running d d' \<and>
    (if \<exists>i < DETACH_MAX. \<not> (used (g_runs d ! i) \<and> \<not> finished (g_runs d ! i))
     then \<exists>i g s. lookup d' h = Some i \<and> g_runs d' ! i = new_run g own s line out cap wants \<and> h \<ge> 0
     else h = -1)"
proof -
  have put: "detach_wf d2 \<and> keeps_running d d2 \<and> (\<exists>i g s. lookup d2 h = Some i \<and> g_runs d2 ! i = new_run g own s line out cap wants \<and> h \<ge> 0)"
    if c: "claim_slot own line out cap wants d = (h, d2)" and f: "free_or_reclaimed d = (Some i, d1)" and i: "i < DETACH_MAX"
      and d1: "detach_wf d1" "keeps_running d d1" "\<not> used (g_runs d1 ! i)" "wants \<longrightarrow> g_capture_slot d1 = -1"
      and idle: "\<not> (used (g_runs d ! i) \<and> \<not> finished (g_runs d ! i))" for i d1 d2
  proof -
    let ?r = "new_run (gen (g_runs d1 ! i) + 1) own (g_seq d1 + 1) line out cap wants"
    have d2: "g_runs d2 = (g_runs d1)[i := ?r]" "g_capture_slot d2 = (if wants then int i else g_capture_slot d1)"
      "h = handle_of i (gen (g_runs d1 ! i) + 1)"
      using c f by (auto simp: claim_slot_def Let_def split: if_splits)
    note D = detach_wfD[OF d1(1)]
    have ne: "g_capture_slot d1 \<noteq> int i" using D(4)[OF i] d1(3) by auto
    have "detach_wf d2"
      unfolding detach_wf_def d2(1,2) using D d1(4) ne i
      by (auto simp: nth_list_update new_run_def)
    moreover have "keeps_running d d2" using d1(2) idle D(1) i by (auto simp: keeps_running_def d2(1) nth_list_update)
    moreover have "lookup d2 h = Some i" "g_runs d2 ! i = ?r" using i D(1) by (simp_all add: d2 lookup_handle_of new_run_def)
    moreover have "h \<ge> 0" by (simp add: d2(3) handle_of_def)
    ultimately show ?thesis by blast
  qed
  from wf show ?thesis
  proof (cases rule: free_or_reclaimed_cases)
    case full
    then have "d' = d" "h = -1" using r by (auto simp: claim_slot_def)
    then show ?thesis using full wf by (auto simp: keeps_running_def)
  next
    case (free i)
    have "keeps_running d d" by (simp add: keeps_running_def)
    from put[OF r free(1,2) wf this free(3) w] show ?thesis using free by auto
  next
    case (taken i)
    have "detach_wf (free_slot i d)" using free_slot_wf[OF wf taken(2)] .
    moreover have "keeps_running d (free_slot i d)"
      using taken detach_wfD(1)[OF wf] by (auto simp: keeps_running_def free_slot_runs nth_list_update)
    moreover have "\<not> used (g_runs (free_slot i d) ! i)" using taken detach_wfD(1)[OF wf] by (simp add: free_slot_runs)
    moreover have "wants \<longrightarrow> g_capture_slot (free_slot i d) = -1" using w by (simp add: free_slot_runs)
    ultimately show ?thesis using put[OF r taken(1,2)] taken by auto
  qed
qed

text \<open>When a claim is granted: a caller and a line that fits, a slot that no running run holds, and the buffer free if it is wanted.\<close>

definition running :: "detach \<Rightarrow> nat \<Rightarrow> bool" where
  "running d i \<longleftrightarrow> used (g_runs d ! i) \<and> \<not> finished (g_runs d ! i)"

definition claim_granted :: "u32 \<Rightarrow> string \<Rightarrow> u32 \<Rightarrow> u32 \<Rightarrow> detach \<Rightarrow> bool" where
  "claim_granted own line out cap d \<longleftrightarrow> own \<noteq> 0 \<and> line \<noteq> [] \<and> length line < DETACH_LINE_MAX \<and>
     (\<exists>i < DETACH_MAX. \<not> running d i) \<and>
     (out \<noteq> 0 \<and> cap \<noteq> 0 \<longrightarrow> \<not> (g_capture_slot d \<ge> 0 \<and> running d (nat (g_capture_slot d))))"

lemma keeps_running_trans: "keeps_running d d1 \<Longrightarrow> keeps_running d1 d2 \<Longrightarrow> keeps_running d d2"
  by (auto simp: keeps_running_def)

lemma free_slot_keeps: "detach_wf d \<Longrightarrow> i < DETACH_MAX \<Longrightarrow> \<not> running d i \<Longrightarrow> keeps_running d (free_slot i d)"
  using detach_wfD(1)[of d] by (auto simp: keeps_running_def running_def free_slot_runs nth_list_update)

lemma detach_claim_spec:
  assumes wf: "detach_wf d" and r: "detach_claim own line out cap d = (h, d')"
  shows "detach_wf d' \<and> keeps_running d d' \<and>
    (if claim_granted own line out cap d
     then \<exists>i g s. lookup d' h = Some i \<and> g_runs d' ! i = new_run g own s line out cap (out \<noteq> 0 \<and> cap \<noteq> 0) \<and> h \<ge> 0
     else h = -1)"
proof (cases "own = 0 \<or> line = [] \<or> length line \<ge> DETACH_LINE_MAX")
  case True
  then have "d' = d \<and> h = -1" using r by (auto simp: detach_claim_def split: if_splits)
  then show ?thesis using True wf by (auto simp: claim_granted_def keeps_running_def)
next
  case ok: False
  let ?w = "out \<noteq> 0 \<and> cap \<noteq> 0"
  note D = detach_wfD[OF wf]
  show ?thesis
  proof (cases "?w \<and> g_capture_slot d \<ge> 0")
    case False
    then have c: "claim_slot own line out cap ?w d = (h, d')" using r ok by (auto simp: detach_claim_def Let_def)
    have "?w \<longrightarrow> g_capture_slot d = -1" using False D(2) by auto
    note S = claim_slot_spec[OF wf this c]
    have e: "claim_granted own line out cap d = (\<exists>i < DETACH_MAX. \<not> (used (g_runs d ! i) \<and> \<not> finished (g_runs d ! i)))"
      using False ok by (auto simp: claim_granted_def running_def)
    show ?thesis unfolding e by (rule S)
  next
    case w: True
    define i where "i = nat (g_capture_slot d)"
    have i: "i < DETACH_MAX" "g_capture_slot d = int i" using w D(3) by (simp_all add: i_def DETACH_MAX_def)
    show ?thesis
    proof (cases "running d i")
      case True
      then have "d' = d \<and> h = -1" using r ok w by (auto simp: detach_claim_def Let_def running_def i_def split: if_splits)
      then show ?thesis using True wf w by (auto simp: claim_granted_def keeps_running_def i_def)
    next
      case idle: False
      have c: "claim_slot own line out cap ?w (free_slot i d) = (h, d')"
        using r ok w idle by (auto simp: detach_claim_def Let_def running_def i_def split: if_splits)
      have f: "g_capture_slot (free_slot i d) = -1" "\<not> running (free_slot i d) i"
        using i D(1) by (simp_all add: free_slot_runs running_def)
      have g: "claim_granted own line out cap d" using ok w idle i by (auto simp: claim_granted_def)
      have e: "\<exists>j < DETACH_MAX. \<not> (used (g_runs (free_slot i d) ! j) \<and> \<not> finished (g_runs (free_slot i d) ! j))"
        using f(2) i(1) by (auto simp: running_def)
      note S = claim_slot_spec[OF free_slot_wf[OF wf i(1)] impI[OF f(1)] c, unfolded if_P[OF e]]
      from S keeps_running_trans[OF free_slot_keeps[OF wf i(1) idle]] g show ?thesis by simp
    qed
  qed
qed

section \<open>Any sequence of operations\<close>

datatype detach_op = Claim u32 string u32 u32 | Finish int int | Release int | Forget u32

fun detach_step :: "detach_op \<Rightarrow> detach \<Rightarrow> detach" where
  "detach_step (Claim own line out cap) d = snd (detach_claim own line out cap d)"
| "detach_step (Finish h st) d = detach_finish h st d"
| "detach_step (Release h) d = detach_release h d"
| "detach_step (Forget own) d = detach_forget_owner own d"

definition claims :: "detach_op list \<Rightarrow> nat" where
  "claims ops = length (filter (\<lambda>c. case c of Claim _ _ _ _ \<Rightarrow> True | _ \<Rightarrow> False) ops)"

lemma claims_simps [simp]:
  "claims [] = 0" "claims (Claim a l p c # ops) = Suc (claims ops)" "claims (Finish h st # ops) = claims ops"
  "claims (Release h # ops) = claims ops" "claims (Forget a # ops) = claims ops"
  by (simp_all add: claims_def)

lemma detach_reset_wf: "detach_wf (detach_reset d)"
  by (simp add: detach_reset_def detach_wf_def)

lemma detach_finish_wf:
  assumes "detach_wf d" shows "detach_wf (detach_finish h st d)"
proof (cases "lookup d h")
  case (Some i)
  note D = detach_wfD[OF assms]
  show ?thesis using Some assms lookup_Some[OF Some] D(1)
    by (auto simp: detach_finish_def Let_def detach_wf_def nth_list_update)
qed (simp add: detach_finish_def assms)

lemma detach_release_wf: "detach_wf d \<Longrightarrow> detach_wf (detach_release h d)"
  by (auto simp: detach_release_def lookup_Some free_slot_wf split: option.split)

lemma forget_slot_wf:
  assumes "detach_wf d" "i < DETACH_MAX" shows "detach_wf (forget_slot own i d)"
proof -
  have "detach_wf (d\<lparr>g_runs := (g_runs d)[i := (g_runs d ! i)\<lparr>owner := 0, pkg_out := 0, pkg_cap := 0\<rparr>]\<rparr>)"
    using assms detach_wfD(1)[OF assms(1)] by (auto simp: detach_wf_def nth_list_update)
  from free_slot_wf[OF this assms(2)] this show ?thesis using assms(1) by (simp add: forget_slot_def Let_def)
qed

lemma fold_slots: "P d \<Longrightarrow> (\<And>i d. i < n \<Longrightarrow> P d \<Longrightarrow> P (f i d)) \<Longrightarrow> P (fold f [0..<n] d)"
  by (induction n) auto

lemma detach_forget_owner_wf: "detach_wf d \<Longrightarrow> detach_wf (detach_forget_owner own d)"
  by (simp add: detach_forget_owner_def fold_slots[where P = detach_wf] forget_slot_wf)

lemma detach_step_wf: "detach_wf d \<Longrightarrow> detach_wf (detach_step x d)"
  using detach_claim_spec[of d] by (cases x) (auto simp: detach_finish_wf detach_release_wf detach_forget_owner_wf prod_eq_iff)

lemma detach_run_wf: "detach_wf d \<Longrightarrow> detach_wf (fold detach_step ops d)"
  by (induction ops arbitrary: d) (simp_all add: detach_step_wf)

section \<open>The generation of a slot\<close>

text \<open>What an operation can do to a slot that a released handle named: nothing, or a claim with the next generation.\<close>

definition slot_kept :: "nat \<Rightarrow> detach \<Rightarrow> detach \<Rightarrow> bool" where
  "slot_kept i d d' \<longleftrightarrow> gen (g_runs d' ! i) = gen (g_runs d ! i) \<and> (used (g_runs d' ! i) \<longrightarrow> used (g_runs d ! i)) \<and>
     length (g_runs d') = length (g_runs d)"

lemma slot_kept_refl [simp]: "slot_kept i d d"
  by (simp add: slot_kept_def)

lemma slot_kept_trans: "slot_kept i d d1 \<Longrightarrow> slot_kept i d1 d2 \<Longrightarrow> slot_kept i d d2"
  by (auto simp: slot_kept_def)

lemma free_slot_kept: "j < length (g_runs d) \<Longrightarrow> slot_kept i d (free_slot j d)"
  by (cases "i = j") (auto simp: slot_kept_def free_slot_runs)

lemma forget_slot_kept: "j < length (g_runs d) \<Longrightarrow> slot_kept i d (forget_slot own j d)"
  by (cases "i = j") (auto simp: slot_kept_def forget_slot_def free_slot_runs Let_def)

lemma finish_kept: "detach_wf d \<Longrightarrow> slot_kept i d (detach_finish h st d)"
proof (cases "lookup d h")
  case (Some j)
  assume "detach_wf d"
  with Some lookup_Some[OF Some] detach_wfD(1)[of d] show ?thesis
    by (cases "i = j") (auto simp: slot_kept_def detach_finish_def Let_def)
qed (simp add: detach_finish_def)

lemma release_kept: "detach_wf d \<Longrightarrow> slot_kept i d (detach_release h d)"
  by (auto simp: detach_release_def detach_wfD(1) lookup_Some free_slot_kept split: option.split)

lemma forget_owner_kept:
  assumes "detach_wf d" shows "slot_kept i d (detach_forget_owner own d)"
proof -
  have "slot_kept i d (forget_slot own j e) \<and> length (g_runs (forget_slot own j e)) = DETACH_MAX"
    if "j < DETACH_MAX" "slot_kept i d e \<and> length (g_runs e) = DETACH_MAX" for j e
  proof -
    have "slot_kept i e (forget_slot own j e)" using that forget_slot_kept by simp
    moreover from this have "length (g_runs (forget_slot own j e)) = DETACH_MAX" using that(2) by (simp only: slot_kept_def)
    ultimately show ?thesis using that(2) slot_kept_trans by blast
  qed
  with fold_slots[where P = "\<lambda>e. slot_kept i d e \<and> length (g_runs e) = DETACH_MAX"] detach_wfD(1)[OF assms]
  have "slot_kept i d (fold (forget_slot own) [0..<DETACH_MAX] d)" by simp
  then show ?thesis by (simp add: detach_forget_owner_def)
qed

lemma claim_slot_gen:
  assumes wf: "detach_wf d" and r: "claim_slot own line out cap wants d = (h, d')"
  shows "slot_kept i d d' \<or> gen (g_runs d' ! i) = gen (g_runs d ! i) + 1"
proof -
  have put: ?thesis if c: "claim_slot own line out cap wants d = (h, d')" and f: "free_or_reclaimed d = (Some j, d1)"
    and k: "slot_kept i d d1" for j d1
  proof -
    have d': "g_runs d' = (g_runs d1)[j := new_run (gen (g_runs d1 ! j) + 1) own (g_seq d1 + 1) line out cap wants]"
      using c f by (auto simp: claim_slot_def Let_def split: if_splits)
    show ?thesis using k by (cases "j < length (g_runs d1)"; cases "i = j") (auto simp: d' slot_kept_def new_run_def not_less list_update_beyond)
  qed
  from wf show ?thesis
  proof (cases rule: free_or_reclaimed_cases)
    case full then show ?thesis using r by (auto simp: claim_slot_def)
  next
    case (free j) from put[OF r free(1)] show ?thesis by simp
  next
    case (taken j)
    from put[OF r taken(1) free_slot_kept] taken(2) detach_wfD(1)[OF wf] show ?thesis by simp
  qed
qed

lemma detach_claim_gen:
  assumes wf: "detach_wf d" and r: "detach_claim own line out cap d = (h, d')"
  shows "slot_kept i d d' \<or> gen (g_runs d' ! i) = gen (g_runs d ! i) + 1"
proof -
  have kept: ?thesis if "d1 = d \<or> (\<exists>j < DETACH_MAX. d1 = free_slot j d)" "claim_slot own line out cap w d1 = (h, d')" for d1 w
  proof -
    have "detach_wf d1" "slot_kept i d d1" using that(1) wf free_slot_wf free_slot_kept detach_wfD(1)[OF wf] by auto
    from claim_slot_gen[OF this(1) that(2), of i] this(2) slot_kept_trans show ?thesis by (auto simp: slot_kept_def)
  qed
  have "nat (g_capture_slot d) < DETACH_MAX" using detach_wfD(3)[OF wf] by (simp add: DETACH_MAX_def)
  with kept r show ?thesis unfolding detach_claim_def Let_def by (auto split: if_splits)
qed

text \<open>A slot whose handle was released, at most \<open>k\<close> claims later.\<close>

definition stale :: "nat \<Rightarrow> u8 \<Rightarrow> nat \<Rightarrow> detach \<Rightarrow> bool" where
  "stale i g k d \<longleftrightarrow> (\<exists>j \<le> k. gen (g_runs d ! i) = g + of_nat j \<and> (j = 0 \<longrightarrow> \<not> used (g_runs d ! i)))"

lemma stale_kept: "stale i g k d \<Longrightarrow> slot_kept i d d' \<Longrightarrow> stale i g k d'"
  by (auto simp: stale_def slot_kept_def)

lemma stale_claimed:
  assumes "stale i g k d" "gen (g_runs d' ! i) = gen (g_runs d ! i) + 1"
  shows "stale i g (Suc k) d'"
proof -
  from assms(1) obtain j where "j \<le> k" "gen (g_runs d ! i) = g + of_nat j" by (auto simp: stale_def)
  then show ?thesis using assms(2) unfolding stale_def by (intro exI[of _ "Suc j"]) simp
qed

lemma stale_mono: "stale i g k d \<Longrightarrow> k \<le> m \<Longrightarrow> stale i g m d"
  unfolding stale_def by (meson le_trans)

lemma stale_run: "detach_wf d \<Longrightarrow> stale i g k d \<Longrightarrow> stale i g (k + claims ops) (fold detach_step ops d)"
proof (induction ops arbitrary: d k)
  case (Cons x ops)
  have wf: "detach_wf (detach_step x d)" using Cons.prems(1) by (rule detach_step_wf)
  show ?case
  proof (cases x)
    case (Claim own line out cap)
    have "stale i g (Suc k) (detach_step x d)"
      using detach_claim_gen[OF Cons.prems(1), of own line out cap _ _ i] Cons.prems(2)
        stale_kept[OF Cons.prems(2)] stale_mono[of i g k _ "Suc k"] stale_claimed[OF Cons.prems(2)]
      by (cases "detach_claim own line out cap d") (auto simp: Claim)
    from Cons.IH[OF wf this] show ?thesis by (simp add: Claim)
  next
    case (Finish h st)
    from Cons.IH[OF wf] stale_kept[OF Cons.prems(2) finish_kept] Cons.prems(1) show ?thesis by (simp add: Finish)
  next
    case (Release h)
    from Cons.IH[OF wf] stale_kept[OF Cons.prems(2) release_kept] Cons.prems(1) show ?thesis by (simp add: Release)
  next
    case (Forget own)
    from Cons.IH[OF wf] stale_kept[OF Cons.prems(2) forget_owner_kept] Cons.prems(1) show ?thesis by (simp add: Forget)
  qed
qed simp

lemma stale_lookup:
  assumes "stale i g k d" "k < 256" "i < DETACH_MAX"
  shows "lookup d (handle_of i g) = None"
proof -
  obtain j where j: "j \<le> k" "gen (g_runs d ! i) = g + of_nat j" "j = 0 \<longrightarrow> \<not> used (g_runs d ! i)"
    using assms(1) by (auto simp: stale_def)
  have "(of_nat j :: u8) \<noteq> 0" if "j \<noteq> 0"
    using j(1) assms(2) that by (simp add: word_of_nat_eq_0_iff nat_dvd_not_less)
  then have "\<not> (used (g_runs d ! i) \<and> gen (g_runs d ! i) = g)" using j by auto
  then show ?thesis using assms(3) by (simp add: lookup_handle_of)
qed

section \<open>Properties\<close>

text \<open>
  C38. After a reset and any sequence of claims, finishes, releases and unloads the table keeps its
  invariant: two slots, the capture index names a slot or none, a run captures exactly when its slot holds
  the one buffer, and a free slot is never marked finished.  So at most one run captures.
\<close>
theorem detach_table_typed:
  "let d' = fold detach_step ops (detach_reset d)
   in detach_wf d' \<and> length (filter (\<lambda>i. used (g_runs d' ! i) \<and> capturing (g_runs d' ! i)) [0..<DETACH_MAX]) \<le> 1"
proof -
  let ?d = "fold detach_step ops (detach_reset d)"
  have wf: "detach_wf ?d" by (rule detach_run_wf[OF detach_reset_wf])
  have "filter (\<lambda>i. used (g_runs ?d ! i) \<and> capturing (g_runs ?d ! i)) [0..<DETACH_MAX] = filter (\<lambda>i. g_capture_slot ?d = int i) [0..<DETACH_MAX]"
    using detach_wfD(4)[OF wf] by (intro filter_cong) auto
  also have "length \<dots> \<le> 1" by (simp add: DETACH_MAX_def upt_rec)
  finally show ?thesis using wf by (simp add: Let_def)
qed

text \<open>
  C39. A claim on a table reached by any operations.  It is granted exactly when there is an owner, a line of
  1 to 255 characters, a slot that no running command holds and, if output is wanted, no running command
  captures; the handle then finds a fresh run of that owner with that line, and nobody else's lookup finds
  it.  Otherwise it answers -1.  In every case no command that is still running loses its slot or
  anything in it.
\<close>
theorem detach_claim_exact:
  assumes "detach_claim own line out cap (fold detach_step ops (detach_reset d0)) = (h, d')"
  shows "let d = fold detach_step ops (detach_reset d0) in
    (\<forall>i < DETACH_MAX. running d i \<longrightarrow> g_runs d' ! i = g_runs d ! i) \<and>
    (if claim_granted own line out cap d
     then h \<ge> 0 \<and> (\<exists>i g s. detach_find h own d' = Some i \<and> g_runs d' ! i = new_run g own s line out cap (out \<noteq> 0 \<and> cap \<noteq> 0)) \<and>
       (\<forall>other. other \<noteq> own \<longrightarrow> detach_find h other d' = None)
     else h = -1)"
proof -
  let ?d = "fold detach_step ops (detach_reset d0)"
  have "detach_wf ?d" by (rule detach_run_wf[OF detach_reset_wf])
  note S = detach_claim_spec[OF this assms]
  have "own \<noteq> 0" if "claim_granted own line out cap ?d" using that by (simp add: claim_granted_def)
  with S show ?thesis by (auto simp: Let_def detach_find_def keeps_running_def running_def new_run_def)
qed

text \<open>
  C40. A handle that was released stays dead: whatever is claimed, finished, released or unloaded afterwards, with
  fewer than 256 claims among it, the handle finds no run, so no poll, finish or release through it can
  reach somebody else's command.
\<close>
theorem released_handle_stays_stale:
  assumes "i < DETACH_MAX" "claims later < 256"
  shows "let d = fold detach_step ops (detach_reset d0); d' = fold detach_step later (detach_release (handle_of i g) d)
    in gen (g_runs d ! i) = g \<longrightarrow> detach_of (handle_of i g) d' = None \<and> detach_find (handle_of i g) own d' = None \<and>
      detach_finish (handle_of i g) st d' = d' \<and> detach_release (handle_of i g) d' = d'"
proof -
  let ?d = "fold detach_step ops (detach_reset d0)"
  have wf: "detach_wf ?d" by (rule detach_run_wf[OF detach_reset_wf])
  have l: "lookup (fold detach_step later (detach_release (handle_of i g) ?d)) (handle_of i g) = None" if g: "gen (g_runs ?d ! i) = g"
  proof -
    have "stale i g 0 (detach_release (handle_of i g) ?d)"
      using g assms(1) detach_wfD(1)[OF wf] by (simp add: detach_release_def lookup_handle_of stale_def free_slot_runs)
    from stale_run[OF detach_release_wf[OF wf] this, of later] stale_lookup assms show ?thesis by simp
  qed
  show ?thesis using l by (simp add: Let_def detach_of_def detach_find_def detach_finish_def detach_release_def)
qed

section \<open>Witnesses\<close>

definition two_ops :: "detach_op list" where
  "two_ops = [Claim 0x20001000 ''scan'' 0x20002000 64, Finish 2 0]"

definition any_table :: detach where
  "any_table = \<lparr>g_runs = [], g_seq = 7, g_capture = [], g_capture_slot = 0\<rparr>"

lemma detach_claim_exact_witness:
  "detach_find (fst (detach_claim 0x20005000 ''beep'' 0 0 (fold detach_step two_ops (detach_reset any_table)))) 0x20005000
     (snd (detach_claim 0x20005000 ''beep'' 0 0 (fold detach_step two_ops (detach_reset any_table)))) \<noteq> None"
proof -
  let ?d = "fold detach_step two_ops (detach_reset any_table)"
  have "claim_granted 0x20005000 ''beep'' 0 0 ?d"
    by (code_simp)
  with detach_claim_exact[where own = "0x20005000" and line = "''beep''" and out = 0 and cap = 0 and ops = two_ops and ?d0.0 = any_table,
      OF prod.collapse[symmetric]]
  show ?thesis by (auto simp: Let_def)
qed

lemma released_handle_stays_stale_witness:
  "detach_of 2 (fold detach_step [Claim 0x20005000 ''beep'' 0 0] (detach_release 2 (fold detach_step two_ops (detach_reset any_table)))) = None"
proof -
  have "gen (g_runs (fold detach_step two_ops (detach_reset any_table)) ! 0) = 1" by code_simp
  with released_handle_stays_stale[of 0 "[Claim 0x20005000 ''beep'' 0 0]" two_ops any_table 1]
  show ?thesis by (simp add: Let_def DETACH_MAX_def handle_of_def)
qed

end
