(* ===== verification/LineEdit.thy ===== *)
theory LineEdit
  imports CLib Interrupt "HOL-Library.Monad_Syntax"
begin

text \<open>
  \<open>os/core/lineedit.cpp\<close>: the line editor of the shell.  The edited line lives in a buffer of \<open>cap\<close>
  characters with a length and a cursor; a write outside the buffer is the value \<open>None\<close> of the whole
  computation.  The terminal is the list of what \<open>getch\<close> returns (\<open>None\<close> for \<open>LE_NO_KEY\<close>) and the list
  of what was put on it; completion and history are parameters.  The Ctrl+C branch works on the state of
  \<open>Interrupt\<close>.
\<close>

section \<open>The buffer\<close>

definition memmove :: "nat \<Rightarrow> nat \<Rightarrow> nat \<Rightarrow> string \<Rightarrow> string option" where
  "memmove dst src n s =
     (if dst + n \<le> length s \<and> src + n \<le> length s
      then Some (take dst s @ take n (drop src s) @ drop (dst + n) s) else None)"

definition store_at :: "nat \<Rightarrow> char \<Rightarrow> string \<Rightarrow> string option" where
  "store_at i c s = (if i < length s then Some (s[i := c]) else None)"

text \<open>The two loops that walk back from a position and forward up to the length.\<close>

fun skip_back :: "(char \<Rightarrow> bool) \<Rightarrow> string \<Rightarrow> nat \<Rightarrow> nat" where
  "skip_back p s 0 = 0"
| "skip_back p s (Suc n) = (if p (s ! n) then skip_back p s n else Suc n)"

function skip_fwd :: "(char \<Rightarrow> bool) \<Rightarrow> string \<Rightarrow> nat \<Rightarrow> nat \<Rightarrow> nat" where
  "skip_fwd p s len pos = (if pos < len \<and> p (s ! pos) then skip_fwd p s len (pos + 1) else pos)"
  by pat_completeness auto
termination
  by (relation "measure (\<lambda>(p, s, len, pos). len - pos)") auto

declare skip_fwd.simps [simp del]

definition line_word_start :: "string \<Rightarrow> nat \<Rightarrow> nat \<Rightarrow> nat" where
  "line_word_start s len pos =
     (let pos = (if pos > len then len else pos)
      in skip_back (\<lambda>c. c \<noteq> CHR '' '') s (skip_back (\<lambda>c. c = CHR '' '') s pos))"

definition line_word_end :: "string \<Rightarrow> nat \<Rightarrow> nat \<Rightarrow> nat" where
  "line_word_end s len pos =
     (if pos > len then len
      else skip_fwd (\<lambda>c. c \<noteq> CHR '' '') s len (skip_fwd (\<lambda>c. c = CHR '' '') s len pos))"

definition line_insert :: "string \<Rightarrow> nat \<Rightarrow> nat \<Rightarrow> nat \<Rightarrow> char \<Rightarrow> (string \<times> nat) option" where
  "line_insert s len cap pos c =
     (if len + 1 \<ge> cap then Some (s, len)
      else let pos = (if pos > len then len else pos) in do {
        s \<leftarrow> memmove (pos + 1) pos (len - pos) s;
        s \<leftarrow> store_at pos c s;
        s \<leftarrow> store_at (len + 1) NUL s;
        Some (s, len + 1) })"

definition line_delete_back :: "string \<Rightarrow> nat \<Rightarrow> nat \<Rightarrow> nat \<Rightarrow> (string \<times> nat \<times> nat) option" where
  "line_delete_back s len pos count =
     (let pos = (if pos > len then len else pos); count = (if count > pos then pos else count) in
      if count \<noteq> 0 then do {
        s \<leftarrow> memmove (pos - count) pos (len - pos) s;
        s \<leftarrow> store_at (len - count) NUL s;
        Some (s, len - count, pos - count) }
      else Some (s, len, pos))"

definition line_delete_at :: "string \<Rightarrow> nat \<Rightarrow> nat \<Rightarrow> (string \<times> nat) option" where
  "line_delete_at s len pos =
     (if pos \<ge> len then Some (s, len)
      else do {
        s \<leftarrow> memmove pos (pos + 1) (len - pos - 1) s;
        s \<leftarrow> store_at (len - 1) NUL s;
        Some (s, len - 1) })"

section \<open>Candidates\<close>

fun common_loop :: "nat \<Rightarrow> string list \<Rightarrow> string" where
  "common_loop 0 cands = []"
| "common_loop (Suc room) cands = (case hd cands of
     [] \<Rightarrow> []
   | c # _ \<Rightarrow> if list_all (\<lambda>d. d \<noteq> [] \<and> hd d = c) (tl cands) then c # common_loop room (map tl cands) else [])"

definition line_common_prefix :: "string list \<Rightarrow> nat \<Rightarrow> string" where
  "line_common_prefix cands cap = (if cands = [] \<or> cap = 0 then [] else common_loop (cap - 1) cands)"

definition line_ghost :: "string list \<Rightarrow> string \<Rightarrow> nat \<Rightarrow> string" where
  "line_ghost cands pre cap =
     (if length cands \<noteq> 1 \<or> cap = 0 then []
      else if take (length pre) (hd cands) \<noteq> pre then []
      else take (cap - 1) (drop (length pre) (hd cands)))"

section \<open>Escape sequences\<close>

datatype line_key = KEY_UP | KEY_DOWN | KEY_LEFT | KEY_RIGHT | KEY_HOME | KEY_END | KEY_DELETE
  | KEY_WORD_LEFT | KEY_WORD_RIGHT | KEY_UNKNOWN

definition line_decode_escape :: "string \<Rightarrow> line_key" where
  "line_decode_escape seq = (let len = length seq in
     if len = 0 then KEY_UNKNOWN
     else if seq ! 0 = CHR ''O'' \<and> len \<ge> 2 then
       (let k = seq ! 1 in
        if k = CHR ''A'' then KEY_UP else if k = CHR ''B'' then KEY_DOWN
        else if k = CHR ''C'' then KEY_RIGHT else if k = CHR ''D'' then KEY_LEFT
        else if k = CHR ''H'' then KEY_HOME else if k = CHR ''F'' then KEY_END else KEY_UNKNOWN)
     else if seq ! 0 \<noteq> CHR ''['' then KEY_UNKNOWN
     else let final = seq ! (len - 1);
        ctrl = list_ex (\<lambda>i. seq ! i = CHR '';'' \<and> (seq ! (i + 1) = CHR ''5'' \<or> seq ! (i + 1) = CHR ''6'')) [1..<len - 1] in
       if final = CHR ''A'' then KEY_UP
       else if final = CHR ''B'' then KEY_DOWN
       else if final = CHR ''C'' then (if ctrl then KEY_WORD_RIGHT else KEY_RIGHT)
       else if final = CHR ''D'' then (if ctrl then KEY_WORD_LEFT else KEY_LEFT)
       else if final = CHR ''H'' then KEY_HOME
       else if final = CHR ''F'' then KEY_END
       else if final = CHR ''~'' then
         (if len \<ge> 2 then
            if seq ! 1 = CHR ''3'' then KEY_DELETE
            else if seq ! 1 = CHR ''1'' \<or> seq ! 1 = CHR ''7'' then KEY_HOME
            else if seq ! 1 = CHR ''4'' \<or> seq ! 1 = CHR ''8'' then KEY_END
            else KEY_UNKNOWN
          else KEY_UNKNOWN)
       else KEY_UNKNOWN)"

section \<open>The terminal\<close>

definition COMP_MAX :: nat where "COMP_MAX = 16"
definition COMP_LEN :: nat where "COMP_LEN = 96"
definition ESC_MAX :: nat where "ESC_MAX = 12"

abbreviation ESC :: char where "ESC \<equiv> CHR 0x1B"
abbreviation TAB :: char where "TAB \<equiv> CHR 0x09"

datatype term_event = Put char | Flushed

definition puts :: "string \<Rightarrow> term_event list" where "puts s = map Put s"

type_synonym keys = "char option list"

record line_edit =
  complete :: "(string \<Rightarrow> nat \<Rightarrow> nat \<Rightarrow> string option) option"
  history :: "(nat \<Rightarrow> string option) option"
  prompt :: string
  has_flush :: bool

definition redraw_out :: "line_edit \<Rightarrow> string \<Rightarrow> nat \<Rightarrow> string \<Rightarrow> term_event list" where
  "redraw_out le txt pos ghost =
     (let len = length txt; shown = (ghost \<noteq> [] \<and> pos = len);
        left = (len - pos) + (if shown then length ghost else 0) in
      puts [CR] @ puts (ESC # ''[K'') @ puts (prompt le) @ puts txt @
      (if shown then puts (ESC # ''[90m'') @ puts ghost @ puts (ESC # ''[0m'') else []) @
      (if left \<noteq> 0 then puts (ESC # ''['') @ puts (to_dec left) @ puts ''D'' else []) @
      (if has_flush le then [Flushed] else []))"

text \<open>The sequence after an ESC: up to its final character, a silence, or the cap.\<close>

fun read_escape :: "nat \<Rightarrow> bool \<Rightarrow> keys \<Rightarrow> string \<times> keys" where
  "read_escape 0 first inp = ([], inp)"
| "read_escape (Suc room) first [] = ([], [])"
| "read_escape (Suc room) first (None # r) = ([], r)"
| "read_escape (Suc room) first (Some k # r) =
     (if (first \<and> k = CHR ''O'') \<or> \<not> (CHR ''@'' \<le> k \<and> k \<le> CHR ''~'' \<and> \<not> (first \<and> k = CHR ''[''))
      then (case read_escape room False r of (s, r') \<Rightarrow> (k # s, r'))
      else ([k], r))"

lemma read_escape_shorter: "length (snd (read_escape room first inp)) \<le> length inp"
  by (induction room first inp rule: read_escape.induct) (auto split: prod.split)

section \<open>The editor\<close>

record editor =
  ebuf :: string
  elen :: nat
  epos :: nat
  browse :: int
  ghost :: string
  outs :: "term_event list"
  ints :: intr

fun collect :: "(nat \<Rightarrow> string option) \<Rightarrow> nat \<Rightarrow> nat \<Rightarrow> string list" where
  "collect f 0 n = []"
| "collect f (Suc room) n = (case f n of None \<Rightarrow> [] | Some s \<Rightarrow> s # collect f room (n + 1))"

definition ghost_for :: "line_edit \<Rightarrow> string \<Rightarrow> nat \<Rightarrow> nat \<Rightarrow> string" where
  "ghost_for le s len pos = (case complete le of
     None \<Rightarrow> []
   | Some f \<Rightarrow>
       if pos \<noteq> len \<or> len = 0 then []
       else let ws = line_word_start s len pos; plen = pos - ws in
         if plen = 0 \<or> plen \<ge> COMP_LEN then []
         else let pre = take plen (drop ws s) in line_ghost (collect (f pre ws) 2 0) pre COMP_LEN)"

definition refresh_ghost :: "line_edit \<Rightarrow> editor \<Rightarrow> editor" where
  "refresh_ghost le e = e\<lparr>ghost := ghost_for le (ebuf e) (elen e) (epos e)\<rparr>"

definition emit :: "term_event list \<Rightarrow> editor \<Rightarrow> editor" where
  "emit x e = e\<lparr>outs := outs e @ x\<rparr>"

definition redraw :: "line_edit \<Rightarrow> editor \<Rightarrow> editor" where
  "redraw le e = emit (redraw_out le (take (elen e) (ebuf e)) (epos e) (ghost e)) e"

definition shown :: "line_edit \<Rightarrow> editor \<Rightarrow> editor" where
  "shown le e = redraw le (refresh_ghost le e)"

fun insert_all :: "nat \<Rightarrow> string \<Rightarrow> string \<times> nat \<times> nat \<Rightarrow> (string \<times> nat \<times> nat) option" where
  "insert_all cap [] (s, len, pos) = Some (s, len, pos)"
| "insert_all cap (c # cs) (s, len, pos) =
     (if len + 1 < cap then do { (s, len) \<leftarrow> line_insert s len cap pos c; insert_all cap cs (s, len, pos + 1) }
      else Some (s, len, pos))"

definition set_text :: "string \<times> nat \<times> nat \<Rightarrow> editor \<Rightarrow> editor" where
  "set_text t e = e\<lparr>ebuf := fst t, elen := fst (snd t), epos := snd (snd t)\<rparr>"

definition print_at_start :: "nat \<Rightarrow> string \<Rightarrow> string \<Rightarrow> string option" where
  "print_at_start cap h s = (let t = snprintf cap h @ [NUL] in
     if cap = 0 then Some s else if length t \<le> length s then Some (t @ drop (length t) s) else None)"

definition browse_to :: "line_edit \<Rightarrow> nat \<Rightarrow> int \<Rightarrow> editor \<Rightarrow> editor option" where
  "browse_to le cap dir e = (case history le of
     None \<Rightarrow> Some e
   | Some hist \<Rightarrow>
       let want = (if browse e + dir < -1 then -1 else browse e + dir) in
       case (if want < 0 then Some [] else hist (nat want)) of
         None \<Rightarrow> Some e
       | Some h \<Rightarrow> do {
           s \<leftarrow> print_at_start cap h (ebuf e);
           Some (set_text (s, length (cstr s), length (cstr s)) (e\<lparr>browse := want\<rparr>)) })"

definition accept_ghost :: "nat \<Rightarrow> editor \<Rightarrow> editor option" where
  "accept_ghost cap e = do { t \<leftarrow> insert_all cap (ghost e) (ebuf e, elen e, epos e); Some (set_text t e) }"

fun on_key :: "line_edit \<Rightarrow> nat \<Rightarrow> line_key \<Rightarrow> editor \<Rightarrow> editor option" where
  "on_key le cap KEY_LEFT e = Some (e\<lparr>epos := epos e - 1\<rparr>)"
| "on_key le cap KEY_RIGHT e =
     (if epos e = elen e \<and> ghost e \<noteq> [] then accept_ghost cap e
      else Some (if epos e < elen e then e\<lparr>epos := epos e + 1\<rparr> else e))"
| "on_key le cap KEY_HOME e = Some (e\<lparr>epos := 0\<rparr>)"
| "on_key le cap KEY_END e = do {
     e \<leftarrow> (if epos e = elen e \<and> ghost e \<noteq> [] then accept_ghost cap e else Some e);
     Some (e\<lparr>epos := elen e\<rparr>) }"
| "on_key le cap KEY_WORD_LEFT e = Some (e\<lparr>epos := line_word_start (ebuf e) (elen e) (epos e)\<rparr>)"
| "on_key le cap KEY_WORD_RIGHT e = Some (e\<lparr>epos := line_word_end (ebuf e) (elen e) (epos e)\<rparr>)"
| "on_key le cap KEY_DELETE e = do {
     (s, len) \<leftarrow> line_delete_at (ebuf e) (elen e) (epos e);
     Some (e\<lparr>ebuf := s, elen := len, browse := -1\<rparr>) }"
| "on_key le cap KEY_UP e = browse_to le cap 1 e"
| "on_key le cap KEY_DOWN e = browse_to le cap (-1) e"
| "on_key le cap KEY_UNKNOWN e = Some e"

text \<open>The candidates of an ambiguous word, four to a line.\<close>

definition offer_out :: "string list \<Rightarrow> term_event list" where
  "offer_out cands =
     puts [NL] @ concat (map (\<lambda>i. puts ''  '' @ puts (cands ! i) @
       (if i mod 4 = 3 \<or> i + 1 = length cands then puts [NL] else [])) [0..<length cands]) @
     (if length cands = COMP_MAX then puts ''  ...'' @ puts [NL] else [])"

definition on_tab :: "line_edit \<Rightarrow> nat \<Rightarrow> editor \<Rightarrow> editor option" where
  "on_tab le cap e = (case complete le of
     None \<Rightarrow> Some e
   | Some f \<Rightarrow>
       let s = ebuf e; len = elen e; pos = epos e;
           ws = line_word_start s len pos;
           plen = min (pos - ws) (COMP_LEN - 1);
           pre = take plen (drop ws s);
           cands = collect (f pre ws) COMP_MAX 0 in
       if cands = [] then Some e
       else let common = line_common_prefix cands COMP_LEN in
         if common \<noteq> pre then do {
           s \<leftarrow> memmove ws pos (len - pos) s;
           (s, len, pos) \<leftarrow> insert_all cap common (s, len - plen, ws);
           (s, len, pos) \<leftarrow>
             (if length cands = 1 \<and> len + 1 < cap \<and> (pos = len \<or> s ! pos \<noteq> CHR '' '')
              then do { (s, len) \<leftarrow> line_insert s len cap pos (CHR '' ''); Some (s, len, pos + 1) }
              else Some (s, len, pos));
           Some (shown le (set_text (s, len, pos) e)) }
         else Some (shown le (emit (offer_out cands) e)))"

definition delete_back :: "line_edit \<Rightarrow> nat \<Rightarrow> editor \<Rightarrow> editor option" where
  "delete_back le count e = do {
     t \<leftarrow> line_delete_back (ebuf e) (elen e) (epos e) count;
     Some (shown le ((set_text t e)\<lparr>browse := -1\<rparr>)) }"

definition printable :: "char \<Rightarrow> bool" where
  "printable c \<longleftrightarrow> 32 \<le> (of_char c :: nat) \<and> (of_char c :: nat) < 127"

definition type_char :: "line_edit \<Rightarrow> nat \<Rightarrow> char \<Rightarrow> editor \<Rightarrow> editor option" where
  "type_char le cap c e =
     (if printable c then do {
        (s, len) \<leftarrow> line_insert (ebuf e) (elen e) cap (epos e) c;
        if len \<noteq> elen e then Some (shown le (e\<lparr>ebuf := s, elen := len, epos := epos e + 1, browse := -1\<rparr>)) else Some e }
      else Some e)"

text \<open>One character that neither ends the line nor starts an escape sequence.\<close>

definition on_char :: "line_edit \<Rightarrow> nat \<Rightarrow> char \<Rightarrow> editor \<Rightarrow> editor option" where
  "on_char le cap c e =
     (if c = ETX then
        Some (emit (puts (''^C'' @ [NL]) @ puts (prompt le))
          (e\<lparr>elen := 0, epos := 0, ints := intr_stash_clear (intr_clear (intr_raise (ints e)))\<rparr>))
          \<bind> (\<lambda>e. do { s \<leftarrow> store_at 0 NUL (ebuf e); Some (e\<lparr>ebuf := s\<rparr>) })
      else if c = CHR 0x7F \<or> c = CHR 0x08 then delete_back le 1 e
      else if c = CHR 0x17 then delete_back le (epos e - line_word_start (ebuf e) (elen e) (epos e)) e
      else if c = CHR 0x15 then delete_back le (epos e) e
      else if c = CHR 0x0B then do { s \<leftarrow> store_at (epos e) NUL (ebuf e); Some (shown le (e\<lparr>ebuf := s, elen := epos e\<rparr>)) }
      else if c = CHR 0x01 then Some (shown le (e\<lparr>epos := 0\<rparr>))
      else if c = CHR 0x05 then Some (shown le (e\<lparr>epos := elen e\<rparr>))
      else if c = TAB then on_tab le cap e
      else type_char le cap c e)"

definition on_enter :: "line_edit \<Rightarrow> editor \<Rightarrow> editor option" where
  "on_enter le e =
     (let e = (if ghost e \<noteq> [] then redraw le (e\<lparr>ghost := []\<rparr>) else e); e = emit (puts [NL]) e
      in do { s \<leftarrow> store_at (elen e) NUL (ebuf e); Some (e\<lparr>ebuf := s\<rparr>) })"

text \<open>
  The loop over what the terminal delivers.  The result says whether a line was entered and, then, what of the
  input is left; \<open>None\<close> as its second component is an editor that still waits.
\<close>

function edit_loop :: "line_edit \<Rightarrow> nat \<Rightarrow> keys \<Rightarrow> editor \<Rightarrow> (editor \<times> keys option) option" where
  "edit_loop le cap [] e = Some (e, None)"
| "edit_loop le cap (None # r) e = edit_loop le cap r e"
| "edit_loop le cap (Some c # r) e =
     (if c = CR \<or> c = NL then do { e \<leftarrow> on_enter le e; Some (e, Some r) }
      else if c = ESC then
        (case read_escape ESC_MAX True r of (seq, r') \<Rightarrow>
          if seq = [] then edit_loop le cap r' e
          else do { e \<leftarrow> on_key le cap (line_decode_escape seq) e; edit_loop le cap r' (shown le e) })
      else do { e \<leftarrow> on_char le cap c e; edit_loop le cap r e })"
  by pat_completeness auto
termination
  by (relation "measure (\<lambda>(le, cap, inp, e). length inp)")
     (auto dest!: arg_cong[where f = "\<lambda>x. length (snd x)"] intro!: le_imp_less_Suc
        intro: order_trans[OF _ read_escape_shorter] simp: read_escape_shorter)

definition line_edit_run :: "line_edit \<Rightarrow> nat \<Rightarrow> string \<Rightarrow> intr \<Rightarrow> keys \<Rightarrow> (editor \<times> keys option) option" where
  "line_edit_run le cap buf s inp = do {
     b \<leftarrow> store_at 0 NUL buf;
     edit_loop le cap inp \<lparr>ebuf = b, elen = 0, epos = 0, browse = -1, ghost = [], outs = puts (prompt le), ints = s\<rparr> }"

section \<open>The editor as text before and after the cursor\<close>

record text_ed =
  bef :: string
  aft :: string
  tbrowse :: int
  tghost :: string
  touts :: "term_event list"
  tints :: intr

text \<open>The text up to the word that ends at the cursor, and that word with the gap after it.\<close>

definition cut_word :: "string \<Rightarrow> string" where
  "cut_word b = rev (dropWhile (\<lambda>c. c \<noteq> CHR '' '') (dropWhile (\<lambda>c. c = CHR '' '') (rev b)))"

definition word_of :: "string \<Rightarrow> string" where "word_of b = drop (length (cut_word b)) b"

definition next_word :: "string \<Rightarrow> string" where
  "next_word a = takeWhile (\<lambda>c. c = CHR '' '') a @ takeWhile (\<lambda>c. c \<noteq> CHR '' '') (dropWhile (\<lambda>c. c = CHR '' '') a)"

definition t_ghost :: "line_edit \<Rightarrow> text_ed \<Rightarrow> string" where
  "t_ghost le t = (case complete le of
     None \<Rightarrow> []
   | Some f \<Rightarrow>
       if aft t \<noteq> [] \<or> bef t = [] \<or> length (word_of (bef t)) \<ge> COMP_LEN then []
       else line_ghost (collect (f (word_of (bef t)) (length (cut_word (bef t)))) 2 0) (word_of (bef t)) COMP_LEN)"

definition t_emit :: "term_event list \<Rightarrow> text_ed \<Rightarrow> text_ed" where
  "t_emit x t = t\<lparr>touts := touts t @ x\<rparr>"

definition t_redraw :: "line_edit \<Rightarrow> text_ed \<Rightarrow> text_ed" where
  "t_redraw le t = t_emit (redraw_out le (bef t @ aft t) (length (bef t)) (tghost t)) t"

definition t_shown :: "line_edit \<Rightarrow> text_ed \<Rightarrow> text_ed" where
  "t_shown le t = t_redraw le (t\<lparr>tghost := t_ghost le t\<rparr>)"

definition t_room :: "nat \<Rightarrow> text_ed \<Rightarrow> nat" where "t_room cap t = cap - 1 - length (bef t) - length (aft t)"

definition t_insert :: "nat \<Rightarrow> string \<Rightarrow> text_ed \<Rightarrow> text_ed" where
  "t_insert cap s t = t\<lparr>bef := bef t @ take (t_room cap t) s\<rparr>"

definition t_browse :: "line_edit \<Rightarrow> nat \<Rightarrow> int \<Rightarrow> text_ed \<Rightarrow> text_ed" where
  "t_browse le cap dir t = (case history le of
     None \<Rightarrow> t
   | Some hist \<Rightarrow>
       let want = max (tbrowse t + dir) (-1) in
       case (if want < 0 then Some [] else hist (nat want)) of
         None \<Rightarrow> t
       | Some h \<Rightarrow> t\<lparr>tbrowse := want, bef := cstr (take (cap - 1) h), aft := []\<rparr>)"

fun t_key :: "line_edit \<Rightarrow> nat \<Rightarrow> line_key \<Rightarrow> text_ed \<Rightarrow> text_ed" where
  "t_key le cap KEY_LEFT t = (if bef t = [] then t else t\<lparr>bef := butlast (bef t), aft := last (bef t) # aft t\<rparr>)"
| "t_key le cap KEY_RIGHT t = (case aft t of
     [] \<Rightarrow> t_insert cap (tghost t) t
   | c # r \<Rightarrow> t\<lparr>bef := bef t @ [c], aft := r\<rparr>)"
| "t_key le cap KEY_HOME t = t\<lparr>bef := [], aft := bef t @ aft t\<rparr>"
| "t_key le cap KEY_END t = (if aft t = [] then t_insert cap (tghost t) t else t\<lparr>bef := bef t @ aft t, aft := []\<rparr>)"
| "t_key le cap KEY_WORD_LEFT t = t\<lparr>bef := cut_word (bef t), aft := word_of (bef t) @ aft t\<rparr>"
| "t_key le cap KEY_WORD_RIGHT t =
     t\<lparr>bef := bef t @ next_word (aft t), aft := drop (length (next_word (aft t))) (aft t)\<rparr>"
| "t_key le cap KEY_DELETE t = t\<lparr>aft := tl (aft t), tbrowse := -1\<rparr>"
| "t_key le cap KEY_UP t = t_browse le cap 1 t"
| "t_key le cap KEY_DOWN t = t_browse le cap (-1) t"
| "t_key le cap KEY_UNKNOWN t = t"

text \<open>
  Tab.  The word is replaced by what the candidates agree on; of a word longer than the buffer for it, only as many
  characters are taken out as that buffer holds, and the rest of the old text stays at the end.
\<close>

definition t_tab :: "line_edit \<Rightarrow> nat \<Rightarrow> text_ed \<Rightarrow> text_ed" where
  "t_tab le cap t = (case complete le of
     None \<Rightarrow> t
   | Some f \<Rightarrow>
       let gap = cut_word (bef t); pre = take (COMP_LEN - 1) (word_of (bef t));
           cands = collect (f pre (length gap)) COMP_MAX 0; common = line_common_prefix cands COMP_LEN;
           stale = take (length (word_of (bef t)) - length pre) (drop (length gap + length (aft t)) (bef t @ aft t)) in
       if cands = [] then t
       else if common = pre then t_shown le (t_emit (offer_out cands) t)
       else let t = t_insert cap common (t\<lparr>bef := gap, aft := aft t @ stale\<rparr>) in
         t_shown le (if length cands = 1 \<and> (aft t = [] \<or> hd (aft t) \<noteq> CHR '' '') then t_insert cap '' '' t else t))"

definition t_typed :: "line_edit \<Rightarrow> text_ed \<Rightarrow> text_ed" where
  "t_typed le t = t_shown le (t\<lparr>tbrowse := -1\<rparr>)"

definition t_char :: "line_edit \<Rightarrow> nat \<Rightarrow> char \<Rightarrow> text_ed \<Rightarrow> text_ed" where
  "t_char le cap c t =
     (if c = ETX then t_emit (puts (''^C'' @ [NL]) @ puts (prompt le))
        (t\<lparr>bef := [], aft := [], tints := (tints t)\<lparr>g_pending := False, g_head := 0, g_tail := 0\<rparr>\<rparr>)
      else if c = CHR 0x7F \<or> c = CHR 0x08 then t_typed le (t\<lparr>bef := butlast (bef t)\<rparr>)
      else if c = CHR 0x17 then t_typed le (t\<lparr>bef := cut_word (bef t)\<rparr>)
      else if c = CHR 0x15 then t_typed le (t\<lparr>bef := []\<rparr>)
      else if c = CHR 0x0B then t_shown le (t\<lparr>aft := []\<rparr>)
      else if c = CHR 0x01 then t_shown le (t_key le cap KEY_HOME t)
      else if c = CHR 0x05 then t_shown le (t\<lparr>bef := bef t @ aft t, aft := []\<rparr>)
      else if c = TAB then t_tab le cap t
      else if printable c \<and> 0 < t_room cap t then t_typed le (t_insert cap [c] t)
      else t)"

definition t_enter :: "line_edit \<Rightarrow> text_ed \<Rightarrow> text_ed" where
  "t_enter le t = t_emit (puts [NL]) (if tghost t \<noteq> [] then t_redraw le (t\<lparr>tghost := []\<rparr>) else t)"

function t_loop :: "line_edit \<Rightarrow> nat \<Rightarrow> keys \<Rightarrow> text_ed \<Rightarrow> text_ed \<times> keys option" where
  "t_loop le cap [] t = (t, None)"
| "t_loop le cap (None # r) t = t_loop le cap r t"
| "t_loop le cap (Some c # r) t =
     (if c = CR \<or> c = NL then (t_enter le t, Some r)
      else if c = ESC then
        (case read_escape ESC_MAX True r of (seq, r') \<Rightarrow>
          t_loop le cap r' (if seq = [] then t else t_shown le (t_key le cap (line_decode_escape seq) t)))
      else t_loop le cap r (t_char le cap c t))"
  by pat_completeness auto
termination
  by (relation "measure (\<lambda>(le, cap, inp, t). length inp)")
     (auto dest!: arg_cong[where f = "\<lambda>x. length (snd x)"] intro!: le_imp_less_Suc
        intro: order_trans[OF _ read_escape_shorter] simp: read_escape_shorter)

section \<open>The buffer holds the text\<close>

definition holds :: "nat \<Rightarrow> string \<Rightarrow> nat \<Rightarrow> nat \<Rightarrow> string \<Rightarrow> string \<Rightarrow> bool" where
  "holds cap s len pos b a \<longleftrightarrow>
     length s = cap \<and> len = length b + length a \<and> pos = length b \<and> len < cap \<and> take len s = b @ a"

lemma holdsE:
  assumes "holds cap s len pos b a"
  obtains r where "s = b @ a @ r" "r \<noteq> []" "cap = length b + length a + length r" "len = length b + length a" "pos = length b"
proof -
  have "s = (b @ a) @ drop len s" using assms append_take_drop_id[of len s] unfolding holds_def by metis
  then have "s = b @ a @ drop len s" by simp
  moreover have "drop len s \<noteq> []" using assms by (simp add: holds_def)
  moreover have "cap = length b + length a + length (drop len s)" using assms by (auto simp: holds_def)
  ultimately show thesis using that assms by (simp add: holds_def)
qed

lemma holdsI:
  "s = b @ a @ r \<Longrightarrow> r \<noteq> [] \<Longrightarrow> cap = length b + length a + length r \<Longrightarrow> len = length b + length a \<Longrightarrow> pos = length b
     \<Longrightarrow> holds cap s len pos b a"
  by (simp add: holds_def)

lemma holds_move: "holds cap s len pos b a \<Longrightarrow> b @ a = b' @ a' \<Longrightarrow> pos' = length b' \<Longrightarrow> holds cap s len pos' b' a'"
  unfolding holds_def by (metis length_append)

lemma holds_cut: "holds cap s len pos b a \<Longrightarrow> k \<le> length a \<Longrightarrow> len' = length b + k \<Longrightarrow> holds cap s len' pos b (take k a)"
  by (erule holdsE, rule holdsI[where r = "drop k a @ _"]) auto

lemma memmove_right: "memmove (Suc (length b)) (length b) (length a) (b @ a @ x # r) = Some (b @ hd (a @ [x]) # a @ r)"
  by (cases a) (simp_all add: memmove_def)

lemma memmove_left:
  "memmove (length b) (length b + length m) (length a) (b @ m @ a @ r) = Some (b @ a @ drop (length a) (m @ a) @ r)"
  by (simp add: memmove_def)

lemma store_at_append: "i = length b \<Longrightarrow> store_at i c (b @ x # r) = Some (b @ c # r)"
  by (simp add: store_at_def list_update_append)

lemma insert_holds:
  assumes "holds cap s len pos b a"
  shows "if length b + length a + 1 < cap
     then \<exists>s'. line_insert s len cap pos c = Some (s', len + 1) \<and> holds cap s' (len + 1) (pos + 1) (b @ [c]) a
     else line_insert s len cap pos c = Some (s, len)"
proof -
  obtain r where r: "s = b @ a @ r" "r \<noteq> []" "cap = length b + length a + length r" "len = length b + length a" "pos = length b"
    using assms by (rule holdsE)
  show ?thesis
  proof (cases "length r \<le> 1")
    case True
    then show ?thesis using r by (simp add: line_insert_def)
  next
    case False
    then obtain x y r' where r': "r = x # y # r'" by (cases r; cases "tl r") auto
    have "store_at (Suc (length b + length a)) NUL ((b @ c # a) @ y # r') = Some ((b @ c # a) @ NUL # r')"
      by (rule store_at_append) simp
    then have "line_insert s len cap pos c = Some (b @ c # a @ NUL # r', len + 1)"
      by (simp add: line_insert_def r r' memmove_right store_at_append)
    moreover have "holds cap (b @ c # a @ NUL # r') (len + 1) (pos + 1) (b @ [c]) a"
      by (rule holdsI[where r = "NUL # r'"]) (simp_all add: r r')
    ultimately show ?thesis using r r' by simp
  qed
qed

lemma insert_all_holds:
  assumes "holds cap s len pos b a"
  shows "\<exists>s' k. insert_all cap cs (s, len, pos) = Some (s', len + k, pos + k) \<and>
     holds cap s' (len + k) (pos + k) (b @ take (cap - 1 - length b - length a) cs) a"
  using assms
proof (induction cs arbitrary: s len pos b)
  case Nil
  then show ?case by (intro exI[of _ s] exI[of _ 0]) simp
next
  case (Cons c cs)
  have len: "len = length b + length a" using Cons.prems by (simp add: holds_def)
  show ?case
  proof (cases "length b + length a + 1 < cap")
    case True
    then obtain s' where s': "line_insert s len cap pos c = Some (s', len + 1)" "holds cap s' (len + 1) (pos + 1) (b @ [c]) a"
      using insert_holds[OF Cons.prems, of c] by auto
    obtain s'' k where k: "insert_all cap cs (s', len + 1, pos + 1) = Some (s'', len + 1 + k, pos + 1 + k)"
        "holds cap s'' (len + 1 + k) (pos + 1 + k) ((b @ [c]) @ take (cap - 1 - length (b @ [c]) - length a) cs) a"
      using Cons.IH[OF s'(2)] by blast
    have "cap - 1 - length b - length a = Suc (cap - 1 - length (b @ [c]) - length a)" using True by simp
    then show ?thesis using True s'(1) k len by (intro exI[of _ s''] exI[of _ "k + 1"]) (simp add: add_ac)
  next
    case False
    then show ?thesis using Cons.prems len by (intro exI[of _ s] exI[of _ 0]) simp
  qed
qed

lemma delete_back_holds:
  assumes "holds cap s len pos b a"
  shows "\<exists>s'. line_delete_back s len pos k = Some (s', len - min k pos, pos - min k pos) \<and>
     holds cap s' (len - min k pos) (pos - min k pos) (take (length b - k) b) a"
proof -
  obtain r where r: "s = b @ a @ r" "r \<noteq> []" "cap = length b + length a + length r" "len = length b + length a" "pos = length b"
    using assms by (rule holdsE)
  define m where "m = min k (length b)"
  have m: "m \<le> length b" "take (length b - k) b = take (length b - m) b" "min k pos = m" "(if k > pos then pos else k) = m"
    using r(5) by (auto simp: m_def min_def)
  have np: "(pos > len) = False" using r by simp
  show ?thesis
  proof (cases "m = 0")
    case True
    then have "k = 0 \<or> b = []" by (auto simp: m_def min_def split: if_splits)
    then show ?thesis using assms by (auto simp: line_delete_back_def Let_def r(4,5))
  next
    case False
    define b' d where "b' = take (length b - m) b" and "d = drop (length b - m) b"
    have bd: "b = b' @ d" "length d = m" using m(1) by (simp_all add: b'_def d_def)
    have "length (drop (length a) (d @ a)) = m" by (simp add: bd)
    then obtain x u where u: "drop (length a) (d @ a) = x # u" using False by (cases "drop (length a) (d @ a)") auto
    then have lu: "m = Suc (length u)" using \<open>length (drop (length a) (d @ a)) = m\<close> by simp
    have "memmove (length b') (length b' + length d) (length a) s = Some (b' @ a @ (x # u) @ r)"
      using memmove_left[of b' d a r] by (simp only: r(1) bd(1) u append_assoc)
    moreover have "store_at (length b' + length a) NUL ((b' @ a) @ x # u @ r) = Some ((b' @ a) @ NUL # u @ r)"
      by (rule store_at_append) simp
    ultimately have "(if m \<noteq> 0 then do { s \<leftarrow> memmove (pos - m) pos (len - pos) s; s \<leftarrow> store_at (len - m) NUL s; Some (s, len - m, pos - m) }
        else Some (s, len, pos)) = Some (b' @ a @ NUL # u @ r, len - m, pos - m)"
      using False r(4,5) bd by simp
    then have "line_delete_back s len pos k = Some (b' @ a @ NUL # u @ r, len - m, pos - m)"
      by (simp only: line_delete_back_def Let_def np if_False m(4))
    moreover have "holds cap (b' @ a @ NUL # u @ r) (len - m) (pos - m) b' a"
      using r bd lu by (intro holdsI[where r = "NUL # u @ r"]) simp_all
    ultimately show ?thesis using m(2,3) by (simp add: b'_def)
  qed
qed

lemma delete_at_holds:
  assumes "holds cap s len pos b a"
  shows "\<exists>s'. line_delete_at s len pos = Some (s', length b + length (tl a)) \<and> holds cap s' (length b + length (tl a)) pos b (tl a)"
proof -
  obtain r where r: "s = b @ a @ r" "r \<noteq> []" "cap = length b + length a + length r" "len = length b + length a" "pos = length b"
    using assms by (rule holdsE)
  show ?thesis
  proof (cases a)
    case Nil
    then show ?thesis using assms r by (simp add: line_delete_at_def)
  next
    case (Cons c a')
    have "length (drop (length a') (c # a')) = 1" by simp
    then obtain y where y: "drop (length a') (c # a') = [y]" by (metis length_0_conv length_Suc_conv One_nat_def)
    have "memmove (length b) (length b + length [c]) (length a') s = Some (b @ a' @ y # r)"
      using memmove_left[of b "[c]" a' r] by (simp add: r(1) Cons y)
    moreover have "store_at (length b + length a') NUL ((b @ a') @ y # r) = Some ((b @ a') @ NUL # r)"
      by (rule store_at_append) simp
    ultimately have "line_delete_at s len pos = Some (b @ a' @ NUL # r, length b + length a')"
      by (simp add: line_delete_at_def r(4,5) Cons)
    moreover have "holds cap (b @ a' @ NUL # r) (length b + length a') pos b a'"
      by (rule holdsI[where r = "NUL # r"]) (simp_all add: r Cons)
    ultimately show ?thesis using Cons by simp
  qed
qed

lemma skip_back_text: "n \<le> length s \<Longrightarrow> skip_back p s n = length (dropWhile p (rev (take n s)))"
  by (induction p s n rule: skip_back.induct) (simp_all add: take_Suc_conv_app_nth)

lemma skip_fwd_text: "pos \<le> len \<Longrightarrow> len \<le> length s \<Longrightarrow> skip_fwd p s len pos = pos + length (takeWhile p (drop pos (take len s)))"
proof (induction p s len pos rule: skip_fwd.induct)
  case (1 p s len pos)
  show ?case
  proof (cases "pos < len")
    case True
    then have d: "drop pos (take len s) = s ! pos # drop (Suc pos) (take len s)"
      using 1(3) by (metis Cons_nth_drop_Suc length_take min.absorb2 nth_take)
    show ?thesis
    proof (cases "p (s ! pos)")
      case t: True
      have "skip_fwd p s len (pos + 1) = pos + 1 + length (takeWhile p (drop (pos + 1) (take len s)))"
        using 1 True t by simp
      then show ?thesis using True t d by (subst skip_fwd.simps) simp
    next
      case False
      then show ?thesis using d by (subst skip_fwd.simps) simp
    qed
  qed (simp add: skip_fwd.simps)
qed

lemma cut_word_prefix: "b = cut_word b @ word_of b"
proof -
  let ?g = "dropWhile (\<lambda>c. c = CHR '' '') (rev b)"
  have "rev b = takeWhile (\<lambda>c. c = CHR '' '') (rev b) @ takeWhile (\<lambda>c. c \<noteq> CHR '' '') ?g @ dropWhile (\<lambda>c. c \<noteq> CHR '' '') ?g"
    by simp
  then obtain u where "rev b = u @ dropWhile (\<lambda>c. c \<noteq> CHR '' '') ?g" by (metis append.assoc)
  then have "b = cut_word b @ rev u" unfolding cut_word_def by (metis rev_append rev_rev_ident)
  then show ?thesis unfolding word_of_def by (metis append_eq_conv_conj)
qed

lemma word_start_text:
  assumes "holds cap s len pos b a"
  shows "line_word_start s len pos = length (cut_word b)"
proof -
  obtain r where r: "s = b @ a @ r" "len = length b + length a" "pos = length b" using assms by (rule holdsE)
  let ?n = "length (dropWhile (\<lambda>c. c = CHR '' '') (rev b))"
  have n: "?n \<le> length b" using length_dropWhile_le[of _ "rev b"] by simp
  have "skip_back (\<lambda>c. c = CHR '' '') s pos = ?n" by (simp add: skip_back_text r)
  moreover have "rev (take ?n b) = dropWhile (\<lambda>c. c = CHR '' '') (rev b)"
    by (metis dropWhile_eq_drop length_rev rev_drop rev_rev_ident length_drop diff_diff_cancel length_takeWhile_le)
  then have "skip_back (\<lambda>c. c \<noteq> CHR '' '') s ?n = length (cut_word b)"
    using n by (simp add: skip_back_text r cut_word_def)
  ultimately show ?thesis using r by (simp add: line_word_start_def)
qed

lemma next_word_prefix: "a = next_word a @ drop (length (next_word a)) a"
proof -
  let ?g = "dropWhile (\<lambda>c. c = CHR '' '') a"
  have "a = (takeWhile (\<lambda>c. c = CHR '' '') a @ takeWhile (\<lambda>c. c \<noteq> CHR '' '') ?g) @ dropWhile (\<lambda>c. c \<noteq> CHR '' '') ?g"
    by simp
  then show ?thesis unfolding next_word_def by (metis append_eq_conv_conj)
qed

lemma word_end_text:
  assumes "holds cap s len pos b a"
  shows "line_word_end s len pos = length b + length (next_word a)"
proof -
  obtain r where r: "s = b @ a @ r" "len = length b + length a" "pos = length b" using assms by (rule holdsE)
  let ?t = "takeWhile (\<lambda>c. c = CHR '' '') a"
  have l: "length ?t \<le> length a" by (rule length_takeWhile_le)
  have "skip_fwd (\<lambda>c. c = CHR '' '') s len pos = length b + length ?t" by (simp add: skip_fwd_text r)
  moreover have "drop (length b + length ?t) (take len s) = dropWhile (\<lambda>c. c = CHR '' '') a"
    by (simp add: r dropWhile_eq_drop)
  then have "skip_fwd (\<lambda>c. c \<noteq> CHR '' '') s len (length b + length ?t) = length b + length (next_word a)"
    using l by (simp add: skip_fwd_text r next_word_def del: append_assoc)
  ultimately show ?thesis using r by (simp add: line_word_end_def)
qed

section \<open>The editor follows the text\<close>

definition rep_ed :: "nat \<Rightarrow> editor \<Rightarrow> text_ed \<Rightarrow> bool" where
  "rep_ed cap e t \<longleftrightarrow> holds cap (ebuf e) (elen e) (epos e) (bef t) (aft t) \<and> browse e = tbrowse t \<and> ghost e = tghost t \<and>
     outs e = touts t \<and> ints e = tints t"

definition sim :: "nat \<Rightarrow> editor option \<Rightarrow> text_ed \<Rightarrow> bool" where
  "sim cap m t \<longleftrightarrow> (\<exists>e. m = Some e \<and> rep_ed cap e t)"

lemma sim_Some [simp]: "sim cap (Some e) t = rep_ed cap e t"
  by (simp add: sim_def)

lemma rep_edD:
  assumes "rep_ed cap e t"
  shows "holds cap (ebuf e) (elen e) (epos e) (bef t) (aft t)" "elen e = length (bef t) + length (aft t)" "epos e = length (bef t)"
    "take (elen e) (ebuf e) = bef t @ aft t" "browse e = tbrowse t" "ghost e = tghost t"
  using assms by (auto simp: rep_ed_def holds_def)

lemma rep_fields:
  assumes "rep_ed cap e t" "holds cap s len pos b a"
  shows "rep_ed cap (e\<lparr>ebuf := s, elen := len, epos := pos\<rparr>) (t\<lparr>bef := b, aft := a\<rparr>)"
  using assms by (simp add: rep_ed_def)

lemma cut_word_shorter: "b \<noteq> [] \<Longrightarrow> length (cut_word b) < length b"
proof (induction b rule: rev_induct)
  case (snoc c b)
  have "length (dropWhile (\<lambda>c. c \<noteq> CHR '' '') (dropWhile (\<lambda>c. c = CHR '' '') (rev b))) \<le> length b"
    by (metis length_dropWhile_le length_rev le_trans)
  moreover have "length (dropWhile (\<lambda>c. c \<noteq> CHR '' '') (rev b)) \<le> length b" by (metis length_dropWhile_le length_rev)
  ultimately show ?case by (cases "c = CHR '' ''") (simp_all add: cut_word_def)
qed simp

lemma length_cut_word: "length (cut_word b) + length (word_of b) = length b"
  by (metis cut_word_prefix length_append)

lemma word_taken:
  assumes "holds cap s len pos b a" "n \<le> length (word_of b)"
  shows "take n (drop (length (cut_word b)) s) = take n (word_of b)"
proof -
  obtain r where "s = b @ a @ r" using assms(1) by (rule holdsE)
  then have "s = (cut_word b @ word_of b) @ a @ r" using cut_word_prefix[of b] by simp
  then show ?thesis using assms(2) by simp
qed

lemma ghost_text: "rep_ed cap e t \<Longrightarrow> ghost_for le (ebuf e) (elen e) (epos e) = t_ghost le t"
proof -
  assume r: "rep_ed cap e t"
  note D = rep_edD[OF r]
  have w: "length (bef t) - length (cut_word (bef t)) = length (word_of (bef t))" by (simp add: word_of_def)
  have ne: "word_of (bef t) \<noteq> []" if "bef t \<noteq> []"
    using cut_word_shorter[OF that] length_cut_word[of "bef t"] by auto
  show ?thesis
  proof (cases "aft t = [] \<and> bef t \<noteq> []")
    case True
    have "line_word_start (ebuf e) (length (bef t)) (length (bef t)) = length (cut_word (bef t))"
      using word_start_text[OF D(1)] D(2,3) True by simp
    then show ?thesis using True ne word_taken[OF D(1) le_refl] cut_word_shorter[of "bef t"]
      by (simp add: ghost_for_def t_ghost_def D(2,3) w Let_def split: option.split)
  next
    case False
    then show ?thesis by (auto simp: ghost_for_def t_ghost_def D(2,3) split: option.split)
  qed
qed

lemma rep_emit: "rep_ed cap e t \<Longrightarrow> rep_ed cap (emit x e) (t_emit x t)"
  by (simp add: rep_ed_def emit_def t_emit_def)

lemma rep_redraw: "rep_ed cap e t \<Longrightarrow> rep_ed cap (redraw le e) (t_redraw le t)"
  using rep_emit[of cap e t] rep_edD[of cap e t] by (simp add: redraw_def t_redraw_def)

lemma rep_ghost: "rep_ed cap e t \<Longrightarrow> rep_ed cap (e\<lparr>ghost := g\<rparr>) (t\<lparr>tghost := g\<rparr>)"
  by (simp add: rep_ed_def)

lemma rep_browse: "rep_ed cap e t \<Longrightarrow> rep_ed cap (e\<lparr>browse := g\<rparr>) (t\<lparr>tbrowse := g\<rparr>)"
  by (simp add: rep_ed_def)

lemma rep_shown: "rep_ed cap e t \<Longrightarrow> rep_ed cap (shown le e) (t_shown le t)"
  using rep_redraw[OF rep_ghost] ghost_text by (simp add: shown_def t_shown_def refresh_ghost_def)

lemma rep_pos:
  assumes "rep_ed cap e t" "bef t @ aft t = b @ a" "pos = length b"
  shows "rep_ed cap (e\<lparr>epos := pos\<rparr>) (t\<lparr>bef := b, aft := a\<rparr>)"
proof -
  from assms(1) have "holds cap (ebuf e) (elen e) (epos e) (bef t) (aft t)" by (simp add: rep_ed_def)
  from holds_move[OF this assms(2,3)] assms(1) show ?thesis by (simp add: rep_ed_def)
qed

lemma insert_sim:
  assumes "rep_ed cap e t"
  shows "\<exists>s k. insert_all cap cs (ebuf e, elen e, epos e) = Some (s, elen e + k, epos e + k) \<and>
    rep_ed cap (e\<lparr>ebuf := s, elen := elen e + k, epos := epos e + k\<rparr>) (t_insert cap cs t)"
proof -
  from insert_all_holds[OF rep_edD(1)[OF assms], of cs] obtain s k
    where "insert_all cap cs (ebuf e, elen e, epos e) = Some (s, elen e + k, epos e + k)"
      "holds cap s (elen e + k) (epos e + k) (bef t @ take (t_room cap t) cs) (aft t)"
    unfolding t_room_def by blast
  moreover from this(2) have "rep_ed cap (e\<lparr>ebuf := s, elen := elen e + k, epos := epos e + k\<rparr>) (t_insert cap cs t)"
    using assms by (simp add: rep_ed_def t_insert_def)
  ultimately show ?thesis by blast
qed

lemma accept_sim: "rep_ed cap e t \<Longrightarrow> sim cap (accept_ghost cap e) (t_insert cap (tghost t) t)"
  using insert_sim[of cap e t "tghost t"] rep_edD(6)[of cap e t] by (auto simp: accept_ghost_def set_text_def)

lemma print_holds:
  assumes "holds cap s len pos b a"
  shows "\<exists>s'. print_at_start cap h s = Some s' \<and> cstr s' = cstr (take (cap - 1) h) \<and>
     holds cap s' (length (cstr s')) (length (cstr s')) (cstr (take (cap - 1) h)) []"
proof -
  have l: "length s = cap" "0 < cap" using assms by (auto simp: holds_def)
  let ?t = "take (cap - 1) h"
  let ?s = "(?t @ [NUL]) @ drop (length (?t @ [NUL])) s"
  have p: "print_at_start cap h s = Some ?s" using l by (simp add: print_at_start_def snprintf_def Let_def)
  have c: "cstr ?s = cstr ?t"
  proof (cases "\<forall>x \<in> set ?t. x \<noteq> NUL")
    case True
    then have "takeWhile (\<lambda>c. c \<noteq> NUL) ?t = ?t" by (simp only: takeWhile_eq_all_conv)
    moreover have "takeWhile (\<lambda>c. c \<noteq> NUL) (?t @ [NUL] @ drop (length (?t @ [NUL])) s) = ?t"
      using True by (subst takeWhile_append2) auto
    ultimately show ?thesis unfolding cstr_def append_assoc by (simp only:)
  next
    case False
    then show ?thesis unfolding cstr_def append_assoc by (auto intro: takeWhile_append1)
  qed
  have pre: "?t = cstr ?t @ dropWhile (\<lambda>c. c \<noteq> NUL) ?t" by (simp add: cstr_def)
  have "length (cstr ?t) \<le> length ?t" unfolding cstr_def by (rule length_takeWhile_le)
  then have "length (cstr ?t) < cap" using l(2) unfolding length_take by linarith
  moreover have "take (length (cstr ?t)) ?s = cstr ?t" by (metis pre append_assoc append_eq_conv_conj)
  moreover have "length ?s = cap" using l by simp
  ultimately have "holds cap ?s (length (cstr ?t)) (length (cstr ?t)) (cstr ?t) []" by (simp add: holds_def)
  then show ?thesis using p c by metis
qed

lemma browse_sim: "rep_ed cap e t \<Longrightarrow> sim cap (browse_to le cap dir e) (t_browse le cap dir t)"
proof -
  assume r: "rep_ed cap e t"
  note D = rep_edD[OF r]
  have want: "(if tbrowse t + dir < -1 then -1 else tbrowse t + dir) = max (tbrowse t + dir) (-1)" by simp
  have go: "sim cap (do { s \<leftarrow> print_at_start cap h (ebuf e);
        Some (set_text (s, length (cstr s), length (cstr s)) (e\<lparr>browse := w\<rparr>)) })
      (t\<lparr>tbrowse := w, bef := cstr (take (cap - 1) h), aft := []\<rparr>)" for h w
  proof -
    obtain s' where s': "print_at_start cap h (ebuf e) = Some s'" "cstr s' = cstr (take (cap - 1) h)"
        "holds cap s' (length (cstr s')) (length (cstr s')) (cstr (take (cap - 1) h)) []"
      using print_holds[OF D(1), of h] by blast
    have "rep_ed cap (set_text (s', length (cstr s'), length (cstr s')) (e\<lparr>browse := w\<rparr>))
       (t\<lparr>tbrowse := w, bef := cstr (take (cap - 1) h), aft := []\<rparr>)"
      using s'(3) r by (simp add: set_text_def rep_ed_def)
    then show ?thesis using s'(1) by simp
  qed
  show ?thesis
  proof (cases "history le")
    case None
    then show ?thesis using r by (simp add: browse_to_def t_browse_def)
  next
    case (Some hist)
    define w where "w = max (tbrowse t + dir) (-1)"
    have e: "browse_to le cap dir e = (case (if w < 0 then Some [] else hist (nat w)) of None \<Rightarrow> Some e
        | Some h \<Rightarrow> do { s \<leftarrow> print_at_start cap h (ebuf e); Some (set_text (s, length (cstr s), length (cstr s)) (e\<lparr>browse := w\<rparr>)) })"
      "t_browse le cap dir t = (case (if w < 0 then Some [] else hist (nat w)) of None \<Rightarrow> t
        | Some h \<Rightarrow> t\<lparr>tbrowse := w, bef := cstr (take (cap - 1) h), aft := []\<rparr>)"
      by (simp_all only: browse_to_def t_browse_def D(5) want Let_def Some option.case flip: w_def)
    show ?thesis
    proof (cases "if w < 0 then Some [] else hist (nat w)")
      case None
      then show ?thesis using r by (simp only: e option.case sim_Some)
    next
      case (Some h)
      then show ?thesis using go[of h w] by (simp only: e option.case)
    qed
  qed
qed

lemma key_sim: "rep_ed cap e t \<Longrightarrow> sim cap (on_key le cap k e) (t_key le cap k t)"
proof -
  assume r: "rep_ed cap e t"
  note D = rep_edD[OF r]
  show ?thesis
  proof (cases k)
    case KEY_LEFT
    show ?thesis
    proof (cases "bef t = []")
      case True
      then show ?thesis using r D(3) by (simp add: KEY_LEFT rep_ed_def)
    next
      case False
      then show ?thesis using rep_pos[OF r, of "butlast (bef t)" "last (bef t) # aft t" "epos e - 1"] D(3) by (simp add: KEY_LEFT)
    qed
  next
    case KEY_RIGHT
    show ?thesis
    proof (cases "aft t")
      case Nil
      then show ?thesis using accept_sim[OF r] r D by (auto simp: KEY_RIGHT t_insert_def)
    next
      case (Cons c a)
      then show ?thesis using rep_pos[OF r, of "bef t @ [c]" a "Suc (epos e)"] D by (simp add: KEY_RIGHT)
    qed
  next
    case KEY_HOME
    then show ?thesis using rep_pos[OF r, of "[]" "bef t @ aft t" 0] by simp
  next
    case KEY_END
    show ?thesis
    proof (cases "aft t = []")
      case True
      have fin: "sim cap (Some (e'\<lparr>epos := elen e'\<rparr>)) t'" if "rep_ed cap e' t'" "aft t' = []" for e' t'
        using that rep_edD(2,3)[OF that(1)] by (simp add: rep_ed_def)
      show ?thesis
      proof (cases "ghost e = []")
        case g: True
        then show ?thesis using True r D fin[OF r] by (simp add: KEY_END t_insert_def)
      next
        case False
        from accept_sim[OF r] obtain e' where "accept_ghost cap e = Some e'" "rep_ed cap e' (t_insert cap (tghost t) t)"
          by (auto simp: sim_def)
        then show ?thesis using True False D fin[of e' "t_insert cap (tghost t) t"] by (simp add: KEY_END t_insert_def)
      qed
    next
      case False
      then show ?thesis using rep_pos[OF r, of "bef t @ aft t" "[]" "elen e"] D by (simp add: KEY_END)
    qed
  next
    case KEY_WORD_LEFT
    show ?thesis using rep_pos[OF r, of "cut_word (bef t)" "word_of (bef t) @ aft t"] cut_word_prefix[of "bef t"]
      by (simp add: KEY_WORD_LEFT word_start_text[OF D(1)] flip: append_assoc)
  next
    case KEY_WORD_RIGHT
    show ?thesis using rep_pos[OF r, of "bef t @ next_word (aft t)" "drop (length (next_word (aft t))) (aft t)"] next_word_prefix[of "aft t"]
      by (simp add: KEY_WORD_RIGHT word_end_text[OF D(1)])
  next
    case KEY_DELETE
    obtain s' where "line_delete_at (ebuf e) (elen e) (epos e) = Some (s', length (bef t) + length (tl (aft t)))"
        "holds cap s' (length (bef t) + length (tl (aft t))) (epos e) (bef t) (tl (aft t))"
      using delete_at_holds[OF D(1)] by blast
    then show ?thesis using r by (simp add: KEY_DELETE rep_ed_def)
  next
    case KEY_UP then show ?thesis using browse_sim[OF r] by simp
  next
    case KEY_DOWN then show ?thesis using browse_sim[OF r] by simp
  next
    case KEY_UNKNOWN then show ?thesis using r by simp
  qed
qed

lemma delete_sim:
  assumes "rep_ed cap e t"
  shows "sim cap (delete_back le k e) (t_typed le (t\<lparr>bef := take (length (bef t) - k) (bef t)\<rparr>))"
proof -
  note D = rep_edD[OF assms]
  obtain s' where "line_delete_back (ebuf e) (elen e) (epos e) k = Some (s', elen e - min k (epos e), epos e - min k (epos e))"
      "holds cap s' (elen e - min k (epos e)) (epos e - min k (epos e)) (take (length (bef t) - k) (bef t)) (aft t)"
    using delete_back_holds[OF D(1)] by blast
  moreover from this(2) have "rep_ed cap ((set_text (s', elen e - min k (epos e), epos e - min k (epos e)) e)\<lparr>browse := -1\<rparr>)
      (t\<lparr>bef := take (length (bef t) - k) (bef t), tbrowse := -1\<rparr>)"
    using assms by (simp add: rep_ed_def set_text_def)
  ultimately show ?thesis using rep_shown by (simp add: delete_back_def t_typed_def)
qed

lemma replace_holds:
  assumes "holds cap s len pos b a" "k \<le> length (word_of b)"
  shows "\<exists>s'. memmove (length (cut_word b)) pos (len - pos) s = Some s' \<and>
    holds cap s' (len - k) (length (cut_word b)) (cut_word b)
      (a @ take (length (word_of b) - k) (drop (length (cut_word b) + length a) (b @ a)))"
proof -
  obtain r where r: "s = b @ a @ r" "r \<noteq> []" "cap = length b + length a + length r" "len = length b + length a" "pos = length b"
    using assms(1) by (rule holdsE)
  let ?g = "cut_word b" and ?w = "word_of b"
  let ?d = "drop (length a) (?w @ a)"
  have b: "b = ?g @ ?w" "length b = length ?g + length ?w" using cut_word_prefix length_cut_word[of b] by auto
  have s: "s = ?g @ ?w @ a @ r" using r(1) b(1) by (metis append.assoc)
  have m: "memmove (length ?g) pos (len - pos) s = Some (?g @ a @ ?d @ r)"
    using memmove_left[of ?g ?w a r] s r(4,5) b(2) by simp
  have "drop (length ?g + length a) (b @ a) = drop (length ?g + length a) (?g @ ?w @ a)" by (metis b(1) append.assoc)
  then have d: "drop (length ?g + length a) (b @ a) = ?d" by simp
  have ld: "length ?d = length ?w" by simp
  have "holds cap (?g @ a @ ?d @ r) (len - k) (length ?g) ?g (a @ take (length ?w - k) ?d)"
  proof (rule holdsI[where r = "drop (length ?w - k) ?d @ r"])
    show "?g @ a @ ?d @ r = ?g @ (a @ take (length ?w - k) ?d) @ drop (length ?w - k) ?d @ r"
      by (simp only: append_assoc append_take_drop_id flip: append_assoc[of "take (length ?w - k) ?d"])
  qed (use assms(2) r b(2) ld in simp_all)
  then show ?thesis using m d by auto
qed

lemma insert_one_sim:
  assumes "rep_ed cap e t"
  shows "if 0 < t_room cap t
    then \<exists>s. line_insert (ebuf e) (elen e) cap (epos e) c = Some (s, elen e + 1) \<and>
      rep_ed cap (e\<lparr>ebuf := s, elen := elen e + 1, epos := epos e + 1\<rparr>) (t_insert cap [c] t)
    else line_insert (ebuf e) (elen e) cap (epos e) c = Some (ebuf e, elen e) \<and> t_insert cap [c] t = t"
proof (cases "0 < t_room cap t")
  case True
  then have "length (bef t) + length (aft t) + 1 < cap" by (simp add: t_room_def)
  with insert_holds[OF rep_edD(1)[OF assms], of c] obtain s where
    s: "line_insert (ebuf e) (elen e) cap (epos e) c = Some (s, elen e + 1)" "holds cap s (elen e + 1) (epos e + 1) (bef t @ [c]) (aft t)"
    by auto
  have "take (t_room cap t) [c] = [c]" using True by (cases "t_room cap t") auto
  then have "rep_ed cap (e\<lparr>ebuf := s, elen := elen e + 1, epos := epos e + 1\<rparr>) (t_insert cap [c] t)"
    using s(2) assms by (simp add: rep_ed_def t_insert_def)
  then show ?thesis using s True by auto
next
  case False
  then have "\<not> length (bef t) + length (aft t) + 1 < cap" by (simp add: t_room_def)
  with insert_holds[OF rep_edD(1)[OF assms], of c] False show ?thesis by (simp add: t_insert_def)
qed

lemma set_text_simps [simp]:
  "set_text (s, len, pos) e = e\<lparr>ebuf := s, elen := len, epos := pos\<rparr>"
  by (simp add: set_text_def)

lemma space_sim:
  assumes "rep_ed cap e t"
  shows "\<exists>s len pos. (if b \<and> elen e + 1 < cap \<and> (epos e = elen e \<or> ebuf e ! epos e \<noteq> CHR '' '')
       then do { (s, len) \<leftarrow> line_insert (ebuf e) (elen e) cap (epos e) (CHR '' ''); Some (s, len, epos e + 1) }
       else Some (ebuf e, elen e, epos e)) = Some (s, len, pos) \<and>
    rep_ed cap (e\<lparr>ebuf := s, elen := len, epos := pos\<rparr>)
      (if b \<and> (aft t = [] \<or> hd (aft t) \<noteq> CHR '' '') then t_insert cap '' '' t else t)"
proof -
  note D = rep_edD[OF assms]
  obtain r where r: "ebuf e = bef t @ aft t @ r" using D(1) by (rule holdsE)
  have c: "(epos e = elen e \<or> ebuf e ! epos e \<noteq> CHR '' '') = (aft t = [] \<or> hd (aft t) \<noteq> CHR '' '')"
    by (cases "aft t") (simp_all add: D(2,3) r nth_append)
  have rm: "(elen e + 1 < cap) = (0 < t_room cap t)" by (auto simp: D(2) t_room_def)
  have same: "e\<lparr>ebuf := ebuf e, elen := elen e, epos := epos e\<rparr> = e" by simp
  show ?thesis using insert_one_sim[OF assms, of "CHR '' ''"] assms unfolding c rm
    by (auto simp: same split: if_splits)
qed

lemma tab_sim: "rep_ed cap e t \<Longrightarrow> sim cap (on_tab le cap e) (t_tab le cap t)"
proof -
  assume r: "rep_ed cap e t"
  note D = rep_edD[OF r]
  show ?thesis
  proof (cases "complete le")
    case None
    then show ?thesis using r by (simp add: on_tab_def t_tab_def)
  next
    case (Some f)
    let ?g = "cut_word (bef t)" and ?w = "word_of (bef t)"
    define pre where "pre = take (COMP_LEN - 1) ?w"
    define cands where "cands = collect (f pre (length ?g)) COMP_MAX 0"
    define common where "common = line_common_prefix cands COMP_LEN"
    have ws: "line_word_start (ebuf e) (elen e) (epos e) = length ?g" by (rule word_start_text[OF D(1)])
    have w: "epos e - length ?g = length ?w" using length_cut_word[of "bef t"] D(3) by simp
    have pre': "take (min (length ?w) (COMP_LEN - 1)) (drop (length ?g) (ebuf e)) = pre"
      using word_taken[OF D(1)] by (auto simp: pre_def min_def)
    have lp: "length pre = min (length ?w) (COMP_LEN - 1)" by (simp add: pre_def min.commute)
    have pre2: "take (length pre) (drop (length ?g) (ebuf e)) = pre" using pre' lp by simp
    note unf = on_tab_def t_tab_def Some option.case Let_def ws w pre' pre_def[symmetric] cands_def[symmetric] common_def[symmetric]
    show ?thesis
    proof (cases "cands = [] \<or> common = pre")
      case True
      then show ?thesis unfolding unf using r rep_shown[OF rep_emit[OF r]] by auto
    next
      case False
      obtain s' where s': "memmove (length ?g) (epos e) (elen e - epos e) (ebuf e) = Some s'"
        "holds cap s' (elen e - length pre) (length ?g) ?g (aft t @ take (length ?w - length pre) (drop (length ?g + length (aft t)) (bef t @ aft t)))"
        using replace_holds[OF D(1), of "length pre"] lp by auto
      define t1 where "t1 = t\<lparr>bef := ?g, aft := aft t @ take (length ?w - length pre) (drop (length ?g + length (aft t)) (bef t @ aft t))\<rparr>"
      define e1 where "e1 = e\<lparr>ebuf := s', elen := elen e - length pre, epos := length ?g\<rparr>"
      have r1: "rep_ed cap e1 t1" using rep_fields[OF r s'(2)] by (simp add: e1_def t1_def)
      from insert_sim[OF r1, of common] obtain s2 k where
        i: "insert_all cap common (s', elen e - length pre, length ?g) = Some (s2, elen e - length pre + k, length ?g + k)"
        and r2': "rep_ed cap (e1\<lparr>ebuf := s2, elen := elen e - length pre + k, epos := length ?g + k\<rparr>) (t_insert cap common t1)"
        by (auto simp: e1_def)
      define e2 where "e2 = e\<lparr>ebuf := s2, elen := elen e - length pre + k, epos := length ?g + k\<rparr>"
      have r2: "rep_ed cap e2 (t_insert cap common t1)" using r2' by (simp add: e1_def e2_def)
      have e2: "ebuf e2 = s2" "elen e2 = elen e - length pre + k" "epos e2 = length ?g + k"
        "e2\<lparr>ebuf := s, elen := l, epos := p\<rparr> = e\<lparr>ebuf := s, elen := l, epos := p\<rparr>" for s l p
        by (simp_all add: e2_def)
      from space_sim[OF r2, of "length cands = 1", unfolded e2] obtain s3 l3 p3 where
        sp: "(if length cands = 1 \<and> elen e - length pre + k + 1 < cap \<and> (length ?g + k = elen e - length pre + k \<or> s2 ! (length ?g + k) \<noteq> CHR '' '')
           then do { (s, len) \<leftarrow> line_insert s2 (elen e - length pre + k) cap (length ?g + k) (CHR '' ''); Some (s, len, length ?g + k + 1) }
           else Some (s2, elen e - length pre + k, length ?g + k)) = Some (s3, l3, p3)"
        and r3: "rep_ed cap (e\<lparr>ebuf := s3, elen := l3, epos := p3\<rparr>)
          (if length cands = 1 \<and> (aft (t_insert cap common t1) = [] \<or> hd (aft (t_insert cap common t1)) \<noteq> CHR '' '')
           then t_insert cap '' '' (t_insert cap common t1) else t_insert cap common t1)"
        by blast
      have "on_tab le cap e = Some (shown le (set_text (s3, l3, p3) e))"
        unfolding unf lp[symmetric] pre2 using False s'(1) i sp by simp
      moreover have "t_tab le cap t = t_shown le (if length cands = 1 \<and> (aft (t_insert cap common t1) = [] \<or> hd (aft (t_insert cap common t1)) \<noteq> CHR '' '')
           then t_insert cap '' '' (t_insert cap common t1) else t_insert cap common t1)"
        unfolding unf t1_def[symmetric] using False by simp
      ultimately show ?thesis using rep_shown[OF r3] by simp
    qed
  qed
qed

lemma store_holds:
  assumes "holds cap s len pos b a" "k \<le> len"
  shows "\<exists>s'. store_at k NUL s = Some s' \<and> holds cap s' k (min pos k) (take k b) (take (k - length b) a)"
proof -
  have "length s = cap" "k < cap" "len = length b + length a" "pos = length b" "take len s = b @ a"
    using assms by (auto simp: holds_def)
  moreover from this have "take k s = take k b @ take (k - length b) a"
    using assms(2) by (metis min.absorb1 take_append take_take)
  ultimately show ?thesis using assms(2) by (auto simp: store_at_def holds_def min_def)
qed

lemma char_sim: "rep_ed cap e t \<Longrightarrow> sim cap (on_char le cap c e) (t_char le cap c t)"
proof -
  assume r: "rep_ed cap e t"
  note D = rep_edD[OF r]
  have del: "sim cap (delete_back le k e) (t_typed le (t\<lparr>bef := b\<rparr>))" if "b = take (length (bef t) - k) (bef t)" for k b
    using delete_sim[OF r] that by simp
  have etx: ?thesis if "c = ETX"
  proof -
    obtain s' where "store_at 0 NUL (ebuf e) = Some s'" "holds cap s' 0 0 [] []"
      using store_holds[OF D(1), of 0] by auto
    then show ?thesis using r
      by (simp add: on_char_def t_char_def that emit_def t_emit_def rep_ed_def intr_stash_clear_def intr_clear_def intr_raise_def)
  qed
  have kill: ?thesis if "c = CHR 0x0B"
  proof -
    obtain s' where s': "store_at (epos e) NUL (ebuf e) = Some s'" "holds cap s' (epos e) (epos e) (bef t) []"
      using store_holds[OF D(1), of "epos e"] D(2,3) by auto
    then have "rep_ed cap (e\<lparr>ebuf := s', elen := epos e\<rparr>) (t\<lparr>aft := []\<rparr>)" using r by (simp add: rep_ed_def)
    then show ?thesis using s'(1) rep_shown by (simp add: on_char_def t_char_def that)
  qed
  have typed: ?thesis if p: "printable c" and ns: "c \<noteq> ETX" "c \<noteq> CHR 0x7F" "c \<noteq> CHR 0x08" "c \<noteq> CHR 0x17" "c \<noteq> CHR 0x15" "c \<noteq> CHR 0x0B"
      "c \<noteq> CHR 0x01" "c \<noteq> CHR 0x05" "c \<noteq> TAB"
  proof (cases "0 < t_room cap t")
    case True
    with insert_one_sim[OF r, of c] obtain s where s: "line_insert (ebuf e) (elen e) cap (epos e) c = Some (s, elen e + 1)"
      "rep_ed cap (e\<lparr>ebuf := s, elen := elen e + 1, epos := epos e + 1\<rparr>) (t_insert cap [c] t)" by auto
    then show ?thesis using True p ns rep_shown[OF rep_browse[OF s(2), of "-1"]]
      by (simp add: on_char_def type_char_def t_char_def t_typed_def)
  next
    case False
    then show ?thesis using insert_one_sim[OF r, of c] p ns r by (simp add: on_char_def type_char_def t_char_def)
  qed
  consider "c = ETX" | "c = CHR 0x7F \<or> c = CHR 0x08" | "c = CHR 0x17" | "c = CHR 0x15" | "c = CHR 0x0B" | "c = CHR 0x01"
    | "c = CHR 0x05" | "c = TAB" | "c \<noteq> ETX" "c \<noteq> CHR 0x7F" "c \<noteq> CHR 0x08" "c \<noteq> CHR 0x17" "c \<noteq> CHR 0x15" "c \<noteq> CHR 0x0B"
      "c \<noteq> CHR 0x01" "c \<noteq> CHR 0x05" "c \<noteq> TAB" by blast
  then show ?thesis
  proof cases
    case 1 then show ?thesis by (rule etx)
  next
    case 2 then show ?thesis using del[of _ 1] by (auto simp: on_char_def t_char_def butlast_conv_take)
  next
    case 3
    have "cut_word (bef t) = take (length (bef t) - (epos e - length (cut_word (bef t)))) (bef t)"
      using length_cut_word[of "bef t"] D(3) cut_word_prefix[of "bef t"] by (metis append_eq_conv_conj diff_diff_cancel le_add1)
    from del[OF this] show ?thesis by (simp add: on_char_def t_char_def 3 word_start_text[OF D(1)])
  next
    case 4 then show ?thesis using del[of "[]" "epos e"] D(3) by (simp add: on_char_def t_char_def)
  next
    case 5 then show ?thesis by (rule kill)
  next
    case 6
    have "rep_ed cap (e\<lparr>epos := 0\<rparr>) (t\<lparr>bef := [], aft := bef t @ aft t\<rparr>)" by (rule rep_pos[OF r]) simp_all
    then show ?thesis using rep_shown by (simp add: on_char_def t_char_def 6)
  next
    case 7
    have "rep_ed cap (e\<lparr>epos := elen e\<rparr>) (t\<lparr>bef := bef t @ aft t, aft := []\<rparr>)" by (rule rep_pos[OF r]) (simp_all add: D(2))
    then show ?thesis using rep_shown by (simp add: on_char_def t_char_def 7)
  next
    case 8 then show ?thesis using tab_sim[OF r] by (simp add: on_char_def t_char_def)
  next
    case 9
    then show ?thesis using typed r by (cases "printable c") (auto simp: on_char_def type_char_def t_char_def)
  qed
qed

lemma enter_sim:
  assumes "rep_ed cap e t"
  shows "\<exists>e'. on_enter le e = Some e' \<and> rep_ed cap e' (t_enter le t) \<and> ebuf e' ! elen e' = NUL"
proof -
  have r: "rep_ed cap (emit (puts [NL]) (if ghost e \<noteq> [] then redraw le (e\<lparr>ghost := []\<rparr>) else e)) (t_enter le t)" (is "rep_ed cap ?e _")
    using assms rep_emit rep_redraw[OF rep_ghost[OF assms]] rep_edD(6)[OF assms] by (auto simp: t_enter_def)
  have l: "elen ?e < length (ebuf ?e)" using rep_edD(1)[OF r] by (simp add: holds_def)
  obtain s' where s': "store_at (elen ?e) NUL (ebuf ?e) = Some s'" using l by (simp add: store_at_def)
  have "rep_ed cap (?e\<lparr>ebuf := s'\<rparr>) (t_enter le t)"
    using r s' l by (auto simp: rep_ed_def holds_def store_at_def split: if_splits)
  moreover have "s' ! elen ?e = NUL" using s' l by (auto simp: store_at_def)
  moreover have "on_enter le e = Some (?e\<lparr>ebuf := s'\<rparr>)" using s' by (simp add: on_enter_def Let_def)
  ultimately show ?thesis by (intro exI[of _ "?e\<lparr>ebuf := s'\<rparr>"]) simp
qed

lemma loop_sim:
  assumes "rep_ed cap e t"
  shows "\<exists>e' rest. edit_loop le cap inp e = Some (e', rest) \<and> rep_ed cap e' (fst (t_loop le cap inp t)) \<and>
    rest = snd (t_loop le cap inp t) \<and> (rest \<noteq> None \<longrightarrow> ebuf e' ! elen e' = NUL)"
  using assms
proof (induction le cap inp t arbitrary: e rule: t_loop.induct)
  case (3 le cap c r t)
  consider "c = CR \<or> c = NL" | "c \<noteq> CR" "c \<noteq> NL" "c = ESC" | "c \<noteq> CR" "c \<noteq> NL" "c \<noteq> ESC" by blast
  then show ?case
  proof cases
    case 1
    then show ?thesis using enter_sim[OF 3(3), of le] by auto
  next
    case 2
    obtain seq r' where s: "read_escape ESC_MAX True r = (seq, r')" by fastforce
    note IH = 3(1)[of seq r']
    show ?thesis
    proof (cases "seq = []")
      case True
      then show ?thesis using 2 s IH[of e] 3(3) by simp
    next
      case False
      obtain e' where "on_key le cap (line_decode_escape seq) e = Some e'" "rep_ed cap e' (t_key le cap (line_decode_escape seq) t)"
        using key_sim[OF 3(3), of le "line_decode_escape seq"] by (auto simp: sim_def)
      then show ?thesis using 2 s False IH[of "shown le e'"] rep_shown by simp
    qed
  next
    case plain: 3
    obtain e' where "on_char le cap c e = Some e'" "rep_ed cap e' (t_char le cap c t)"
      using char_sim[OF 3(3), of le c] by (auto simp: sim_def)
    then show ?thesis using plain 3(2)[of e'] by simp
  qed
qed simp_all

section \<open>Properties\<close>

definition t_start :: "line_edit \<Rightarrow> intr \<Rightarrow> text_ed" where
  "t_start le s = \<lparr>bef = [], aft = [], tbrowse = -1, tghost = [], touts = puts (prompt le), tints = s\<rparr>"

lemma start_sim:
  assumes "0 < cap" "length buf = cap"
  obtains e where "line_edit_run le cap buf s inp = edit_loop le cap inp e" "rep_ed cap e (t_start le s)"
proof -
  let ?e = "\<lparr>ebuf = buf[0 := NUL], elen = 0, epos = 0, browse = -1, ghost = [], outs = puts (prompt le), ints = s\<rparr>"
  have "line_edit_run le cap buf s inp = edit_loop le cap inp ?e"
    using assms by (auto simp: line_edit_run_def store_at_def)
  moreover have "rep_ed cap ?e (t_start le s)" using assms by (simp add: rep_ed_def holds_def t_start_def)
  ultimately show thesis by (rule that)
qed

text \<open>
  C36. The line editor is the editor of a text with a cursor.  For any keys, completion, history and
  buffer, \<open>line_edit\<close> never writes outside its buffer, and what it leaves is what the editor on
  the text before and after the cursor computes: the line, the cursor, everything put on the terminal and the state of
  the interrupts; an entered line is terminated inside the buffer.
\<close>

theorem line_edit_is_text_editor:
  assumes "0 < cap" "length buf = cap"
  shows "\<exists>e rest. line_edit_run le cap buf s inp = Some (e, rest) \<and> length (ebuf e) = cap \<and> elen e < cap \<and>
    (case t_loop le cap inp (t_start le s) of (t, rest') \<Rightarrow>
       rest = rest' \<and> take (elen e) (ebuf e) = bef t @ aft t \<and> epos e = length (bef t) \<and> outs e = touts t \<and> ints e = tints t) \<and>
    (rest = None \<or> ebuf e ! elen e = NUL)"
proof -
  obtain e where e: "line_edit_run le cap buf s inp = edit_loop le cap inp e" "rep_ed cap e (t_start le s)"
    using start_sim[OF assms] by blast
  obtain t rest where t: "t_loop le cap inp (t_start le s) = (t, rest)" by fastforce
  obtain e' where e': "edit_loop le cap inp e = Some (e', rest)" "rep_ed cap e' t" "rest \<noteq> None \<longrightarrow> ebuf e' ! elen e' = NUL"
    using loop_sim[OF e(2), of le inp] t by auto
  have "length (ebuf e') = cap \<and> elen e' < cap \<and> take (elen e') (ebuf e') = bef t @ aft t \<and> epos e' = length (bef t) \<and>
      outs e' = touts t \<and> ints e' = tints t"
    using e'(2) by (auto simp: rep_ed_def holds_def)
  then show ?thesis using e(1) e'(1,3) t by auto
qed

lemma typed_text:
  assumes "list_all (\<lambda>k. case k of None \<Rightarrow> True | Some c \<Rightarrow> printable c) keys"
    and "length (bef t) + length (concat (map (\<lambda>k. case k of None \<Rightarrow> [] | Some c \<Rightarrow> [c]) keys)) < cap" "aft t = []"
  shows "\<exists>t'. t_loop le cap (keys @ rest) t = t_loop le cap rest t' \<and> aft t' = [] \<and>
    bef t' = bef t @ concat (map (\<lambda>k. case k of None \<Rightarrow> [] | Some c \<Rightarrow> [c]) keys)"
  using assms
proof (induction keys arbitrary: t)
  case (Cons k keys)
  show ?case
  proof (cases k)
    case None
    then show ?thesis using Cons.IH[of t] Cons.prems by simp
  next
    case (Some c)
    have p: "printable c" using Cons.prems(1) Some by simp
    then have n: "c \<noteq> CR \<and> c \<noteq> NL \<and> c \<noteq> ESC \<and> c \<noteq> ETX \<and> c \<noteq> CHR 0x7F \<and> c \<noteq> CHR 0x08 \<and> c \<noteq> CHR 0x17 \<and> c \<noteq> CHR 0x15
       \<and> c \<noteq> CHR 0x0B \<and> c \<noteq> CHR 0x01 \<and> c \<noteq> CHR 0x05 \<and> c \<noteq> TAB" by (auto simp: printable_def)
    have room: "0 < t_room cap t" using Cons.prems(2,3) Some by (simp add: t_room_def)
    then have "take (t_room cap t) [c] = [c]" by (cases "t_room cap t") auto
    then have t': "bef (t_char le cap c t) = bef t @ [c]" "aft (t_char le cap c t) = []"
      using n p room Cons.prems(3)
      by (simp_all add: t_char_def t_typed_def t_shown_def t_redraw_def t_emit_def t_insert_def)
    show ?thesis using Cons.IH[of "t_char le cap c t"] Cons.prems t' n Some by simp
  qed
qed (auto intro: exI[of _ t])

text \<open>
  What is typed is what is entered.  Printable characters that fit the buffer, with any silences between
  them, followed by Enter give exactly those characters as the line, whatever completion, history and
  prompt are, and what follows on the wire is left there.
\<close>

theorem typed_line_entered:
  assumes "list_all (\<lambda>k. case k of None \<Rightarrow> True | Some c \<Rightarrow> printable c) keys"
    and "length (concat (map (\<lambda>k. case k of None \<Rightarrow> [] | Some c \<Rightarrow> [c]) keys)) < cap" "length buf = cap"
  shows "\<exists>e. line_edit_run le cap buf s (keys @ Some CR # rest) = Some (e, Some rest) \<and>
    take (elen e) (ebuf e) = concat (map (\<lambda>k. case k of None \<Rightarrow> [] | Some c \<Rightarrow> [c]) keys) \<and> ebuf e ! elen e = NUL"
proof -
  have "0 < cap" using assms(2) by auto
  with assms(3) obtain e where e: "line_edit_run le cap buf s (keys @ Some CR # rest) = edit_loop le cap (keys @ Some CR # rest) e"
    "rep_ed cap e (t_start le s)" using start_sim by blast
  obtain t where t: "t_loop le cap (keys @ Some CR # rest) (t_start le s) = t_loop le cap (Some CR # rest) t" "aft t = []"
    "bef t = concat (map (\<lambda>k. case k of None \<Rightarrow> [] | Some c \<Rightarrow> [c]) keys)"
    using typed_text[OF assms(1), of "t_start le s" cap le "Some CR # rest"] assms(2) by (auto simp: t_start_def)
  have "bef (t_enter le t) = bef t" "aft (t_enter le t) = aft t" by (simp_all add: t_enter_def t_emit_def t_redraw_def)
  moreover obtain e' where "edit_loop le cap (keys @ Some CR # rest) e = Some (e', Some rest)" "rep_ed cap e' (t_enter le t)"
      "ebuf e' ! elen e' = NUL"
    using loop_sim[OF e(2), of le "keys @ Some CR # rest"] t by auto
  ultimately show ?thesis using e(1) t rep_edD(4)[of cap e' "t_enter le t"] by auto
qed

section \<open>Witnesses\<close>

definition plain_editor :: line_edit where
  "plain_editor = \<lparr>complete = None, history = None, prompt = ''> '', has_flush = True\<rparr>"

lemma line_edit_is_text_editor_witness:
  "\<exists>e. line_edit_run plain_editor 8 (replicate 8 NUL) intr_init [Some CHR ''a'', Some CHR ''b'', Some CHR 0x08, Some NL] = Some (e, Some []) \<and>
     take (elen e) (ebuf e) = ''a''"
proof -
  have "snd (t_loop plain_editor 8 [Some CHR ''a'', Some CHR ''b'', Some CHR 0x08, Some NL] (t_start plain_editor intr_init)) = Some []"
    "bef (fst (t_loop plain_editor 8 [Some CHR ''a'', Some CHR ''b'', Some CHR 0x08, Some NL] (t_start plain_editor intr_init))) = ''a''"
    "aft (fst (t_loop plain_editor 8 [Some CHR ''a'', Some CHR ''b'', Some CHR 0x08, Some NL] (t_start plain_editor intr_init))) = []"
    by code_simp+
  with line_edit_is_text_editor[of 8 "replicate 8 NUL" plain_editor intr_init "[Some CHR ''a'', Some CHR ''b'', Some CHR 0x08, Some NL]"]
  show ?thesis by (auto simp: case_prod_beta)
qed

lemma typed_line_entered_witness:
  "\<exists>e. line_edit_run plain_editor 8 (replicate 8 NUL) intr_init ([Some CHR ''l'', None, Some CHR ''s''] @ Some CR # [Some CHR ''x'']) =
      Some (e, Some [Some CHR ''x'']) \<and> take (elen e) (ebuf e) = ''ls'' \<and> ebuf e ! elen e = NUL"
  using typed_line_entered[of "[Some CHR ''l'', None, Some CHR ''s'']" 8 "replicate 8 NUL" plain_editor intr_init "[Some CHR ''x'']"]
  by (simp add: printable_def)

end
