(* ===== verification/LineScreen.thy ===== *)
theory LineScreen
  imports LineEdit Protect
begin

text \<open>
  What the person at the terminal sees of the line editor, and the completion the shell gives it
  (\<open>os/shell/shell.cpp\<close>).  The terminal is one row that understands the controls \<open>redraw\<close> uses: carriage
  return, newline, clear to the end of the row, cursor left and colours.
\<close>

section \<open>The completion of the shell\<close>

definition low :: "char \<Rightarrow> char" where
  "low c = (if CHR ''A'' \<le> c \<and> c \<le> CHR ''Z'' then char_of (of_char c + 32 :: nat) else c)"

fun prefix_matches :: "string \<Rightarrow> string \<Rightarrow> bool" where
  "prefix_matches name [] = True"
| "prefix_matches [] (p # ps) = False"
| "prefix_matches (a # as) (p # ps) = (low a = low p \<and> prefix_matches as ps)"

definition offer_text :: "nat \<Rightarrow> string \<Rightarrow> bool \<Rightarrow> string" where
  "offer_text cap name is_dir =
     (let text = name @ (if is_dir then ''/'' else [])
      in snprintf cap (if CHR '' '' \<in> set name then CHR 0x22 # text @ [CHR 0x22] else text))"

text \<open>The walk over the names, which answers with the match of the index asked for.\<close>

fun complete_offers :: "nat \<Rightarrow> string \<Rightarrow> nat \<Rightarrow> (string \<times> bool) list \<Rightarrow> string option" where
  "complete_offers cap pre want [] = None"
| "complete_offers cap pre want ((name, is_dir) # r) =
     (if \<not> prefix_matches name pre then complete_offers cap pre want r
      else if want \<noteq> 0 then complete_offers cap pre (want - 1) r
      else Some (offer_text cap name is_dir))"

record shell_names =
  cmd_names :: "string list"
  cmd_aliases :: "string list"
  fs_cwd :: string
  storage_walk :: "string \<Rightarrow> (string \<times> bool) list"

definition shell_complete :: "shell_names \<Rightarrow> string \<Rightarrow> nat \<Rightarrow> nat \<Rightarrow> string option" where
  "shell_complete sh pre word_start index =
     (if word_start = 0
      then complete_offers COMP_LEN pre index (map (\<lambda>n. (n, False)) (cmd_names sh @ cmd_aliases sh))
      else if CHR ''/'' \<in> set pre then
        (let tail = rev (takeWhile (\<lambda>c. c \<noteq> CHR ''/'') (rev pre));
             head = take (length pre - length tail - 1) pre;
             dir = path_resolve (fs_cwd sh) (if head = [] then ''/'' else take 127 head) 128
         in complete_offers COMP_LEN tail index (storage_walk sh dir))
      else complete_offers COMP_LEN pre index (storage_walk sh (snprintf 128 (fs_cwd sh))))"

section \<open>The terminal\<close>

datatype tmode = Normal | Escape | Csi nat

record screen =
  row :: string
  col :: nat
  tmode :: tmode

fun term_step :: "term_event \<Rightarrow> screen \<Rightarrow> screen" where
  "term_step Flushed s = s"
| "term_step (Put c) s = (case tmode s of
     Normal \<Rightarrow>
       if c = ESC then s\<lparr>tmode := Escape\<rparr>
       else if c = CR then s\<lparr>col := 0\<rparr>
       else if c = NL then s\<lparr>row := [], col := 0\<rparr>
       else s\<lparr>row := take (col s) (row s @ replicate (col s - length (row s)) (CHR '' '')) @ c # drop (Suc (col s)) (row s),
              col := col s + 1\<rparr>
   | Escape \<Rightarrow> s\<lparr>tmode := if c = CHR ''['' then Csi 0 else Normal\<rparr>
   | Csi n \<Rightarrow>
       if is_digit c then s\<lparr>tmode := Csi (n * 10 + digit_of c)\<rparr>
       else if c = CHR ''K'' then s\<lparr>row := take (col s) (row s), tmode := Normal\<rparr>
       else if c = CHR ''D'' then s\<lparr>col := col s - (if n = 0 then 1 else n), tmode := Normal\<rparr>
       else s\<lparr>tmode := Normal\<rparr>)"

definition screen_after :: "term_event list \<Rightarrow> screen \<Rightarrow> screen" where
  "screen_after evs s = fold term_step evs s"

definition at :: "string \<Rightarrow> nat \<Rightarrow> screen" where
  "at r c = \<lparr>row = r, col = c, tmode = Normal\<rparr>"

lemma screen_append [simp]: "screen_after (a @ b) s = screen_after b (screen_after a s)"
  by (simp add: screen_after_def)

lemma screen_Nil [simp]: "screen_after [] s = s"
  by (simp add: screen_after_def)

lemma screen_Cons: "screen_after (a # b) s = screen_after b (term_step a s)"
  by (simp add: screen_after_def)

lemma puts_append: "puts (a @ b) = puts a @ puts b"
  by (simp add: puts_def)

lemma printable_plain: "printable c \<Longrightarrow> c \<noteq> ESC \<and> c \<noteq> CR \<and> c \<noteq> NL"
  by (auto simp: printable_def)

lemma screen_text: "list_all printable t \<Longrightarrow> screen_after (puts t) (at r (length r)) = at (r @ t) (length r + length t)"
proof (induction t arbitrary: r)
  case (Cons c t)
  have "term_step (Put c) (at r (length r)) = at (r @ [c]) (length (r @ [c]))"
    using printable_plain[of c] Cons.prems by (simp add: at_def)
  then show ?case using Cons.IH[of "r @ [c]"] Cons.prems by (simp add: puts_def screen_Cons)
qed (simp add: puts_def)

lemma dec_digits: "c \<in> set (to_dec n) \<Longrightarrow> is_digit c"
proof -
  assume "c \<in> set (to_dec n)"
  then obtain d where d: "d < 10" "c = hex_char d" using to_base_chars[of c 10 n] by auto
  have "list_all (\<lambda>d. is_digit (hex_char d)) [0..<10]" by code_simp
  then show ?thesis using d by (simp add: list_all_iff)
qed

lemma screen_digits:
  "list_all is_digit ds \<Longrightarrow> screen_after (puts ds) \<lparr>row = r, col = c, tmode = Csi v\<rparr> =
     \<lparr>row = r, col = c, tmode = Csi (foldl (\<lambda>v d. v * 10 + digit_of d) v ds)\<rparr>"
  by (induction ds arbitrary: v) (simp_all add: puts_def screen_Cons)

lemma screen_left:
  assumes "n \<noteq> 0"
  shows "screen_after (puts ''D'') (screen_after (puts (to_dec n)) (screen_after (puts (ESC # ''['')) (at r c))) = at r (c - n)"
proof -
  have "foldl (\<lambda>v d. v * 10 + digit_of d) 0 (to_dec n) = n"
    using to_base_value[of 10 n] by (simp add: base_value_def)
  moreover have "list_all is_digit (to_dec n)" using dec_digits by (auto simp: list_all_iff)
  ultimately have "screen_after (puts (to_dec n)) \<lparr>row = r, col = c, tmode = Csi 0\<rparr> = \<lparr>row = r, col = c, tmode = Csi n\<rparr>"
    by (simp add: screen_digits)
  moreover have "screen_after (puts (ESC # ''['')) (at r c) = \<lparr>row = r, col = c, tmode = Csi 0\<rparr>"
    by (simp add: puts_def screen_Cons at_def)
  ultimately show ?thesis using assms by (simp add: puts_def screen_Cons at_def is_digit_def)
qed

lemma screen_colour:
  "screen_after (puts (ESC # ''[90m'')) (at r c) = at r c" "screen_after (puts (ESC # ''[0m'')) (at r c) = at r c"
  by (simp_all add: puts_def screen_Cons at_def is_digit_def digit_of_def)

lemma screen_clear: "screen_after (puts (ESC # ''[K'')) (screen_after (puts [CR]) (at r c)) = at [] 0"
  by (simp add: puts_def screen_Cons at_def is_digit_def)

text \<open>The prompt may hold colours: all that matters is that it leaves a text and the cursor behind it.\<close>

definition renders :: "string \<Rightarrow> string \<Rightarrow> bool" where
  "renders p shown_as \<longleftrightarrow> screen_after (puts p) (at [] 0) = at shown_as (length shown_as)"

lemma screen_redraw:
  assumes "renders (prompt le) p" "list_all printable txt" "list_all printable g" "pos \<le> length txt"
  shows "screen_after (redraw_out le txt pos g) (at r c) =
     at (p @ txt @ (if pos = length txt then g else [])) (length p + pos)"
proof -
  have fl: "screen_after (if has_flush le then [Flushed] else []) s = s" for s by (simp add: screen_Cons)
  have t: "screen_after (puts txt) (screen_after (puts (prompt le)) (at [] 0)) = at (p @ txt) (length p + length txt)"
    using assms(1,2) screen_text[of "txt" p] by (simp add: renders_def)
  have g: "screen_after (puts g) (at (p @ txt) (length p + length txt)) = at (p @ txt @ g) (length p + length txt + length g)"
    using screen_text[OF assms(3), of "p @ txt"] by simp
  show ?thesis
  proof (cases "g \<noteq> [] \<and> pos = length txt")
    case True
    then have "length txt - pos + length g \<noteq> 0" by simp
    then show ?thesis using True
      by (simp add: redraw_out_def Let_def screen_clear t screen_colour g screen_left fl del: screen_append add: screen_append)
  next
    case False
    then show ?thesis using assms(4)
      by (cases "pos = length txt") (simp_all add: redraw_out_def Let_def screen_clear t screen_left fl)
  qed
qed

section \<open>What is on the screen\<close>

text \<open>Completion and history that hand out printable text.\<close>

definition plain_sources :: "line_edit \<Rightarrow> bool" where
  "plain_sources le \<longleftrightarrow>
     (\<forall>f p w i s. complete le = Some f \<longrightarrow> f p w i = Some s \<longrightarrow> list_all printable s) \<and>
     (\<forall>h d s. history le = Some h \<longrightarrow> h d = Some s \<longrightarrow> list_all printable s)"

definition on_screen :: "string \<Rightarrow> text_ed \<Rightarrow> bool" where
  "on_screen p t \<longleftrightarrow> list_all printable (bef t @ aft t) \<and> list_all printable (tghost t) \<and>
     (\<exists>g. screen_after (touts t) (at [] 0) = at (p @ bef t @ aft t @ g) (length p + length (bef t)) \<and>
        (g = [] \<or> g = tghost t \<and> aft t = []))"

lemma collect_set: "s \<in> set (collect f k n) \<Longrightarrow> \<exists>i. f i = Some s"
proof (induction f k n rule: collect.induct)
  case (2 f room n)
  then show ?case by (cases "f n") auto
qed simp

lemma list_all_drop: "list_all P xs \<Longrightarrow> list_all P (drop n xs)"
  by (auto simp: list_all_iff dest: in_set_dropD)

lemma list_all_take: "list_all P xs \<Longrightarrow> list_all P (take n xs)"
  by (auto simp: list_all_iff dest: in_set_takeD)

lemma common_set: "cands \<noteq> [] \<Longrightarrow> set (common_loop k cands) \<subseteq> set (hd cands)"
proof (induction k cands rule: common_loop.induct)
  case (2 room cands)
  obtain d ds where c: "cands = d # ds" using 2(2) by (cases cands) auto
  show ?case
  proof (cases d)
    case (Cons x xs)
    have "set (common_loop room (map tl cands)) \<subseteq> set xs"
      if "list_all (\<lambda>d. d \<noteq> [] \<and> hd d = x) (tl cands)"
      using 2(1)[of x xs] that by (simp add: c Cons)
    then show ?thesis by (auto simp: c Cons)
  qed (simp add: c)
qed simp

text \<open>The candidates of a plain source are printable, and so is what is made of them.\<close>

lemma plain_candidates:
  assumes "plain_sources le" "complete le = Some f" "s \<in> set (collect (f p w) k n)"
  shows "list_all printable s"
  using assms collect_set[OF assms(3)] by (auto simp: plain_sources_def)

lemma ghost_printable:
  assumes "plain_sources le" shows "list_all printable (t_ghost le t)"
proof (cases "complete le")
  case (Some f)
  define c where "c = collect (f (word_of (bef t)) (length (cut_word (bef t)))) 2 0"
  have "list_all printable (line_ghost c w COMP_LEN)" for w
  proof (cases "length c = 1")
    case True
    then have "hd c \<in> set c" by (cases c) auto
    then have "list_all printable (hd c)" unfolding c_def by (rule plain_candidates[OF assms Some])
    then show ?thesis by (auto simp: line_ghost_def intro!: list_all_take list_all_drop)
  qed (simp add: line_ghost_def)
  then show ?thesis using Some by (simp add: t_ghost_def c_def)
qed (simp add: t_ghost_def)

lemma common_printable:
  assumes "plain_sources le" "complete le = Some f"
  shows "list_all printable (line_common_prefix (collect (f p w) k n) m)"
proof (cases "collect (f p w) k n")
  case (Cons d ds)
  then have "list_all printable d" using plain_candidates[OF assms] by (metis list.set_intros(1))
  then show ?thesis using common_set[of "d # ds" "m - 1"] by (auto simp: line_common_prefix_def Cons list_all_iff)
qed (simp add: line_common_prefix_def)

definition all_plain :: "text_ed \<Rightarrow> bool" where
  "all_plain t \<longleftrightarrow> (\<forall>c \<in> set (bef t) \<union> set (aft t) \<union> set (tghost t). printable c)"

definition settled :: "text_ed \<Rightarrow> bool" where
  "settled t \<longleftrightarrow> (\<exists>r c. screen_after (touts t) (at [] 0) = at r c)"

lemma on_screen_plain: "on_screen p t \<Longrightarrow> all_plain t \<and> settled t"
  by (auto simp: on_screen_def all_plain_def settled_def list_all_iff)

lemma plain_events:
  "(\<And>ev. ev \<in> set evs \<Longrightarrow> \<exists>x. ev = Put x \<and> (printable x \<or> x = NL)) \<Longrightarrow> \<exists>r' c'. screen_after evs (at r c) = at r' c'"
proof (induction evs arbitrary: r c)
  case (Cons ev evs)
  have "\<exists>x. ev = Put x \<and> (printable x \<or> x = NL)" by (rule Cons.prems) simp
  then obtain x where x: "ev = Put x" "printable x \<or> x = NL" by blast
  then have "\<exists>r1 c1. term_step ev (at r c) = at r1 c1"
    using printable_plain[of x] by (cases "x = NL") (auto simp: at_def)
  then show ?case using Cons by (auto simp: screen_Cons)
qed (auto simp: screen_after_def)

lemma shown_on_screen:
  assumes "plain_sources le" "renders (prompt le) p" "all_plain t" "settled t"
  shows "on_screen p (t_shown le t)"
proof -
  obtain r c where s: "screen_after (touts t) (at [] 0) = at r c" using assms(4) by (auto simp: settled_def)
  have tx: "list_all printable (bef t @ aft t)" using assms(3) by (auto simp: all_plain_def list_all_iff)
  have g: "list_all printable (t_ghost le t)" by (rule ghost_printable[OF assms(1)])
  have "screen_after (redraw_out le (bef t @ aft t) (length (bef t)) (t_ghost le t)) (at r c) =
      at (p @ (bef t @ aft t) @ (if aft t = [] then t_ghost le t else [])) (length p + length (bef t))"
    using screen_redraw[OF assms(2) tx g, of "length (bef t)" r c] by (cases "aft t") simp_all
  then show ?thesis using s tx g
    by (auto simp: on_screen_def t_shown_def t_redraw_def t_emit_def)
qed

lemma set_word: "set (cut_word b) \<subseteq> set b" "set (word_of b) \<subseteq> set b"
proof -
  have "set b = set (cut_word b) \<union> set (word_of b)" by (metis cut_word_prefix set_append)
  then show "set (cut_word b) \<subseteq> set b" "set (word_of b) \<subseteq> set b" by auto
qed

lemma set_next_word: "set (next_word a) \<subseteq> set a"
  by (metis next_word_prefix set_append Un_upper1)

lemma insert_plain: "all_plain t \<Longrightarrow> list_all printable s \<Longrightarrow> all_plain (t_insert cap s t)"
  by (auto simp: all_plain_def t_insert_def list_all_iff dest!: in_set_takeD)

lemma settled_cong [simp]: "settled (t\<lparr>bef := b\<rparr>) = settled t" "settled (t\<lparr>aft := b\<rparr>) = settled t" "settled (t\<lparr>tbrowse := i\<rparr>) = settled t"
  "settled (t\<lparr>tints := x\<rparr>) = settled t" "settled (t_insert cap s t) = settled t"
  by (simp_all add: settled_def t_insert_def)

lemma settled_cong_text: "settled (t\<lparr>bef := b, aft := a\<rparr>) = settled t"
  by (simp add: settled_def)

lemma browse_plain:
  assumes "plain_sources le" "all_plain t"
  shows "all_plain (t_browse le cap dir t) \<and> settled (t_browse le cap dir t) = settled t"
proof -
  have "\<forall>c \<in> set (cstr (take n h)). printable c" if "history le = Some f" "f d = Some h" for f d h n
  proof -
    have "list_all printable h" using assms(1) that by (auto simp: plain_sources_def)
    then show ?thesis by (auto simp: cstr_def list_all_iff dest!: set_takeWhileD in_set_takeD)
  qed
  then show ?thesis using assms(2)
    by (auto simp: t_browse_def Let_def all_plain_def cstr_def split: option.splits if_splits)
qed

lemma key_plain:
  assumes "plain_sources le" "all_plain t"
  shows "all_plain (t_key le cap k t) \<and> settled (t_key le cap k t) = settled t"
proof (cases k)
  case KEY_LEFT
  then show ?thesis using assms(2) by (auto simp: all_plain_def dest: in_set_butlastD)
next
  case KEY_RIGHT
  have "list_all printable (tghost t)" using assms(2) by (auto simp: all_plain_def list_all_iff)
  then show ?thesis using assms(2) insert_plain[OF assms(2)] KEY_RIGHT by (auto simp: all_plain_def split: list.split)
next
  case KEY_HOME then show ?thesis using assms(2) by (auto simp: all_plain_def)
next
  case KEY_END
  have "list_all printable (tghost t)" using assms(2) by (auto simp: all_plain_def list_all_iff)
  then show ?thesis using assms(2) insert_plain[OF assms(2)] KEY_END by (auto simp: all_plain_def)
next
  case KEY_DELETE then show ?thesis using assms(2) by (cases "aft t") (auto simp: all_plain_def)
next
  case KEY_WORD_LEFT then show ?thesis using assms(2) set_word[of "bef t"] by (auto simp: all_plain_def)
next
  case KEY_WORD_RIGHT
  then show ?thesis using assms(2) set_next_word[of "aft t"] by (auto simp: all_plain_def dest!: in_set_dropD)
next
  case KEY_UP then show ?thesis using browse_plain[OF assms] by simp
next
  case KEY_DOWN then show ?thesis using browse_plain[OF assms] by simp
next
  case KEY_UNKNOWN then show ?thesis using assms(2) by simp
qed

lemma offer_plain:
  assumes "\<And>s. s \<in> set cands \<Longrightarrow> list_all printable s" "ev \<in> set (offer_out cands)"
  shows "\<exists>x. ev = Put x \<and> (printable x \<or> x = NL)"
proof -
  have c: "ev \<in> set (puts (cands ! i)) \<Longrightarrow> i < length cands \<Longrightarrow> \<exists>x. ev = Put x \<and> (printable x \<or> x = NL)" for i
    using assms(1)[of "cands ! i"] by (auto simp: puts_def list_all_iff)
  have sp: "printable (CHR '' '')" "printable (CHR ''.'')" by (simp_all add: printable_def)
  show ?thesis using assms(2) sp
    by (auto simp: offer_out_def puts_def[of "''  ''"] puts_def[of "[NL]"] puts_def[of "''  ...''"] split: if_splits dest: c)
qed

lemma tab_on_screen:
  assumes "plain_sources le" "renders (prompt le) p" "on_screen p t"
  shows "on_screen p (t_tab le cap t)"
proof (cases "complete le")
  case (Some f)
  have pl: "all_plain t" "settled t" using on_screen_plain[OF assms(3)] by auto
  define gap pre cands common stale where "gap = cut_word (bef t)" and "pre = take (COMP_LEN - 1) (word_of (bef t))"
    and "cands = collect (f pre (length gap)) COMP_MAX 0" and "common = line_common_prefix cands COMP_LEN"
    and "stale = take (length (word_of (bef t)) - length pre) (drop (length gap + length (aft t)) (bef t @ aft t))"
  have cp: "list_all printable common" unfolding common_def cands_def by (rule common_printable[OF assms(1) Some])
  have st: "set stale \<subseteq> set (bef t) \<union> set (aft t)" unfolding stale_def by (auto dest!: in_set_takeD in_set_dropD)
  have "set gap \<subseteq> set (bef t)" unfolding gap_def by (rule set_word)
  then have t0: "all_plain (t\<lparr>bef := gap, aft := aft t @ stale\<rparr>)" "settled (t\<lparr>bef := gap, aft := aft t @ stale\<rparr>)"
    using pl st by (auto simp: all_plain_def settled_def)
  have sp: "list_all printable '' ''" by (simp add: printable_def)
  have offer: "on_screen p (t_shown le (t_emit (offer_out cands) t))"
  proof (rule shown_on_screen[OF assms(1,2)])
    show "all_plain (t_emit (offer_out cands) t)" using pl by (simp add: all_plain_def t_emit_def)
    obtain r c where "screen_after (touts t) (at [] 0) = at r c" using pl by (auto simp: settled_def)
    moreover have "\<exists>r' c'. screen_after (offer_out cands) (at r c) = at r' c'"
    proof (rule plain_events)
      fix ev assume "ev \<in> set (offer_out cands)"
      then show "\<exists>x. ev = Put x \<and> (printable x \<or> x = NL)"
        by (rule offer_plain[rotated]) (use plain_candidates[OF assms(1) Some] in \<open>auto simp: cands_def\<close>)
    qed
    ultimately show "settled (t_emit (offer_out cands) t)" by (simp add: settled_def t_emit_def)
  qed
  have repl: "on_screen p (t_shown le (if b then t_insert cap '' '' (t_insert cap common (t\<lparr>bef := gap, aft := aft t @ stale\<rparr>))
      else t_insert cap common (t\<lparr>bef := gap, aft := aft t @ stale\<rparr>)))" for b
    using t0 cp sp by (intro shown_on_screen[OF assms(1,2)]) (auto intro!: insert_plain simp del: settled_cong(1,2))
  show ?thesis using assms(3) offer repl
    unfolding t_tab_def Some option.case Let_def gap_def[symmetric] pre_def[symmetric] cands_def[symmetric] common_def[symmetric] stale_def[symmetric]
    by (simp only: split: if_split) simp
qed (use assms(3) in \<open>simp add: t_tab_def\<close>)

lemma char_on_screen:
  assumes "plain_sources le" "renders (prompt le) p" "on_screen p t"
  shows "on_screen p (t_char le cap c t)"
proof -
  note pl = on_screen_plain[OF assms(3)]
  have sh: "on_screen p (t_shown le t')" if "all_plain t'" "settled t'" for t'
    using shown_on_screen[OF assms(1,2) that] .
  have ty: "on_screen p (t_typed le t')" if "all_plain t'" "settled t'" for t'
    unfolding t_typed_def using that by (intro sh) (simp_all add: all_plain_def settled_def)
  obtain r q where s: "screen_after (touts t) (at [] 0) = at r q" using pl by (auto simp: settled_def)
  have ne: "CHR ''^'' \<noteq> ESC" "CHR ''^'' \<noteq> CR" "CHR ''^'' \<noteq> NL" by simp_all
  have "screen_after (puts (''^C'' @ [NL])) (at r q) = at [] 0" by (simp add: puts_def screen_Cons at_def)
  then have etx: "on_screen p (t_emit (puts (''^C'' @ [NL]) @ puts (prompt le)) (t\<lparr>bef := [], aft := [], tints := x\<rparr>))" for x
    using assms(2) s pl unfolding on_screen_def t_emit_def renders_def
    by (auto simp: all_plain_def list_all_iff append_assoc intro!: exI[of _ "[]"] simp del: append.simps(2))
  have cut: "on_screen p (t_typed le (t\<lparr>bef := b\<rparr>))" if "set b \<subseteq> set (bef t)" for b
    using pl that by (intro ty) (auto simp: all_plain_def)
  have typed: "on_screen p (if printable c \<and> 0 < t_room cap t then t_typed le (t_insert cap [c] t) else t)"
    using pl assms(3) by (auto intro!: ty insert_plain)
  have kill: "on_screen p (t_shown le (t\<lparr>aft := []\<rparr>))" using pl by (intro sh) (auto simp: all_plain_def)
  have home: "on_screen p (t_shown le (t_key le cap KEY_HOME t))" "on_screen p (t_shown le (t\<lparr>bef := bef t @ aft t, aft := []\<rparr>))"
    using pl by (auto intro!: sh simp: all_plain_def settled_cong_text)
  have "set (butlast (bef t)) \<subseteq> set (bef t)" by (auto dest: in_set_butlastD)
  note facts = etx typed kill home tab_on_screen[OF assms, of cap] cut[OF this] cut[OF set_word(1)] cut[of "[]", simplified]
  show ?thesis unfolding t_char_def using facts by (simp only: split: if_split) simp
qed

lemma loop_on_screen:
  assumes "plain_sources le" "renders (prompt le) p" "on_screen p t"
  shows "snd (t_loop le cap inp t) = None \<Longrightarrow> on_screen p (fst (t_loop le cap inp t))"
  using assms
proof (induction le cap inp t rule: t_loop.induct)
  case (3 le cap c r t)
  show ?case
  proof (cases "c = CR \<or> c = NL \<or> c \<noteq> ESC")
    case True
    then show ?thesis using 3(2-) char_on_screen[OF 3(4-6), of cap c] by auto
  next
    case False
    obtain seq r' where s: "read_escape ESC_MAX True r = (seq, r')" by fastforce
    note pl = on_screen_plain[OF 3(6)]
    have "on_screen p (if seq = [] then t else t_shown le (t_key le cap (line_decode_escape seq) t))"
      using 3(6) key_plain[OF 3(4), of t cap "line_decode_escape seq"] pl shown_on_screen[OF 3(4,5)] by auto
    then show ?thesis using 3(1)[of seq r'] False s 3(3-5) by simp
  qed
qed simp_all


section \<open>Witnesses and what completion does\<close>

definition shell_editor :: "shell_names \<Rightarrow> line_edit" where
  "shell_editor sh = \<lparr>complete = Some (shell_complete sh), history = None, prompt = ESC # ''[36mroot'' @ ESC # ''[0m> '', has_flush = True\<rparr>"

definition no_names :: shell_names where
  "no_names = \<lparr>cmd_names = [], cmd_aliases = [], fs_cwd = ''/'', storage_walk = (\<lambda>_. [])\<rparr>"


text \<open>
  The word that completion replaces is the whole argument, but what the shell offers is only the last component of a
  path: completing \<open>/pkg/gr\<close> loses the directory.
\<close>

definition pkg_names :: shell_names where
  "pkg_names = no_names\<lparr>storage_walk := (\<lambda>d. if d = ''/pkg'' then [(''grnet'', False)] else [(''Apple'', False), (''apricot'', False)])\<rparr>"

definition typed_in :: "shell_names \<Rightarrow> string \<Rightarrow> string" where
  "typed_in sh ks = (let t = fst (t_loop (shell_editor sh) 256 (map Some ks) (t_start (shell_editor sh) intr_init)) in bef t @ aft t)"

lemma tab_loses_directory: "typed_in pkg_names (''cat /pkg/gr'' @ [TAB]) = ''cat grnet ''"
  by code_simp

text \<open>Names that match in different case share no prefix, and the word is replaced by what they share: nothing.\<close>

lemma tab_deletes_word: "typed_in pkg_names (''rm ap'' @ [TAB]) = ''rm ''"
  by code_simp

text \<open>The gap before the cursor counts as part of the word, so nothing is offered for an argument not begun.\<close>

lemma tab_after_space: "typed_in pkg_names (''cat '' @ [TAB]) = ''cat ''"
  by code_simp

text \<open>Ctrl+C clears the line and its picture but keeps the suggestion, which the next right arrow inserts.\<close>

lemma suggestion_survives_interrupt:
  "typed_in (no_names\<lparr>cmd_names := [''reboot'']\<rparr>) (''reb'' @ [ETX, ESC] @ ''[C'') = ''oot''"
  by code_simp

end
