(* ===== verification/Spec2Isabelle.thy ===== *)
theory Spec2Isabelle
  imports Arena PtrCheck Persist HttpParse Protect CmdLine RingBuffers Locks Fat12Data Mpu PkgSlot Secret JobList Interrupt Detach LineScreen
begin

text \<open>
  \<^bold>\<open>A verification of the core of RPCortex.\<close>

  RPCortex is an operating system for boards with an RP2040 or RP2350: two cores, some hundred kilobytes of
  memory, a flash chip.  It runs a shell and packages, which are native programs confined by the memory
  protection unit.  This development models the part of its C++ that decides something, mostly the files of
  \<open>src/os/core\<close> that the authors keep free of hardware, and proves what makes them correct.

  \<^bold>\<open>How the program fits together, and which theory models which part.\<close>

  \<^item> \<^bold>\<open>Packages and their memory.\<close>  A package is written into a slot of flash (\<open>loader-spike/firmware/pkgslot.cpp\<close>,
    theory \<open>PkgSlot\<close>: routing, the streaming writer, commit and open over an arbitrary flash device).  It runs with a
    heap of its own (\<open>arena.cpp\<close>, \<open>Arena\<close>: allocation, freeing and the two questions about space, on block headers
    that lie in the package's memory), behind regions of the protection unit (\<open>mpu.cpp\<close>, \<open>Mpu\<close>), and every pointer
    it hands to the firmware is checked (\<open>ptrcheck.cpp\<close>, \<open>PtrCheck\<close>).  Commands it starts on tasks of their own
    are kept in a table of handles (\<open>detach.cpp\<close>, \<open>Detach\<close>).
  \<^item> \<^bold>\<open>Tasks.\<close>  \<open>task.cpp\<close> is a cooperative scheduler on two cores (\<open>Scheduler\<close>: the table, the choice of the
    next task, \<open>reschedule\<close> with the context switch as a step of its own, spawning in its three sections, killing, reaping,
    package memory).  \<open>lock.cpp\<close> and \<open>preempt.cpp\<close> (\<open>Locks\<close>) are the recursive locks and the two decisions of the timer.
    \<open>interrupt.cpp\<close> (\<open>Interrupt\<close>) looks for Ctrl+C, sets type-ahead aside and keeps the claim on the console.
  \<^item> \<^bold>\<open>Accounts and settings.\<close>  \<open>registry.cpp\<close> (\<open>Registry\<close>) and \<open>users.cpp\<close> (\<open>Users\<close>, over the hash of \<open>sha256.cpp\<close>,
    \<open>Sha256\<close>) are tables of fixed size with text files; \<open>persist.cpp\<close> (\<open>Persist\<close>) loads and saves them with shadow copies
    and switches the settings of the person signed in.  \<open>secret.cpp\<close> (\<open>Secret\<close>) seals stored passwords.  \<open>path.cpp\<close>,
    \<open>protect.cpp\<close>, \<open>perms.cpp\<close> and \<open>fsguard.cpp\<close> (\<open>Protect\<close>) decide which files an account may touch.
  \<^item> \<^bold>\<open>Text.\<close>  \<open>cmdline.cpp\<close> (\<open>CmdLine\<close>) cuts a command line into words, connectors, pipes and redirections; \<open>joblist.cpp\<close>
    (\<open>JobList\<close>) edits the files of commands run at start and at intervals; \<open>httpparse.cpp\<close> (\<open>HttpParse\<close>) takes a response
    apart as it arrives and splits URLs.
  \<^item> \<^bold>\<open>Rings.\<close>  \<open>history.cpp\<close>, \<open>logring.cpp\<close> and \<open>pcmring.cpp\<close> (\<open>RingBuffers\<close>).
  \<^item> \<^bold>\<open>The transfer drive.\<close>  The USB drive is a region of flash read and written by sectors (\<open>storage.cpp\<close>) through a cache of
    one erase block (\<open>blockcache.cpp\<close>; both in \<open>BlockCache\<close>), with a FAT12 volume on it: names, dates and directory entries
    (\<open>fatview.cpp\<close>, \<open>FatNames\<close>), the driver (\<open>fat12.cpp\<close>, \<open>Fat12\<close>), and what the driver does to the bytes of
    files (\<open>Fat12Data\<close>).

  \<open>Prelude\<close> holds the machine types, the hint collections and the lemmas on lists and words that the components share;
  \<open>CLib\<close> the pieces of the C library the sources call (\<open>snprintf\<close> with a text, \<open>strtoul\<close>, the search functions).

  \<^bold>\<open>How state and operations correspond to the code.\<close>  The static variables of a file are one record, and an operation takes
  and returns it; a struct is a record with the same fields, an enum a datatype.  Text in an array with its terminator is a
  list of characters without it, and an array's capacity is a test on the length, as in the source; raw memory is a list of
  bytes or a function from addresses.  Integers the code lets wrap are words of their width, others are numbers.  A pointer
  into an array is an index; a pointer whose value is only compared is a word with \<open>0\<close> for null.  A \<open>false\<close> or null
  result is \<open>None\<close> or a value of the source's own error type.  Loops are recursive functions with a measure.  A loop whose end
  depends on what memory or a disk holds (the walks of the heap, \<open>free_chain\<close>, the data loop of \<open>f12_write\<close>, the sizing of
  the audio ring) is a partial function whose value is \<open>None\<close> when it does not end, and that it ends is part of the
  theorems.  No fuel is used for them; \<open>poll_loop\<close> counts down the 32 turns the source allows it.

  \<^bold>\<open>What the lemmas show.\<close>

  \<^item> \<open>Arena\<close>: the chain of blocks is an invariant; allocation and freeing are exact on it, \<open>largest\<close> is the largest request
    that would be granted, and any sequence of operations ends and keeps the chain.  The locale \<open>allocator\<close> states what a
    client may rely on and is interpreted on the heap (\<open>pkg_heap\<close>).
  \<^item> \<open>PtrCheck\<close>, \<open>Mpu\<close>: the checks accept exactly the ranges they mean to, with the wrap-around of the additions; the
    encoder refuses exactly what the registers cannot say.
  \<^item> \<open>PkgSlot\<close>: an installation cut short anywhere leaves an empty slot (\<open>torn_run\<close> is the flash after any prefix of
    the operations with the last one torn), a completed one opens with what was written, a changed byte is refused, and what
    the router admits installs.
  \<^item> \<open>Sha256\<close>: streaming equals the reference hash of the whole message; \<open>stream_hash\<close> is interpreted on it, and \<open>Users\<close>
    and \<open>Secret\<close> build on that.
  \<^item> \<open>Registry\<close>, \<open>Users\<close>, \<open>Persist\<close>: table invariants over every sequence of operations, get after set (locale \<open>bounded_map\<close>,
    interpreted on both tables), the round trip of the files, and that a reboot or a damaged primary loses nothing (locales
    \<open>file_store\<close>, \<open>text_table\<close>, \<open>persisted_table\<close>).
  \<^item> \<open>Scheduler\<close>: a step relation for two cores, its reachable states, the invariant that a task runs on one core
    at most, that it resumes where it stopped, and fairness of the choice.  \<open>Locks\<close>: preemption is off exactly while a lock is
    held.  \<open>Interrupt\<close>: characters are neither lost nor reordered, and the console has one reader.  \<open>Detach\<close>: the table's
    typing invariant, when a claim is granted, and that released handles stay dead.
  \<^item> \<open>Protect\<close>: the normaliser against the lexical reading of a path, and the guard against it.  \<open>CmdLine\<close>, \<open>HttpParse\<close>,
    \<open>JobList\<close>, \<open>Secret\<close>: what is written reads back, however it arrives, and nothing else is accepted.  The body sink of a
    response is a parameter with the locale \<open>accepting_sink\<close>, interpreted on one that collects.
  \<^item> \<open>RingBuffers\<close>: a ring is the list of the most recent entries (locale \<open>recency\<close>, interpreted on the log and the audio ring).
  \<^item> \<open>BlockCache\<close>, \<open>Fat12\<close>, \<open>Fat12Data\<close>: layer by layer an array of sectors (locale \<open>sector_io\<close>, interpreted as \<open>drive\<close>), an
    array of table entries (\<open>fat_table\<close>, \<open>drive_fat\<close>) and a set of files (\<open>fat_volume\<close>, \<open>drive_files\<close>).

  Theorems about behaviour the authors would not want are kept with the others (\<open>reg_newline_injects\<close>,
  \<open>comma_name_loses_password\<close>, \<open>oversized_registry_lost\<close>, \<open>failed_save_marked_clean\<close>, \<open>fat_epoch_overreads\<close>,
  \<open>expired_claim_returns\<close> and others), each next to the lemmas of its component.

  \<^bold>\<open>What is assumed.\<close>  A function that takes the scheduler's guard or the lock of its table is one step; between such
  steps any interleaving is possible.  Process numbers do not wrap.  Erasing and programming flash is a parameter; where a
  theorem needs it to work, the hypothesis says that erasing sets and programming clears bits (\<open>nor_device\<close>) or that no operation
  is refused (\<open>willing\<close>).  The filesystem under \<open>storage.cpp\<close> is littlefs, a submodule, and enters through the laws of
  \<open>file_store\<close>.  The random source, the clock, the body sink of a response and the list of names the firmware exports are
  arguments.

  \<^bold>\<open>What is not modelled.\<close>  Drivers, register access and interrupt handlers (\<open>os/*_rp2.cpp\<close>, the radio, NFC, Bluetooth and
  SD card files), the commands of the shell and the applications, which parse arguments, call services and print, the
  over two hundred system calls of \<open>os/api.cpp\<close>, which check pointers and call a service, and the relocating loader
  \<open>loader.cpp\<close>.  The TLS, TCP, littlefs and TinyUSB stacks are submodules.  Of modelled files, what is left out is
  formatting for output, the wiping of buffers and tests for null arguments; \<open>task_migrate_to\<close> of \<open>task.cpp\<close> is left out because
  it loops over context switches.
\<close>

end
